(* ===== verification/Prelude.thy ===== *)
theory Prelude
  imports Main "HOL-Library.Word" "HOL-Library.List_Lexorder" "HOL-Library.Sublist"
begin

text \<open>
  Shared vocabulary of the development: bytes and byte strings, the
  little-endian and big-endian images of machine integers
  (\<open>to_le_bytes\<close>, \<open>from_be_bytes\<close>, ... of the Rust standard library),
  result values, saturating and checked arithmetic at the width of \<open>u64\<close>
  and \<open>usize\<close>, and the generic list lemmas the component theories rest on.
\<close>

unbundle bit_operations_syntax

type_synonym byte = "8 word"
type_synonym bytes = "byte list"
type_synonym u16 = "16 word"
type_synonym u32 = "32 word"
type_synonym u64 = "64 word"
type_synonym ('e, 'a) result = "'e + 'a"

named_theorems codec_simps
  \<open>rewriting of decoders applied to encoder output\<close>
named_theorems seq_simps
  \<open>unfolding of the sequence-number decision kernels\<close>

section \<open>Results\<close>

fun is_ok :: "('e, 'a) result \<Rightarrow> bool" where
  "is_ok (Inl _) = False"
| "is_ok (Inr _) = True"

definition bind_r :: "('e, 'a) result \<Rightarrow> ('a \<Rightarrow> ('e, 'b) result) \<Rightarrow> ('e, 'b) result" where
  "bind_r r f = (case r of Inl e \<Rightarrow> Inl e | Inr a \<Rightarrow> f a)"

lemma bind_r_simps [simp]:
  "bind_r (Inl e) f = Inl e"
  "bind_r (Inr a) f = f a"
  by (simp_all add: bind_r_def)

lemma bind_r_eq_Inr:
  "bind_r r f = Inr b \<longleftrightarrow> (\<exists>a. r = Inr a \<and> f a = Inr b)"
  by (cases r) auto

section \<open>Integers of the machine\<close>

text \<open>\<open>usize\<close> positions and lengths are naturals below \<^term>\<open>usize_bound\<close>
  (a 64-bit target); the checked operations make the bound explicit.\<close>

definition usize_bound :: nat where
  "usize_bound = 2 ^ 64"

definition checked_add :: "nat \<Rightarrow> nat \<Rightarrow> nat option" where
  "checked_add a b = (if a + b < usize_bound then Some (a + b) else None)"

definition sat_add64 :: "u64 \<Rightarrow> u64 \<Rightarrow> u64" where
  "sat_add64 a b = (if unat a + unat b < 2 ^ 64 then a + b else - 1)"

definition sat_sub64 :: "u64 \<Rightarrow> u64 \<Rightarrow> u64" where
  "sat_sub64 a b = (if b \<le> a then a - b else 0)"

lemma unat_sat_add64: "unat (sat_add64 a b) = min (unat a + unat b) (2 ^ 64 - 1)"
proof (cases "unat a + unat b < 2 ^ 64")
  case True
  then have "unat (a + b) = unat a + unat b"
    by (simp add: unat_word_ariths)
  with True show ?thesis by (simp add: sat_add64_def)
next
  case False
  then have "sat_add64 a b = - 1" by (simp add: sat_add64_def)
  moreover have "unat (- 1 :: u64) = 2 ^ 64 - 1" by (simp add: unsigned_minus_1_eq_mask mask_eq_exp_minus_1)
  ultimately show ?thesis using False by simp
qed

lemma unat_sat_sub64: "unat (sat_sub64 a b) = unat a - unat b"
  by (simp add: sat_sub64_def unat_sub word_le_nat_alt)

section \<open>Byte images of integers\<close>

primrec le_bytes :: "nat \<Rightarrow> nat \<Rightarrow> bytes" where
  "le_bytes 0 x = []"
| "le_bytes (Suc n) x = word_of_nat (x mod 256) # le_bytes n (x div 256)"

primrec le_val :: "bytes \<Rightarrow> nat" where
  "le_val [] = 0"
| "le_val (b # bs) = unat b + 256 * le_val bs"

lemma length_le_bytes [simp]: "length (le_bytes n x) = n"
  by (induction n arbitrary: x) simp_all

lemma le_bytes_numeral:
  "le_bytes (numeral k) x = word_of_nat (x mod 256) # le_bytes (pred_numeral k) (x div 256)"
  by (simp only: numeral_eq_Suc [of k] le_bytes.simps)

lemma unat_byte_of_mod [simp]: "unat (word_of_nat (x mod 256) :: byte) = x mod 256"
  by (simp add: unat_of_nat)

lemma unat_byte_less: "unat (b :: byte) < 256"
  using unsigned_less [of b] by simp

lemma le_val_bytes: "le_val (le_bytes n x) = x mod 256 ^ n"
proof (induction n arbitrary: x)
  case (Suc n)
  show ?case by (simp add: Suc mod_mult2_eq)
qed simp

lemma le_val_less: "le_val bs < 256 ^ length bs"
proof (induction bs)
  case (Cons b bs)
  note unat_byte_less [of b]
  with Cons show ?case by simp
qed simp

lemma le_bytes_val: "length bs = n \<Longrightarrow> le_bytes n (le_val bs) = bs"
proof (induction bs arbitrary: n)
  case (Cons b bs)
  note unat_byte_less [of b]
  then have "(unat b + 256 * le_val bs) mod 256 = unat b"
    and "(unat b + 256 * le_val bs) div 256 = le_val bs" by simp_all
  with Cons show ?case by auto
qed simp

definition to_le_bytes :: "'a::len word \<Rightarrow> bytes" where
  "to_le_bytes w = le_bytes (LENGTH('a) div 8) (unat w)"

definition from_le_bytes :: "bytes \<Rightarrow> 'a::len word" where
  "from_le_bytes bs = word_of_nat (le_val bs)"

definition to_be_bytes :: "'a::len word \<Rightarrow> bytes" where
  "to_be_bytes w = rev (to_le_bytes w)"

definition from_be_bytes :: "bytes \<Rightarrow> 'a::len word" where
  "from_be_bytes bs = from_le_bytes (rev bs)"

lemmas le_bytes_eval = to_le_bytes_def le_bytes_numeral

lemma length_to_le_bytes [simp]:
  "length (to_le_bytes (w :: 'a::len word)) = LENGTH('a) div 8"
  by (simp add: to_le_bytes_def)

lemma length_to_be_bytes [simp]:
  "length (to_be_bytes (w :: 'a::len word)) = LENGTH('a) div 8"
  by (simp add: to_be_bytes_def)

lemma from_to_le_bytes:
  fixes w :: "'a::len word"
  assumes "8 dvd LENGTH('a)"
  shows "from_le_bytes (to_le_bytes w) = w"
proof -
  have "(256 :: nat) ^ (LENGTH('a) div 8) = 2 ^ (8 * (LENGTH('a) div 8))"
    by (simp add: power_mult)
  also have "\<dots> = 2 ^ LENGTH('a)" using assms by simp
  finally have "unat w mod 256 ^ (LENGTH('a) div 8) = unat w" by simp
  then show ?thesis by (simp add: from_le_bytes_def to_le_bytes_def le_val_bytes)
qed

lemma to_from_le_bytes:
  assumes "8 * length bs = LENGTH('a::len)"
  shows "to_le_bytes (from_le_bytes bs :: 'a word) = bs"
proof -
  have "(256 :: nat) ^ length bs = 2 ^ (8 * length bs)" by (simp add: power_mult)
  with le_val_less [of bs] have "le_val bs < 2 ^ LENGTH('a)" by (simp add: assms)
  moreover have "LENGTH('a) div 8 = length bs" using assms [symmetric] by simp
  ultimately show ?thesis
    by (simp add: to_le_bytes_def from_le_bytes_def unat_of_nat le_bytes_val)
qed

lemma to_le_bytes_inj:
  fixes v w :: "'a::len word"
  assumes "8 dvd LENGTH('a)"
  shows "to_le_bytes v = to_le_bytes w \<longleftrightarrow> v = w"
  using from_to_le_bytes [OF assms] by metis

lemma from_to_be_bytes:
  fixes w :: "'a::len word"
  assumes "8 dvd LENGTH('a)"
  shows "from_be_bytes (to_be_bytes w) = w"
  using assms by (simp add: from_be_bytes_def to_be_bytes_def from_to_le_bytes)

lemma to_from_be_bytes:
  assumes "8 * length bs = LENGTH('a::len)"
  shows "to_be_bytes (from_be_bytes bs :: 'a word) = bs"
  using to_from_le_bytes [of "rev bs", where 'a='a] assms
  by (simp add: from_be_bytes_def to_be_bytes_def)

lemmas le_round_trip [simp] =
  from_to_le_bytes [where 'a=16, simplified]
  from_to_le_bytes [where 'a=32, simplified]
  from_to_le_bytes [where 'a=64, simplified]
  from_to_le_bytes [where 'a=128, simplified]
  from_to_be_bytes [where 'a=16, simplified]
  from_to_be_bytes [where 'a=32, simplified]
  from_to_be_bytes [where 'a=64, simplified]
  from_to_be_bytes [where 'a=128, simplified]

section \<open>Slices\<close>

lemma take_drop_take: "c + n \<le> e \<Longrightarrow> take n (drop c (take e xs)) = take n (drop c xs)"
  by (simp add: drop_take min_def)

lemma sum_length_update:
  "i < length ss \<Longrightarrow> sum_list (map length (ss[i := s])) + length (ss ! i) = sum_list (map length ss) + length s"
proof (induction ss arbitrary: i)
  case (Cons a ss)
  then show ?case by (cases i) auto
qed simp

section \<open>Byte order\<close>

text \<open>The bytewise order of \<open>[u8]\<close> is the lexicographic order of
  \<^typ>\<open>bytes\<close>; a proper extension of a key is larger than the key.\<close>

lemma bytes_prefix_le: "(xs :: bytes) \<le> xs @ ys"
  by (induction xs) simp_all

lemma bytes_prefix_less: "ys \<noteq> [] \<Longrightarrow> (xs :: bytes) < xs @ ys"
  by (induction xs) (auto simp: neq_Nil_conv)

end
