(* ===== verification/Codec.thy ===== *)
theory Codec
  imports Prelude
begin

text \<open>
  The bounds-checked cursor of \<open>codec_kernel.rs\<close>.  A cursor operation maps a
  cursor to a result and the cursor it leaves behind, so that what a failing
  operation does to the position is part of the model.  The invariant
  \<^emph>\<open>position within the buffer\<close>, the behaviour of every read on both branches
  and the round trips of the length-prefixed readers are shown here.
\<close>

section \<open>Cursor operations\<close>

datatype decode_error =
    UnexpectedEof nat nat
  | IntegerOverflow
  | TrailingGarbage nat
  | LengthExceedsCapacity nat nat
  | InvalidTag byte
  | Corrupt string

record safe_cursor =
  buf :: bytes
  pos :: nat

type_synonym 'a cursor_op = "safe_cursor \<Rightarrow> (decode_error, 'a) result \<times> safe_cursor"

definition new_cursor :: "bytes \<Rightarrow> safe_cursor" where
  "new_cursor b = \<lparr>buf = b, pos = 0\<rparr>"

definition set_position :: "nat \<Rightarrow> unit cursor_op" where
  "set_position p c =
     (if p \<le> length (buf c) then (Inr (), c\<lparr>pos := p\<rparr>)
      else (Inl (UnexpectedEof p (length (buf c))), c))"

definition remaining :: "safe_cursor \<Rightarrow> nat" where
  "remaining c = length (buf c) - pos c"

definition is_empty_cursor :: "safe_cursor \<Rightarrow> bool" where
  "is_empty_cursor c = (length (buf c) \<le> pos c)"

definition remaining_slice :: "safe_cursor \<Rightarrow> bytes" where
  "remaining_slice c = (if length (buf c) \<le> pos c then [] else drop (pos c) (buf c))"

definition read_exact :: "nat \<Rightarrow> bytes cursor_op" where
  "read_exact len c =
     (case checked_add (pos c) len of
        None \<Rightarrow> (Inl IntegerOverflow, c)
      | Some new_pos \<Rightarrow>
          if length (buf c) < new_pos then (Inl (UnexpectedEof len (remaining c)), c)
          else (Inr (take len (drop (pos c) (buf c))), c\<lparr>pos := new_pos\<rparr>))"

definition advance :: "nat \<Rightarrow> unit cursor_op" where
  "advance len c =
     (case checked_add (pos c) len of
        None \<Rightarrow> (Inl IntegerOverflow, c)
      | Some new_pos \<Rightarrow>
          if length (buf c) < new_pos then (Inl (UnexpectedEof len (remaining c)), c)
          else (Inr (), c\<lparr>pos := new_pos\<rparr>))"

text \<open>\<open>let b = self.read_exact(n)?; Ok(f(b))\<close>\<close>

definition read_with :: "nat \<Rightarrow> (bytes \<Rightarrow> 'a) \<Rightarrow> 'a cursor_op" where
  "read_with n f c = (case read_exact n c of
      (Inl e, c') \<Rightarrow> (Inl e, c')
    | (Inr b, c') \<Rightarrow> (Inr (f b), c'))"

definition read_u8 :: "byte cursor_op" where
  "read_u8 = read_with 1 (\<lambda>b. b ! 0)"

definition peek_u8 :: "safe_cursor \<Rightarrow> (decode_error, byte) result" where
  "peek_u8 c = (if pos c < length (buf c) then Inr (buf c ! pos c)
     else Inl (UnexpectedEof 1 0))"

definition read_bool :: "bool cursor_op" where
  "read_bool c = (case read_u8 c of
      (Inl e, c') \<Rightarrow> (Inl e, c')
    | (Inr b, c') \<Rightarrow> (Inr (b \<noteq> 0), c'))"

definition read_u16_le :: "u16 cursor_op" where
  "read_u16_le = read_with 2 from_le_bytes"

definition read_u32_le :: "u32 cursor_op" where
  "read_u32_le = read_with 4 from_le_bytes"

definition read_u64_le :: "u64 cursor_op" where
  "read_u64_le = read_with 8 from_le_bytes"

definition read_u128_le :: "128 word cursor_op" where
  "read_u128_le = read_with 16 from_le_bytes"

definition read_u16_be :: "u16 cursor_op" where
  "read_u16_be = read_with 2 from_be_bytes"

definition read_u32_be :: "u32 cursor_op" where
  "read_u32_be = read_with 4 from_be_bytes"

definition read_u64_be :: "u64 cursor_op" where
  "read_u64_be = read_with 8 from_be_bytes"

definition read_u128_be :: "128 word cursor_op" where
  "read_u128_be = read_with 16 from_be_bytes"

text \<open>The tail both length-prefixed readers share once the length is known.\<close>

definition read_bounded :: "nat \<Rightarrow> nat \<Rightarrow> bytes cursor_op" where
  "read_bounded max_len len c =
     (let rem = remaining c in
      if max_len < len \<or> rem < len
      then (Inl (LengthExceedsCapacity len (min max_len rem)), c)
      else read_exact len c)"

definition read_length_prefixed_bytes :: "nat \<Rightarrow> bytes cursor_op" where
  "read_length_prefixed_bytes max_len c =
     (case read_u32_le c of
        (Inl e, c') \<Rightarrow> (Inl e, c')
      | (Inr len, c') \<Rightarrow> read_bounded max_len (unat len) c')"

text \<open>On the 64-bit target \<open>usize::try_from\<close> of a \<open>u64\<close> never fails.\<close>

definition read_length_prefixed_bytes_u64 :: "nat \<Rightarrow> bytes cursor_op" where
  "read_length_prefixed_bytes_u64 max_len c =
     (case read_u64_le c of
        (Inl e, c') \<Rightarrow> (Inl e, c')
      | (Inr len, c') \<Rightarrow>
          if unat len < usize_bound then read_bounded max_len (unat len) c'
          else (Inl IntegerOverflow, c'))"

definition ensure_fully_consumed :: "safe_cursor \<Rightarrow> (decode_error, unit) result" where
  "ensure_fully_consumed c =
     (if \<not> is_empty_cursor c then Inl (TrailingGarbage (remaining c)) else Inr ())"

definition bounded_capacity :: "nat \<Rightarrow> nat \<Rightarrow> nat \<Rightarrow> nat \<Rightarrow> (decode_error, nat) result" where
  "bounded_capacity count min_elem_size rem hard_cap =
     (let min_size = max min_elem_size 1; max_possible = rem div min_size in
      if max_possible < count \<or> hard_cap < count
      then Inl (LengthExceedsCapacity count (min max_possible hard_cap))
      else Inr count)"

section \<open>The cursor invariant\<close>

text \<open>A slice never exceeds \<open>isize::MAX\<close> bytes, so no position inside it
  overflows \<open>usize\<close>.\<close>

definition wf_cursor :: "safe_cursor \<Rightarrow> bool" where
  "wf_cursor c \<longleftrightarrow> pos c \<le> length (buf c) \<and> length (buf c) < 2 ^ 63"

definition cursor_safe :: "'a cursor_op \<Rightarrow> bool" where
  "cursor_safe f \<longleftrightarrow> (\<forall>c. wf_cursor c \<longrightarrow>
     wf_cursor (snd (f c)) \<and> buf (snd (f c)) = buf c \<and> pos c \<le> pos (snd (f c)))"

lemma cursor_safe_read_exact: "cursor_safe (read_exact n)"
  by (auto simp: cursor_safe_def wf_cursor_def read_exact_def checked_add_def split: option.splits)

lemma cursor_safe_advance: "cursor_safe (advance n)"
  by (auto simp: cursor_safe_def wf_cursor_def advance_def checked_add_def split: option.splits)

lemma snd_read_with [simp]: "snd (read_with n f c) = snd (read_exact n c)"
  by (simp add: read_with_def split: prod.splits sum.splits)

lemma cursor_safe_read_with: "cursor_safe (read_with n f)"
  using cursor_safe_read_exact [of n] by (simp add: cursor_safe_def)

lemma cursor_safe_seq:
  assumes "cursor_safe f" "\<And>a. cursor_safe (g a)"
  shows "cursor_safe (\<lambda>c. case f c of (Inl e, c') \<Rightarrow> (Inl e, c') | (Inr a, c') \<Rightarrow> g a c')"
  using assms unfolding cursor_safe_def
  by (auto split: prod.splits sum.splits) (metis order.trans snd_conv)+

lemma cursor_safe_pure: "cursor_safe (\<lambda>c. (r, c))"
  by (simp add: cursor_safe_def)

lemma cursor_safe_read_bounded: "cursor_safe (read_bounded m n)"
  using cursor_safe_read_exact [of n]
  by (auto simp: cursor_safe_def read_bounded_def Let_def)

lemmas cursor_safe_intros =
  cursor_safe_read_exact cursor_safe_advance cursor_safe_read_with
  cursor_safe_read_bounded cursor_safe_seq cursor_safe_pure

lemma cursor_safe_length_prefixed: "cursor_safe (read_length_prefixed_bytes m)"
  unfolding read_length_prefixed_bytes_def read_u32_le_def
  by (intro cursor_safe_intros)

lemma cursor_safe_length_prefixed_u64: "cursor_safe (read_length_prefixed_bytes_u64 m)"
  unfolding read_length_prefixed_bytes_u64_def read_u64_le_def
  by (intro cursor_safe_seq cursor_safe_read_with)
    (use cursor_safe_read_bounded in \<open>auto simp: cursor_safe_def\<close>)

lemma cursor_safe_read_bool: "cursor_safe read_bool"
  unfolding read_bool_def read_u8_def by (intro cursor_safe_intros)

section \<open>Reading what an encoder wrote\<close>

lemma read_exact_ok:
  assumes "wf_cursor c" "remaining_slice c = xs @ ys" "length xs = n"
  shows "read_exact n c = (Inr xs, c\<lparr>pos := pos c + n\<rparr>)"
proof (cases "length (buf c) \<le> pos c")
  case True
  with assms show ?thesis
    by (auto simp: read_exact_def wf_cursor_def remaining_slice_def checked_add_def usize_bound_def)
next
  case False
  with assms(2) have d: "drop (pos c) (buf c) = xs @ ys" by (simp add: remaining_slice_def)
  then have "length (buf c) - pos c = length xs + length ys" by (metis length_append length_drop)
  with False assms(1,3) d show ?thesis
    by (auto simp: read_exact_def wf_cursor_def checked_add_def usize_bound_def)
qed

lemma remaining_slice_advance:
  assumes "remaining_slice c = xs @ ys"
  shows "remaining_slice (c\<lparr>pos := pos c + length xs\<rparr>) = ys"
proof -
  have "drop (pos c) (buf c) = xs @ ys"
    using assms by (auto simp: remaining_slice_def split: if_splits)
  then have "drop (pos c + length xs) (buf c) = ys"
    by (metis add.commute append_eq_conv_conj drop_drop)
  then show ?thesis by (auto simp: remaining_slice_def)
qed

lemma length_remaining_slice: "length (remaining_slice c) = remaining c"
  by (auto simp: remaining_slice_def remaining_def)

lemma wf_cursor_advance:
  assumes "wf_cursor c" "remaining_slice c = xs @ ys"
  shows "wf_cursor (c\<lparr>pos := pos c + length xs\<rparr>)"
  using assms length_remaining_slice [of c] by (auto simp: wf_cursor_def remaining_def)

lemma read_with_ok:
  assumes "wf_cursor c" "remaining_slice c = xs @ ys" "length xs = n"
  shows "read_with n f c = (Inr (f xs), c\<lparr>pos := pos c + n\<rparr>)"
  using read_exact_ok [OF assms] by (simp add: read_with_def)

lemma read_bounded_ok:
  assumes "wf_cursor c" "remaining_slice c = xs @ ys" "length xs \<le> m"
  shows "read_bounded m (length xs) c = (Inr xs, c\<lparr>pos := pos c + length xs\<rparr>)"
  using read_exact_ok [OF assms(1,2) refl] assms(2,3) length_remaining_slice [of c]
  by (simp add: read_bounded_def Let_def)

lemma read_exact_error:
  assumes "wf_cursor c" "remaining c < n" "n < 2 ^ 63"
  shows "read_exact n c = (Inl (UnexpectedEof n (remaining c)), c)"
  using assms
  by (auto simp: read_exact_def wf_cursor_def checked_add_def usize_bound_def remaining_def)

lemma read_bounded_after:
  assumes wf: "wf_cursor c" and c: "remaining_slice c = h @ d @ rest" and fits: "length d \<le> m"
  shows "\<exists>c'. read_bounded m (length d) (c\<lparr>pos := pos c + length h\<rparr>) = (Inr d, c') \<and>
           wf_cursor c' \<and> remaining_slice c' = rest"
proof -
  note wf1 = wf_cursor_advance [OF wf c] and r1 = remaining_slice_advance [OF c]
  from read_bounded_ok [OF wf1 r1 fits] wf_cursor_advance [OF wf1 r1]
    remaining_slice_advance [OF r1]
  show ?thesis by auto
qed

lemma read_length_prefixed_ok:
  assumes wf: "wf_cursor c" and fits: "length d \<le> m" and len: "length d < 2 ^ 32"
    and c: "remaining_slice c = to_le_bytes (word_of_nat (length d) :: u32) @ d @ rest"
  shows "\<exists>c'. read_length_prefixed_bytes m c = (Inr d, c') \<and> wf_cursor c' \<and>
           remaining_slice c' = rest"
proof -
  have "unat (word_of_nat (length d) :: u32) = length d"
    using len by (simp add: unat_of_nat)
  then show ?thesis
    using read_bounded_after [OF wf c fits]
      read_with_ok [OF wf c, of 4 "from_le_bytes :: bytes \<Rightarrow> u32"]
    by (simp add: read_length_prefixed_bytes_def read_u32_le_def)
qed

lemma read_length_prefixed_u64_ok:
  assumes wf: "wf_cursor c" and fits: "length d \<le> m"
    and c: "remaining_slice c = to_le_bytes (word_of_nat (length d) :: u64) @ d @ rest"
  shows "\<exists>c'. read_length_prefixed_bytes_u64 m c = (Inr d, c') \<and> wf_cursor c' \<and>
           remaining_slice c' = rest"
proof -
  have "length d < 2 ^ 64"
    using arg_cong [OF c, of length] wf
    by (auto simp: length_remaining_slice remaining_def wf_cursor_def)
  moreover from this have "unat (word_of_nat (length d) :: u64) = length d"
    by (simp add: unat_of_nat)
  ultimately show ?thesis
    using read_bounded_after [OF wf c fits]
      read_with_ok [OF wf c, of 8 "from_le_bytes :: bytes \<Rightarrow> u64"]
    by (simp add: read_length_prefixed_bytes_u64_def read_u64_le_def usize_bound_def)
qed

section \<open>Properties\<close>

text \<open>C22. Every read of the cursor keeps the position inside the buffer, leaves the
  buffer itself alone and never moves the position backwards, whether it
  succeeds or fails.\<close>

theorem cursor_operations_safe:
  "cursor_safe (read_exact n) \<and> cursor_safe (advance n) \<and>
   cursor_safe read_u8 \<and> cursor_safe read_bool \<and>
   cursor_safe read_u16_le \<and> cursor_safe read_u32_le \<and> cursor_safe read_u64_le \<and>
   cursor_safe read_u128_le \<and> cursor_safe read_u16_be \<and> cursor_safe read_u32_be \<and>
   cursor_safe read_u64_be \<and> cursor_safe read_u128_be \<and>
   cursor_safe (read_length_prefixed_bytes m) \<and>
   cursor_safe (read_length_prefixed_bytes_u64 m)"
  unfolding read_u8_def read_u16_le_def read_u32_le_def read_u64_le_def read_u128_le_def
    read_u16_be_def read_u32_be_def read_u64_be_def read_u128_be_def
  by (intro conjI cursor_safe_intros cursor_safe_length_prefixed
      cursor_safe_length_prefixed_u64 cursor_safe_read_bool)

text \<open>C23. A field written as a 32-bit little-endian length and the payload is read
  back exactly by \<open>read_length_prefixed_bytes\<close>, and the cursor stands right after the
  field, provided the payload respects the reader's limit; a payload over the
  limit is refused with the capacity error and never read.\<close>

theorem length_prefixed_round_trip:
  assumes "wf_cursor c" "length d < 2 ^ 32"
    and "remaining_slice c = to_le_bytes (word_of_nat (length d) :: u32) @ d @ rest"
  shows "(length d \<le> max_len \<longrightarrow>
           (\<exists>c'. read_length_prefixed_bytes max_len c = (Inr d, c') \<and> wf_cursor c' \<and>
                 remaining_slice c' = rest)) \<and>
         (max_len < length d \<longrightarrow>
           fst (read_length_prefixed_bytes max_len c) =
             Inl (LengthExceedsCapacity (length d) (min max_len (length d + length rest))))"
proof (intro conjI impI)
  assume "length d \<le> max_len"
  from read_length_prefixed_ok [OF assms(1) this assms(2,3)]
  show "\<exists>c'. read_length_prefixed_bytes max_len c = (Inr d, c') \<and> wf_cursor c' \<and>
    remaining_slice c' = rest" .
next
  assume "max_len < length d"
  moreover have "unat (word_of_nat (length d) :: u32) = length d"
    using assms(2) by (simp add: unat_of_nat)
  moreover have "remaining (c\<lparr>pos := pos c + 4\<rparr>) = length d + length rest"
    using remaining_slice_advance [OF assms(3)]
    by (simp flip: length_remaining_slice)
  ultimately show "fst (read_length_prefixed_bytes max_len c) =
      Inl (LengthExceedsCapacity (length d) (min max_len (length d + length rest)))"
    using read_with_ok [OF assms(1,3), of 4 "from_le_bytes :: bytes \<Rightarrow> u32"]
    by (simp add: read_length_prefixed_bytes_def read_u32_le_def read_bounded_def Let_def)
qed

theorem length_prefixed_round_trip_witness:
  "fst (read_length_prefixed_bytes 8 (new_cursor [3, 0, 0, 0, 7, 8, 9, 42])) = Inr [7, 8, 9]"
proof -
  have "remaining_slice (new_cursor [3, 0, 0, 0, 7, 8, 9, 42]) =
      to_le_bytes (word_of_nat (length [7, 8, 9 :: byte]) :: u32) @ [7, 8, 9] @ [42]"
    by code_simp
  moreover have "wf_cursor (new_cursor [3, 0, 0, 0, 7, 8, 9, 42])"
    by (simp add: wf_cursor_def new_cursor_def)
  ultimately show ?thesis
    using length_prefixed_round_trip
      [of "new_cursor [3, 0, 0, 0, 7, 8, 9, 42]" "[7, 8, 9]" "[42]" 8]
    by auto
qed

end
