(* ===== verification/Keys.thy ===== *)
theory Keys
  imports Prelude
begin

text \<open>
  Internal keys (\<open>key_kernel.rs\<close>): the user key, a 56-bit sequence number and
  a value type.  The theory models the packed trailer, the byte image of an
  internal key, the error branches of the decoders, and the order of
  \<open>impl Ord for InternalKey\<close>, which is shown to be a linear order and is
  installed as the order of the type.
\<close>

section \<open>Value types\<close>

datatype value_type = Deletion | Value | RangeDeletion

fun from_u8 :: "byte \<Rightarrow> value_type option" where
  "from_u8 b = (if b = 0 then Some Deletion
     else if b = 1 then Some Value
     else if b = 2 then Some RangeDeletion
     else None)"

fun as_u8 :: "value_type \<Rightarrow> byte" where
  "as_u8 Deletion = 0"
| "as_u8 Value = 1"
| "as_u8 RangeDeletion = 2"

lemma from_as_u8 [simp]: "from_u8 (as_u8 k) = Some k"
  by (cases k) simp_all

lemma from_u8_Some: "from_u8 b = Some k \<longleftrightarrow> b = as_u8 k"
  by (cases k) (auto split: if_splits)

declare from_u8.simps [simp del]

lemma as_u8_inj [simp]: "as_u8 j = as_u8 k \<longleftrightarrow> j = k"
  by (metis from_as_u8 option.inject)

instantiation value_type :: linorder
begin

definition less_eq_value_type :: "value_type \<Rightarrow> value_type \<Rightarrow> bool" where
  "less_eq_value_type j k = (as_u8 j \<le> as_u8 k)"

definition less_value_type :: "value_type \<Rightarrow> value_type \<Rightarrow> bool" where
  "less_value_type j k = (as_u8 j < as_u8 k)"

instance
  by standard
    (auto simp: less_eq_value_type_def less_value_type_def less_le_not_le dest: order.antisym)

end

section \<open>The packed trailer\<close>

definition MAX_SEQUENCE_NUMBER :: u64 where
  "MAX_SEQUENCE_NUMBER = push_bit 56 1 - 1"

definition MAX_ASSIGNABLE_SEQUENCE_NUMBER :: u64 where
  "MAX_ASSIGNABLE_SEQUENCE_NUMBER = MAX_SEQUENCE_NUMBER - 1"

datatype key_error = UnknownValueType byte | KeyTooShort nat

definition pack_sequence_and_type :: "u64 \<Rightarrow> value_type \<Rightarrow> u64" where
  "pack_sequence_and_type seq k = push_bit 8 seq OR ucast (as_u8 k)"

definition pack_sequence_and_type_as_is :: "u64 \<Rightarrow> value_type \<Rightarrow> u64" where
  "pack_sequence_and_type_as_is seq k = seq OR ucast (as_u8 k)"

definition unpack_sequence_and_type :: "u64 \<Rightarrow> (key_error, u64 \<times> value_type) result" where
  "unpack_sequence_and_type packed =
     (let type_byte = (ucast (packed AND 0xff) :: byte) in
      case from_u8 type_byte of
        None \<Rightarrow> Inl (UnknownValueType type_byte)
      | Some k \<Rightarrow> Inr (drop_bit 8 packed, k))"

lemma byte_bit_high: "8 \<le> n \<Longrightarrow> \<not> bit (b :: byte) n"
  using bit_imp_le_length [of b n] by auto

lemma low_byte_mask: "(255 :: u64) = mask 8"
  by (simp add: mask_eq_exp_minus_1)

lemma pack_low_byte: "ucast (pack_sequence_and_type seq k AND 255) = as_u8 k"
  unfolding low_byte_mask
  by (rule bit_word_eqI) (simp add: pack_sequence_and_type_def bit_simps)

lemma pack_high_bits: "drop_bit 8 (pack_sequence_and_type seq k) = seq AND mask 56"
  by (rule bit_word_eqI)
    (auto simp: pack_sequence_and_type_def bit_simps byte_bit_high)

lemma MAX_SEQUENCE_NUMBER_mask: "MAX_SEQUENCE_NUMBER = mask 56"
  by (simp add: MAX_SEQUENCE_NUMBER_def mask_eq_exp_minus_1)

lemma assignable_mask:
  assumes "seq \<le> MAX_SEQUENCE_NUMBER"
  shows "seq AND mask 56 = seq"
proof -
  have "unat seq < 2 ^ 56"
    using assms by (simp add: MAX_SEQUENCE_NUMBER_def word_le_nat_alt)
  then have "unat (take_bit 56 seq) = unat seq"
    by (simp add: unsigned_take_bit_eq take_bit_nat_eq_self)
  then show ?thesis by (simp add: take_bit_eq_mask unsigned_word_eqI)
qed

lemma unpack_pack:
  "unpack_sequence_and_type (pack_sequence_and_type seq k) = Inr (seq AND mask 56, k)"
  by (simp add: unpack_sequence_and_type_def pack_low_byte pack_high_bits)

lemma unpack_seq_bound:
  assumes "unpack_sequence_and_type p = Inr (seq, k)"
  shows "seq \<le> MAX_SEQUENCE_NUMBER"
proof -
  have "seq = drop_bit 8 p"
    using assms by (auto simp: unpack_sequence_and_type_def Let_def split: option.splits)
  then have "unat seq = unat p div 2 ^ 8"
    by (simp add: unat_div drop_bit_eq_div)
  moreover have "unat p < 2 ^ 64" using unsigned_less [of p] by simp
  ultimately show ?thesis by (simp add: MAX_SEQUENCE_NUMBER_def word_le_nat_alt)
qed

lemma pack_unpack:
  assumes "unpack_sequence_and_type p = Inr (seq, k)"
  shows "pack_sequence_and_type seq k = p"
proof -
  have seq: "seq = drop_bit 8 p" and k: "as_u8 k = ucast (p AND mask 8)"
    using assms
    by (auto simp: unpack_sequence_and_type_def Let_def from_u8_Some low_byte_mask
        split: option.splits)
  show ?thesis unfolding pack_sequence_and_type_def seq k
  proof (rule bit_word_eqI)
    fix n assume "n < LENGTH(64)"
    then show "bit (push_bit 8 (drop_bit 8 p) OR ucast (ucast (p AND mask 8) :: byte)) n = bit p n"
      by (cases "n < 8") (auto simp: bit_simps)
  qed
qed

section \<open>Internal keys\<close>

datatype internal_key =
  InternalKey (user_key: bytes) (sequence: u64) (kind: value_type)

definition for_lookup :: "bytes \<Rightarrow> u64 \<Rightarrow> internal_key" where
  "for_lookup u snapshot = InternalKey u snapshot Value"

definition encode_into :: "internal_key \<Rightarrow> bytes \<Rightarrow> bytes" where
  "encode_into ik out =
     out @ user_key ik @ to_be_bytes (pack_sequence_and_type (sequence ik) (kind ik))"

definition encode :: "internal_key \<Rightarrow> bytes" where
  "encode ik = encode_into ik []"

definition decode :: "bytes \<Rightarrow> (key_error, internal_key) result" where
  "decode encoded =
     (if length encoded < 8 then Inl (KeyTooShort (length encoded))
      else let split = length encoded - 8;
               packed = from_be_bytes (drop split encoded) in
        bind_r (unpack_sequence_and_type packed)
          (\<lambda>(seq, k). Inr (InternalKey (take split encoded) seq k)))"

lemma length_encode: "length (encode ik) = length (user_key ik) + 8"
  by (simp add: encode_def encode_into_def)

lemma decode_encode_masked:
  "decode (encode ik) = Inr (InternalKey (user_key ik) (sequence ik AND mask 56) (kind ik))"
  by (simp add: decode_def encode_def encode_into_def unpack_pack)

lemma encode_decode_inv:
  assumes "decode bs = Inr ik"
  shows "encode ik = bs"
proof -
  define n where "n = length bs - 8"
  have len: "8 \<le> length bs"
    using assms by (auto simp: decode_def split: if_splits)
  then obtain seq k where
    un: "unpack_sequence_and_type (from_be_bytes (drop n bs)) = Inr (seq, k)"
    and ik: "ik = InternalKey (take n bs) seq k"
    using assms by (auto simp: decode_def Let_def n_def bind_r_eq_Inr)
  have "to_be_bytes (from_be_bytes (drop n bs) :: u64) = drop n bs"
    by (rule to_from_be_bytes) (use len in \<open>simp add: n_def\<close>)
  then show ?thesis
    by (simp add: ik encode_def encode_into_def pack_unpack [OF un])
qed

section \<open>The order of internal keys\<close>

datatype ordering = Less | Equal | Greater

definition cmp_ord :: "'a::linorder \<Rightarrow> 'a \<Rightarrow> ordering" where
  "cmp_ord a b = (if a < b then Less else if a = b then Equal else Greater)"

definition ikey_seq_cmp :: "u64 \<Rightarrow> u64 \<Rightarrow> ordering" where
  "ikey_seq_cmp a b = cmp_ord b a"

definition ikey_cmp :: "internal_key \<Rightarrow> internal_key \<Rightarrow> ordering" where
  "ikey_cmp a b =
     (case cmp_ord (user_key a) (user_key b) of
        Equal \<Rightarrow> (case ikey_seq_cmp (sequence a) (sequence b) of
            Equal \<Rightarrow> cmp_ord (kind b) (kind a)
          | ord \<Rightarrow> ord)
      | ord \<Rightarrow> ord)"

lemma ikey_cmp_Less:
  "ikey_cmp a b = Less \<longleftrightarrow>
     user_key a < user_key b \<or>
     user_key a = user_key b \<and> sequence b < sequence a \<or>
     user_key a = user_key b \<and> sequence a = sequence b \<and> kind b < kind a"
  by (auto simp: ikey_cmp_def ikey_seq_cmp_def cmp_ord_def)

lemma ikey_cmp_Equal: "ikey_cmp a b = Equal \<longleftrightarrow> a = b"
  by (auto simp: ikey_cmp_def ikey_seq_cmp_def cmp_ord_def internal_key.expand)

lemma ikey_cmp_Greater: "ikey_cmp a b = Greater \<longleftrightarrow> ikey_cmp b a = Less"
  by (auto simp: ikey_cmp_def ikey_seq_cmp_def cmp_ord_def)

instantiation internal_key :: linorder
begin

definition less_eq_internal_key :: "internal_key \<Rightarrow> internal_key \<Rightarrow> bool" where
  "less_eq_internal_key a b = (ikey_cmp a b \<noteq> Greater)"

definition less_internal_key :: "internal_key \<Rightarrow> internal_key \<Rightarrow> bool" where
  "less_internal_key a b = (ikey_cmp a b = Less)"

instance
proof
  fix x y z :: internal_key
  show "x < y \<longleftrightarrow> x \<le> y \<and> \<not> y \<le> x"
    by (auto simp: less_internal_key_def less_eq_internal_key_def ikey_cmp_Greater ikey_cmp_Less)
  show "x \<le> x"
    by (auto simp: less_eq_internal_key_def ikey_cmp_Greater ikey_cmp_Less)
  show "x \<le> y \<Longrightarrow> y \<le> z \<Longrightarrow> x \<le> z"
    by (auto simp: less_eq_internal_key_def ikey_cmp_Greater ikey_cmp_Less)
  show "x \<le> y \<Longrightarrow> y \<le> x \<Longrightarrow> x = y"
    using ikey_cmp_Equal by (metis ikey_cmp_Greater less_eq_internal_key_def ordering.exhaust)
  show "x \<le> y \<or> y \<le> x"
    by (auto simp: less_eq_internal_key_def ikey_cmp_Greater ikey_cmp_Less)
qed

end

lemma ikey_less_iff:
  "(a :: internal_key) < b \<longleftrightarrow>
     user_key a < user_key b \<or>
     user_key a = user_key b \<and> sequence b < sequence a \<or>
     user_key a = user_key b \<and> sequence a = sequence b \<and> kind b < kind a"
  by (simp add: less_internal_key_def ikey_cmp_Less)

lemma ikey_le_user_key: "(a :: internal_key) \<le> b \<Longrightarrow> user_key a \<le> user_key b"
  by (auto simp: order.order_iff_strict ikey_less_iff)

lemma ikey_le_same_user:
  "\<lbrakk>(a :: internal_key) \<le> b; user_key a = user_key b\<rbrakk> \<Longrightarrow> sequence b \<le> sequence a"
  by (auto simp: order.order_iff_strict ikey_less_iff)

section \<open>Properties\<close>

text \<open>C20. The byte image of an internal key is exact: a byte string decodes to a key if
  and only if it is the encoding of that key and the key's sequence number fits the
  56-bit field.  In particular keys in range round-trip and no two byte strings
  decode to the same key.\<close>

theorem internal_key_codec_exact:
  "decode bs = Inr ik \<longleftrightarrow> bs = encode ik \<and> sequence ik \<le> MAX_SEQUENCE_NUMBER"
proof
  assume d: "decode bs = Inr ik"
  then have "bs = encode ik" by (simp add: encode_decode_inv)
  moreover from d have "sequence ik \<le> MAX_SEQUENCE_NUMBER"
    by (auto simp: decode_def Let_def bind_r_eq_Inr dest: unpack_seq_bound split: if_splits)
  ultimately show "bs = encode ik \<and> sequence ik \<le> MAX_SEQUENCE_NUMBER" ..
next
  assume "bs = encode ik \<and> sequence ik \<le> MAX_SEQUENCE_NUMBER"
  then show "decode bs = Inr ik" by (simp add: decode_encode_masked assignable_mask)
qed

text \<open>C21. The probe key of a point lookup stands exactly before the versions the lookup
  may see: in the order of internal keys it precedes a point version of the same
  user key if and only if that version is not newer than the snapshot.  A range
  tombstone at the snapshot's own sequence number stands before the probe.\<close>

theorem lookup_probe_position:
  "for_lookup u s \<le> ik \<longleftrightarrow>
     u < user_key ik \<or>
     u = user_key ik \<and> (sequence ik < s \<or> sequence ik = s \<and> kind ik \<noteq> RangeDeletion)"
proof -
  have "kind ik \<le> Value \<longleftrightarrow> kind ik \<noteq> RangeDeletion"
    by (cases "kind ik") (simp_all add: less_eq_value_type_def word_le_nat_alt)
  then show ?thesis
    unfolding order.order_iff_strict [of "for_lookup u s"] ikey_less_iff
    by (auto simp: for_lookup_def order.order_iff_strict internal_key.expand)
qed

end
