(* ===== verification/Batch.thy ===== *)
theory Batch
  imports Keys
begin

text \<open>
  Logical write records (\<open>batch_kernel.rs\<close>), the payload of one WAL record.  Values
  are shared byte strings: a pointer identity and the bytes behind it, because
  version 2 of the format omits a value that is the same allocation as the
  value of the previous operation.  The encoder works on a buffer of the
  precomputed size and is modelled with the slice copies that would panic out
  of bounds; it is shown to fill the buffer exactly and to produce the
  reference image \<open>record_image\<close>, which the decoder reads back.
\<close>

section \<open>Operations and records\<close>

datatype shared_bytes = SharedBytes (bytes_ptr: nat) (bytes_of: bytes)

record write_op =
  op_kind :: value_type
  op_sequence :: u64
  op_key :: bytes
  op_value :: shared_bytes

definition WRITE_RECORD_VERSION :: byte where
  "WRITE_RECORD_VERSION = 1"

definition WRITE_RECORD_VERSION_V2 :: byte where
  "WRITE_RECORD_VERSION_V2 = 2"

definition KIND_REUSE_PREV :: byte where
  "KIND_REUSE_PREV = 0x80"

definition op_put :: "u64 \<Rightarrow> bytes \<Rightarrow> shared_bytes \<Rightarrow> write_op" where
  "op_put seq k v = \<lparr>op_kind = Value, op_sequence = seq, op_key = k, op_value = v\<rparr>"

definition op_delete :: "u64 \<Rightarrow> bytes \<Rightarrow> write_op" where
  "op_delete seq k =
     \<lparr>op_kind = Deletion, op_sequence = seq, op_key = k, op_value = SharedBytes 0 []\<rparr>"

definition op_delete_range :: "u64 \<Rightarrow> bytes \<Rightarrow> shared_bytes \<Rightarrow> write_op" where
  "op_delete_range seq s e =
     \<lparr>op_kind = RangeDeletion, op_sequence = seq, op_key = s, op_value = e\<rparr>"

definition batch_is_empty :: "nat \<Rightarrow> bool" where
  "batch_is_empty op_count = (op_count = 0)"

definition max_sequence :: "write_op list \<Rightarrow> u64 option" where
  "max_sequence ops = (case ops of [] \<Rightarrow> None
     | o1 # rest \<Rightarrow> Some (foldl max (op_sequence o1) (map op_sequence rest)))"

section \<open>Encoding\<close>

definition value_ptr_eq :: "write_op \<Rightarrow> write_op \<Rightarrow> bool" where
  "value_ptr_eq a b \<longleftrightarrow>
     \<not> batch_is_empty (length (bytes_of (op_value a))) \<and>
     length (bytes_of (op_value a)) = length (bytes_of (op_value b)) \<and>
     bytes_ptr (op_value a) = bytes_ptr (op_value b)"

text \<open>One pass over the operations; each looks at its (already updated) predecessor.\<close>

fun share_after :: "write_op \<Rightarrow> write_op list \<Rightarrow> write_op list" where
  "share_after prev [] = []"
| "share_after prev (cur # rest) =
     (if op_kind cur \<noteq> Value \<or> op_kind prev \<noteq> Value \<or>
         batch_is_empty (length (bytes_of (op_value cur))) \<or>
         bytes_ptr (op_value prev) = bytes_ptr (op_value cur) \<or>
         bytes_of (op_value prev) \<noteq> bytes_of (op_value cur)
      then cur # share_after cur rest
      else let cur' = cur\<lparr>op_value := op_value prev\<rparr> in cur' # share_after cur' rest)"

fun share_consecutive_equal_values :: "write_op list \<Rightarrow> write_op list" where
  "share_consecutive_equal_values [] = []"
| "share_consecutive_equal_values (o1 # rest) = o1 # share_after o1 rest"

fun record_uses_v2 :: "write_op list \<Rightarrow> bool" where
  "record_uses_v2 (a # b # rest) = (value_ptr_eq a b \<or> record_uses_v2 (b # rest))"
| "record_uses_v2 _ = False"

definition op_encoded_len :: "write_op \<Rightarrow> nat" where
  "op_encoded_len x = 1 + 8 + 4 + length (op_key x) + 4 + length (bytes_of (op_value x))"

definition reuses :: "bool \<Rightarrow> write_op option \<Rightarrow> write_op \<Rightarrow> bool" where
  "reuses v2 prev x = (v2 \<and> (case prev of None \<Rightarrow> False | Some p \<Rightarrow> value_ptr_eq p x))"

fun encoded_len_from :: "bool \<Rightarrow> write_op option \<Rightarrow> write_op list \<Rightarrow> nat" where
  "encoded_len_from v2 prev [] = 0"
| "encoded_len_from v2 prev (x # rest) =
     (if reuses v2 prev x then 1 + 8 + 4 + length (op_key x) else op_encoded_len x) +
     encoded_len_from v2 (Some x) rest"

definition encoded_len :: "write_op list \<Rightarrow> nat" where
  "encoded_len ops = 1 + 4 + encoded_len_from (record_uses_v2 ops) None ops"

definition estimate_size :: "write_op list \<Rightarrow> nat" where
  "estimate_size ops = 1 + 4 + sum_list (map op_encoded_len ops)"

text \<open>\<open>buf[i..i + n].copy_from_slice(src)\<close>; \<^const>\<open>None\<close> is the panic of a range
  outside the buffer.\<close>

definition copy_at :: "bytes \<Rightarrow> bytes \<times> nat \<Rightarrow> (bytes \<times> nat) option" where
  "copy_at src = (\<lambda>(b, i). if i + length src \<le> length b
     then Some (take i b @ src @ drop (i + length src) b, i + length src) else None)"

definition u32_try_from :: "nat \<Rightarrow> u32" where
  "u32_try_from n = (if n < 2 ^ 32 then word_of_nat n else - 1)"

definition encode_op :: "bool \<Rightarrow> write_op \<Rightarrow> bytes \<times> nat \<Rightarrow> (bytes \<times> nat) option" where
  "encode_op reuse x st =
     Option.bind (copy_at [as_u8 (op_kind x) OR (if reuse then KIND_REUSE_PREV else 0)] st) (\<lambda>st.
     Option.bind (copy_at (to_le_bytes (op_sequence x)) st) (\<lambda>st.
     Option.bind (copy_at (to_le_bytes (u32_try_from (length (op_key x)))) st) (\<lambda>st.
     Option.bind (copy_at (op_key x) st) (\<lambda>st.
       if reuse then Some st
       else Option.bind
         (copy_at (to_le_bytes (u32_try_from (length (bytes_of (op_value x))))) st)
         (copy_at (bytes_of (op_value x)))))))"

fun encode_loop ::
  "bool \<Rightarrow> write_op option \<Rightarrow> write_op list \<Rightarrow> bytes \<times> nat \<Rightarrow> (bytes \<times> nat) option" where
  "encode_loop v2 prev [] st = Some st"
| "encode_loop v2 prev (x # rest) st =
     Option.bind (encode_op (reuses v2 prev x) x st) (encode_loop v2 (Some x) rest)"

definition encode_ops :: "write_op list \<Rightarrow> bytes \<Rightarrow> bytes option" where
  "encode_ops ops out =
     (let n = encoded_len ops; v2 = record_uses_v2 ops; buf = replicate n 0 in
      Option.bind
        (copy_at [if v2 then WRITE_RECORD_VERSION_V2 else WRITE_RECORD_VERSION] (buf, 0)) (\<lambda>st.
      Option.bind (copy_at (to_le_bytes (u32_try_from (length ops))) st) (\<lambda>st.
      Option.bind (encode_loop v2 None ops st) (\<lambda>(buf, _). Some (out @ buf)))))"

definition encode_record :: "write_op list \<Rightarrow> bytes option" where
  "encode_record ops = encode_ops ops []"

section \<open>Decoding\<close>

datatype batch_error =
    LengthOverflow
  | RecordTruncated nat nat
  | UnsupportedVersion byte
  | OpCountExceeds u32 nat
  | UnknownOpKind byte
  | ReuseWithoutPrevious
  | TrailingBytes
  | CountMismatch nat u32

record batch_cursor =
  cur_data :: bytes
  cur_pos :: nat

type_synonym 'a batch_read = "batch_cursor \<Rightarrow> (batch_error, 'a \<times> batch_cursor) result"

definition read_slice :: "nat \<Rightarrow> bytes batch_read" where
  "read_slice len c =
     (case checked_add (cur_pos c) len of
        None \<Rightarrow> Inl LengthOverflow
      | Some e \<Rightarrow>
          if length (cur_data c) < e then Inl (RecordTruncated len (cur_pos c))
          else Inr (take len (drop (cur_pos c) (cur_data c)), c\<lparr>cur_pos := e\<rparr>))"

definition cur_read_u8 :: "byte batch_read" where
  "cur_read_u8 c = bind_r (read_slice 1 c) (\<lambda>(s, c). Inr (s ! 0, c))"

definition cur_read_u32 :: "u32 batch_read" where
  "cur_read_u32 c = bind_r (read_slice 4 c) (\<lambda>(s, c). Inr (from_le_bytes s, c))"

definition cur_read_u64 :: "u64 batch_read" where
  "cur_read_u64 c = bind_r (read_slice 8 c) (\<lambda>(s, c). Inr (from_le_bytes s, c))"

text \<open>A copied value is a fresh allocation, identified by the index of its
  operation; a reused value is a clone of the previous one.\<close>

definition decode_op :: "byte \<Rightarrow> write_op list \<Rightarrow> write_op batch_read" where
  "decode_op version ops c =
     bind_r (cur_read_u8 c) (\<lambda>(kind_byte, c).
     let reuse = (version = WRITE_RECORD_VERSION_V2 \<and> kind_byte AND KIND_REUSE_PREV \<noteq> 0) in
     case from_u8 (kind_byte AND 0x7f) of
       None \<Rightarrow> Inl (UnknownOpKind kind_byte)
     | Some k \<Rightarrow>
     bind_r (cur_read_u64 c) (\<lambda>(seq, c).
     bind_r (cur_read_u32 c) (\<lambda>(key_len, c).
     bind_r (read_slice (unat key_len) c) (\<lambda>(key, c).
     bind_r (if reuse then
               (if ops = [] then Inl ReuseWithoutPrevious else Inr (op_value (last ops), c))
             else bind_r (cur_read_u32 c) (\<lambda>(val_len, c).
                  bind_r (read_slice (unat val_len) c) (\<lambda>(v, c).
                    Inr (SharedBytes (length ops) v, c)))) (\<lambda>(v, c).
     Inr (\<lparr>op_kind = k, op_sequence = seq, op_key = key, op_value = v\<rparr>, c))))))"

fun decode_loop :: "nat \<Rightarrow> byte \<Rightarrow> write_op list \<Rightarrow> write_op list batch_read" where
  "decode_loop 0 version ops c = Inr (ops, c)"
| "decode_loop (Suc n) version ops c =
     bind_r (decode_op version ops c) (\<lambda>(x, c). decode_loop n version (ops @ [x]) c)"

definition write_record_count_ok :: "u32 \<Rightarrow> nat \<Rightarrow> bool" where
  "write_record_count_ok count decoded_len = (decoded_len = unat count)"

definition decode_record :: "bytes \<Rightarrow> (batch_error, write_op list) result" where
  "decode_record bs =
     bind_r (cur_read_u8 \<lparr>cur_data = bs, cur_pos = 0\<rparr>) (\<lambda>(version, c).
     if version \<noteq> WRITE_RECORD_VERSION \<and> version \<noteq> WRITE_RECORD_VERSION_V2
     then Inl (UnsupportedVersion version)
     else bind_r (cur_read_u32 c) (\<lambda>(count_raw, c).
       let min_op = (if version = WRITE_RECORD_VERSION_V2 then 1 + 8 + 4 else 1 + 8 + 4 + 4);
           rem = length bs - cur_pos c;
           max_ops = rem div min_op in
       if max_ops < unat count_raw then Inl (OpCountExceeds count_raw rem)
       else bind_r (decode_loop (unat count_raw) version [] c) (\<lambda>(ops, c).
         if \<not> batch_is_empty (length (cur_data c) - cur_pos c) then Inl TrailingBytes
         else if \<not> write_record_count_ok count_raw (length ops)
         then Inl (CountMismatch (length ops) count_raw)
         else Inr ops)))"

section \<open>The reference image of a record\<close>

definition op_image :: "bool \<Rightarrow> write_op \<Rightarrow> bytes" where
  "op_image reuse x =
     (as_u8 (op_kind x) OR (if reuse then KIND_REUSE_PREV else 0)) #
     to_le_bytes (op_sequence x) @
     to_le_bytes (u32_try_from (length (op_key x))) @ op_key x @
     (if reuse then []
      else to_le_bytes (u32_try_from (length (bytes_of (op_value x)))) @ bytes_of (op_value x))"

fun ops_image :: "bool \<Rightarrow> write_op option \<Rightarrow> write_op list \<Rightarrow> bytes" where
  "ops_image v2 prev [] = []"
| "ops_image v2 prev (x # rest) = op_image (reuses v2 prev x) x @ ops_image v2 (Some x) rest"

definition record_image :: "write_op list \<Rightarrow> bytes" where
  "record_image ops =
     (if record_uses_v2 ops then WRITE_RECORD_VERSION_V2 else WRITE_RECORD_VERSION) #
     to_le_bytes (u32_try_from (length ops)) @ ops_image (record_uses_v2 ops) None ops"

lemma length_ops_image: "length (ops_image v2 prev ops) = encoded_len_from v2 prev ops"
  by (induction v2 prev ops rule: encoded_len_from.induct)
    (auto simp: op_image_def op_encoded_len_def)

lemma length_record_image: "length (record_image ops) = encoded_len ops"
  by (simp add: record_image_def encoded_len_def length_ops_image)

text \<open>The buffer of the encoder after the bytes \<open>pre\<close> have been written.\<close>

definition filled :: "bytes \<Rightarrow> nat \<Rightarrow> bytes \<times> nat" where
  "filled pre m = (pre @ replicate m 0, length pre)"

lemma copy_at_filled [simp]:
  "length src \<le> m \<Longrightarrow> copy_at src (filled pre m) = Some (filled (pre @ src) (m - length src))"
  by (simp add: copy_at_def filled_def)

lemma encode_op_filled:
  assumes "length (op_image r x) \<le> m"
  shows "encode_op r x (filled pre m) =
    Some (filled (pre @ op_image r x) (m - length (op_image r x)))"
  using assms by (auto simp: encode_op_def op_image_def add.assoc)

lemma encode_loop_filled:
  assumes "length (ops_image v2 prev ops) \<le> m"
  shows "encode_loop v2 prev ops (filled pre m) =
    Some (filled (pre @ ops_image v2 prev ops) (m - length (ops_image v2 prev ops)))"
  using assms
proof (induction v2 prev ops arbitrary: pre m rule: ops_image.induct)
  case (2 v2 prev x rest)
  from "2.prems" have "length (op_image (reuses v2 prev x) x) \<le> m" by simp
  from encode_op_filled [OF this] 2 show ?case by simp
qed simp

lemma encode_ops_image: "encode_ops ops out = Some (out @ record_image ops)"
proof -
  have start: "(replicate n 0, 0) = filled [] n" for n by (simp add: filled_def)
  have "encoded_len ops = 5 + length (ops_image (record_uses_v2 ops) None ops)"
    by (simp add: encoded_len_def length_ops_image)
  then show ?thesis
    unfolding encode_ops_def Let_def start
    by (simp add: encode_loop_filled record_image_def) (simp add: filled_def)
qed

section \<open>Decoding an image\<close>

definition unread :: "batch_cursor \<Rightarrow> bytes" where
  "unread c = drop (cur_pos c) (cur_data c)"

definition wf_batch_cursor :: "batch_cursor \<Rightarrow> bool" where
  "wf_batch_cursor c \<longleftrightarrow> cur_pos c \<le> length (cur_data c) \<and> length (cur_data c) < 2 ^ 63"

definition skip :: "batch_cursor \<Rightarrow> nat \<Rightarrow> batch_cursor" where
  "skip c n = c\<lparr>cur_pos := cur_pos c + n\<rparr>"

lemma skip_skip [simp]: "skip (skip c m) n = skip c (m + n)"
  by (simp add: skip_def add.assoc)

lemma cur_data_skip [simp]: "cur_data (skip c n) = cur_data c"
  by (simp add: skip_def)

lemma skip_0 [simp]: "skip c 0 = c"
  by (simp add: skip_def)

lemma unread_skip [simp]: "unread (skip c n) = drop n (unread c)"
  by (simp add: unread_def skip_def add.commute)

lemma wf_skip:
  "\<lbrakk>wf_batch_cursor c; n \<le> length (unread c)\<rbrakk> \<Longrightarrow> wf_batch_cursor (skip c n)"
  by (auto simp: wf_batch_cursor_def skip_def unread_def)

lemma read_slice_ok:
  assumes "wf_batch_cursor c" "n \<le> length (unread c)"
  shows "read_slice n c = Inr (take n (unread c), skip c n)"
  using assms
  by (auto simp: read_slice_def wf_batch_cursor_def unread_def skip_def checked_add_def
      usize_bound_def)

lemma read_slice_short:
  assumes "wf_batch_cursor c" "length (unread c) < n"
  shows "\<exists>e. read_slice n c = Inl e"
  using assms
  by (auto simp: read_slice_def wf_batch_cursor_def unread_def checked_add_def)

lemmas cur_read_defs = cur_read_u8_def cur_read_u32_def cur_read_u64_def

lemma cur_read_ok [codec_simps]:
  assumes "wf_batch_cursor c"
  shows "unread c = b # ys \<Longrightarrow> cur_read_u8 c = Inr (b, skip c 1)"
    and "unread c = to_le_bytes w32 @ ys \<Longrightarrow> cur_read_u32 c = Inr (w32, skip c 4)"
    and "unread c = to_le_bytes w64 @ ys \<Longrightarrow> cur_read_u64 c = Inr (w64, skip c 8)"
  using assms by (simp_all add: cur_read_defs read_slice_ok)

text \<open>What an operation means, without the identity of its value's allocation.\<close>

definition op_content :: "write_op \<Rightarrow> value_type \<times> u64 \<times> bytes \<times> bytes" where
  "op_content x = (op_kind x, op_sequence x, op_key x, bytes_of (op_value x))"

definition op_fits :: "write_op \<Rightarrow> bool" where
  "op_fits x \<longleftrightarrow> length (op_key x) < 2 ^ 32 \<and> length (bytes_of (op_value x)) < 2 ^ 32"

lemma unat_u32_try_from: "n < 2 ^ 32 \<Longrightarrow> unat (u32_try_from n) = n"
  by (simp add: u32_try_from_def unat_of_nat)

lemma kind_byte_plain:
  "as_u8 k AND 0x7f = as_u8 k" "as_u8 k AND KIND_REUSE_PREV = 0"
  by (cases k; simp add: KIND_REUSE_PREV_def)+

lemma kind_byte_reuse:
  "(as_u8 k OR KIND_REUSE_PREV) AND 0x7f = as_u8 k"
  "(as_u8 k OR KIND_REUSE_PREV) AND KIND_REUSE_PREV \<noteq> 0"
  by (cases k; simp add: KIND_REUSE_PREV_def)+

lemma reuse_flag_nonzero [simp]: "KIND_REUSE_PREV \<noteq> 0"
  by (simp add: KIND_REUSE_PREV_def)

lemma decode_op_image:
  assumes wf: "wf_batch_cursor c" and img: "unread c = op_image r x @ ys" and fits: "op_fits x"
    and reuse: "r \<Longrightarrow> version = WRITE_RECORD_VERSION_V2 \<and> ops \<noteq> [] \<and>
                  bytes_of (op_value (last ops)) = bytes_of (op_value x)"
  shows "\<exists>x'. decode_op version ops c = Inr (x', skip c (length (op_image r x))) \<and>
              op_content x' = op_content x"
proof -
  let ?key = "op_key x" and ?val = "bytes_of (op_value x)"
  have len: "unat (u32_try_from (length ?key)) = length ?key"
    "unat (u32_try_from (length ?val)) = length ?val"
    using fits by (simp_all add: op_fits_def unat_u32_try_from)
  have wfs: "wf_batch_cursor (skip c n)" if "n \<le> length (op_image r x)" for n
    using wf_skip [OF wf, of n] that by (simp add: img)
  show ?thesis
  proof (cases r)
    case True
    with wfs have "wf_batch_cursor (skip c 1)" "wf_batch_cursor (skip c 9)"
      "wf_batch_cursor (skip c 13)"
      by (simp_all add: op_image_def)
    with True wf img reuse len show ?thesis
      by (simp add: decode_op_def op_image_def codec_simps kind_byte_reuse Let_def
          read_slice_ok op_content_def)
  next
    case False
    with wfs have "wf_batch_cursor (skip c 1)" "wf_batch_cursor (skip c 9)"
      "wf_batch_cursor (skip c 13)" "wf_batch_cursor (skip c (13 + length ?key))"
      "wf_batch_cursor (skip c (17 + length ?key))"
      by (simp_all add: op_image_def)
    moreover have "unread (skip c 1) = drop 1 (op_image r x @ ys)"
      "unread (skip c 9) = drop 9 (op_image r x @ ys)"
      "unread (skip c 13) = drop 13 (op_image r x @ ys)" by (simp_all add: img)
    moreover have "unread (skip c (13 + length ?key)) =
        to_le_bytes (u32_try_from (length ?val)) @ ?val @ ys"
      unfolding skip_skip [symmetric] unread_skip img using False by (simp add: op_image_def)
    moreover from this have "unread (skip c (17 + length ?key)) = ?val @ ys"
      using unread_skip [of "skip c (13 + length ?key)" 4] by (simp add: add.commute)
    ultimately show ?thesis using False wf img len
      by (simp add: decode_op_def op_image_def codec_simps kind_byte_plain Let_def
          read_slice_ok op_content_def add.assoc del: unread_skip)
  qed
qed

text \<open>Two live values at the same address and of the same length are the same bytes:
  what the pointer comparison of the encoder relies on.\<close>

definition coherent :: "write_op list \<Rightarrow> bool" where
  "coherent ops \<longleftrightarrow> (\<forall>a \<in> set ops. \<forall>b \<in> set ops.
     bytes_ptr (op_value a) = bytes_ptr (op_value b) \<and>
     length (bytes_of (op_value a)) = length (bytes_of (op_value b)) \<longrightarrow>
     bytes_of (op_value a) = bytes_of (op_value b))"

lemma coherent_subset: "\<lbrakk>coherent ops; set xs \<subseteq> set ops\<rbrakk> \<Longrightarrow> coherent xs"
  unfolding coherent_def by blast

lemma value_ptr_eq_bytes:
  "\<lbrakk>coherent ops; a \<in> set ops; b \<in> set ops; value_ptr_eq a b\<rbrakk> \<Longrightarrow>
   bytes_of (op_value a) = bytes_of (op_value b)"
  unfolding coherent_def value_ptr_eq_def by blast

lemma decode_loop_image:
  assumes "wf_batch_cursor c" "unread c = ops_image v2 prev ops @ ys"
    and "\<forall>x \<in> set ops. op_fits x" "coherent (case prev of None \<Rightarrow> ops | Some p \<Rightarrow> p # ops)"
    and "v2 \<Longrightarrow> version = WRITE_RECORD_VERSION_V2"
    and "case prev of None \<Rightarrow> acc = [] | Some p \<Rightarrow>
           acc \<noteq> [] \<and> bytes_of (op_value (last acc)) = bytes_of (op_value p)"
  shows "\<exists>ops'. decode_loop (length ops) version acc c =
           Inr (acc @ ops', skip c (length (ops_image v2 prev ops))) \<and>
         map op_content ops' = map op_content ops"
  using assms
proof (induction v2 prev ops arbitrary: c acc rule: ops_image.induct)
  case (2 v2 prev x rest)
  let ?r = "reuses v2 prev x"
  have re: "version = WRITE_RECORD_VERSION_V2 \<and> acc \<noteq> [] \<and>
      bytes_of (op_value (last acc)) = bytes_of (op_value x)" if r: ?r
  proof (cases prev)
    case None
    with r show ?thesis by (simp add: reuses_def)
  next
    case (Some p)
    with r "2.prems"(4) have "bytes_of (op_value p) = bytes_of (op_value x)"
      by (intro value_ptr_eq_bytes [of "p # x # rest"]) (simp_all add: reuses_def)
    with r Some "2.prems"(5,6) show ?thesis by (simp add: reuses_def)
  qed
  have img: "unread c = op_image ?r x @ ops_image v2 (Some x) rest @ ys"
    using "2.prems"(2) by simp
  obtain x' where x': "decode_op version acc c = Inr (x', skip c (length (op_image ?r x)))"
    "op_content x' = op_content x"
    using decode_op_image [OF "2.prems"(1) img _ re] "2.prems"(3) by auto
  have "\<exists>ops'. decode_loop (length rest) version (acc @ [x']) (skip c (length (op_image ?r x))) =
      Inr ((acc @ [x']) @ ops', skip (skip c (length (op_image ?r x)))
             (length (ops_image v2 (Some x) rest))) \<and> map op_content ops' = map op_content rest"
  proof (rule "2.IH")
    show "wf_batch_cursor (skip c (length (op_image ?r x)))"
      using wf_skip [OF "2.prems"(1)] img by simp
    show "unread (skip c (length (op_image ?r x))) = ops_image v2 (Some x) rest @ ys"
      using img by simp
    show "coherent (case Some x of None \<Rightarrow> rest | Some p \<Rightarrow> p # rest)"
      using "2.prems"(4)
      by (cases prev; simp; elim coherent_subset) auto
    show "\<forall>x \<in> set rest. op_fits x" using "2.prems"(3) by simp
    show "v2 \<Longrightarrow> version = WRITE_RECORD_VERSION_V2" by (rule "2.prems"(5))
    show "case Some x of None \<Rightarrow> acc @ [x'] = [] | Some p \<Rightarrow>
        acc @ [x'] \<noteq> [] \<and> bytes_of (op_value (last (acc @ [x']))) = bytes_of (op_value p)"
      using x'(2) by (simp add: op_content_def)
  qed
  then obtain ops' where
    "decode_loop (length (x # rest)) version acc c =
       Inr (acc @ x' # ops', skip c (length (ops_image v2 prev (x # rest))))"
    "map op_content ops' = map op_content rest"
    using x'(1) by auto
  with x'(2) show ?case by (intro exI [of _ "x' # ops'"]) simp
qed simp

lemma min_op_size:
  "17 * length ops \<le> encoded_len_from False prev ops"
  "13 * length ops \<le> encoded_len_from v2 prev ops"
  by (induction ops arbitrary: prev) (auto simp: op_encoded_len_def reuses_def add_le_mono)

lemma decode_record_image:
  assumes fits: "\<forall>x \<in> set ops. op_fits x" and len: "length ops < 2 ^ 32"
    and size: "encoded_len ops < 2 ^ 63" and coh: "coherent ops"
  shows "\<exists>ops'. decode_record (record_image ops) = Inr ops' \<and>
           map op_content ops' = map op_content ops"
proof -
  define v2 where "v2 = record_uses_v2 ops"
  define version where
    "version = (if v2 then WRITE_RECORD_VERSION_V2 else WRITE_RECORD_VERSION)"
  define c where "c = \<lparr>cur_data = record_image ops, cur_pos = 0\<rparr>"
  let ?n = "u32_try_from (length ops)" and ?img = "ops_image v2 None ops"
  have full: "unread c = version # to_le_bytes ?n @ ?img" "record_image ops = unread c"
    by (simp_all add: c_def unread_def record_image_def version_def v2_def)
  have "length (record_image ops) < 2 ^ 63" using size by (simp add: length_record_image)
  then have wf: "wf_batch_cursor c" by (simp add: c_def wf_batch_cursor_def)
  have wfs: "wf_batch_cursor (skip c 1)" "wf_batch_cursor (skip c 5)"
    by (rule wf_skip [OF wf]; simp add: full)+
  have n: "unat ?n = length ops" using len by (simp add: unat_u32_try_from)
  obtain ops' where
    loop: "decode_loop (length ops) version [] (skip c 5) = Inr (ops', skip c (5 + length ?img))"
    and content: "map op_content ops' = map op_content ops"
    using decode_loop_image [of "skip c 5" v2 None ops "[]" version "[]"] wfs fits coh full
    by (auto simp: version_def)
  have "length ops' = length ops" using content by (metis length_map)
  moreover have "cur_pos (skip c 5) = 5" "cur_pos (skip c (5 + length ?img)) = 5 + length ?img"
    by (simp_all add: skip_def c_def)
  moreover have "length (record_image ops) = 5 + length ?img" using full by simp
  moreover have "cur_data c = record_image ops" by (simp add: c_def)
  moreover have "length ops \<le> length ?img div (if version = WRITE_RECORD_VERSION_V2 then 13 else 17)"
    using min_op_size [where ops = ops and prev = None]
    by (simp add: version_def length_ops_image WRITE_RECORD_VERSION_def
        WRITE_RECORD_VERSION_V2_def less_eq_div_iff_mult_less_eq mult.commute)
  moreover have "version = WRITE_RECORD_VERSION \<or> version = WRITE_RECORD_VERSION_V2"
    by (simp add: version_def)
  ultimately show ?thesis
    using wf wfs full n loop content
    unfolding decode_record_def c_def [symmetric]
    by (cases "version = WRITE_RECORD_VERSION_V2")
      (simp_all add: codec_simps Let_def batch_is_empty_def write_record_count_ok_def not_less)
qed

section \<open>Decoding is prefix-free\<close>

definition extend :: "bytes \<Rightarrow> batch_cursor \<Rightarrow> batch_cursor" where
  "extend q c = c\<lparr>cur_data := cur_data c @ q\<rparr>"

text \<open>A reader that succeeds succeeds in the same way on a longer buffer, and
  keeps its position inside the shorter one.\<close>

definition extendable :: "'a batch_read \<Rightarrow> bool" where
  "extendable f \<longleftrightarrow> (\<forall>c a c' q. f c = Inr (a, c') \<longrightarrow> cur_pos c \<le> length (cur_data c) \<longrightarrow>
     f (extend q c) = Inr (a, extend q c') \<and> cur_data c' = cur_data c \<and>
     cur_pos c' \<le> length (cur_data c'))"

lemma extendableD:
  assumes "extendable f" "f c = Inr (a, c')" "cur_pos c \<le> length (cur_data c)"
  shows "f (extend q c) = Inr (a, extend q c')" "cur_data c' = cur_data c"
    "cur_pos c' \<le> length (cur_data c')"
  using assms unfolding extendable_def by blast+

lemma extendable_read_slice: "extendable (read_slice n)"
  by (auto simp: extendable_def read_slice_def extend_def split: option.splits if_splits)
    (auto simp: checked_add_def split: if_splits)

lemma extendable_return: "extendable (\<lambda>c. Inr (a, c))"
  by (simp add: extendable_def)

lemma extendable_fail: "extendable (\<lambda>c. Inl e)"
  by (simp add: extendable_def)

lemma extendable_bind:
  assumes f: "extendable f" and g: "\<And>a. extendable (g a)"
  shows "extendable (\<lambda>c. bind_r (f c) (\<lambda>(a, c). g a c))"
  unfolding extendable_def
proof (intro allI impI)
  fix c b c' q
  assume r: "bind_r (f c) (\<lambda>(a, c). g a c) = Inr (b, c')"
    and p: "cur_pos c \<le> length (cur_data c)"
  then obtain a c1 where 1: "f c = Inr (a, c1)" "g a c1 = Inr (b, c')"
    by (auto simp: bind_r_eq_Inr)
  note f1 = extendableD [OF f 1(1) p]
  note g1 = extendableD [OF g 1(2) f1(3)]
  show "bind_r (f (extend q c)) (\<lambda>(a, c). g a c) = Inr (b, extend q c') \<and>
      cur_data c' = cur_data c \<and> cur_pos c' \<le> length (cur_data c')"
    using f1 g1 by simp
qed

lemmas extendable_intros =
  extendable_bind extendable_read_slice extendable_return extendable_fail

lemma extendable_cur_reads:
  "extendable cur_read_u8" "extendable cur_read_u32" "extendable cur_read_u64"
  unfolding cur_read_defs by (intro extendable_intros)+

lemma extendable_if:
  "\<lbrakk>extendable f; extendable g\<rbrakk> \<Longrightarrow> extendable (\<lambda>c. if b then f c else g c)"
  by (cases b) simp_all

lemma extendable_case:
  "(\<And>k. extendable (h k)) \<Longrightarrow> extendable (\<lambda>c. case m of None \<Rightarrow> Inl e | Some k \<Rightarrow> h k c)"
  by (cases m) (simp_all add: extendable_fail)

lemma extendable_decode_op: "extendable (decode_op version ops)"
  unfolding decode_op_def Let_def
  by (intro extendable_bind extendable_cur_reads extendable_case extendable_if
      extendable_read_slice extendable_return extendable_fail)

lemma extendable_decode_loop: "extendable (decode_loop n version ops)"
proof (induction n arbitrary: ops)
  case (Suc n)
  show ?case unfolding decode_loop.simps
    by (intro extendable_bind extendable_decode_op Suc)
qed (simp add: extendable_def)

lemma decode_record_prefix_free:
  assumes ok: "decode_record p = Inr ops" and q: "q \<noteq> []"
  shows "decode_record (p @ q) = Inl TrailingBytes"
proof -
  define c where "c = \<lparr>cur_data = p, cur_pos = 0\<rparr>"
  from ok obtain version c1 where 1: "cur_read_u8 c = Inr (version, c1)"
    and v: "version = WRITE_RECORD_VERSION \<or> version = WRITE_RECORD_VERSION_V2"
    by (auto simp: decode_record_def c_def bind_r_eq_Inr Let_def split: if_splits)
  from ok 1 v obtain n c2 where 2: "cur_read_u32 c1 = Inr (n, c2)"
    by (auto simp: decode_record_def c_def bind_r_eq_Inr Let_def split: if_splits)
  let ?min = "if version = WRITE_RECORD_VERSION_V2 then 13 else 17 :: nat"
  from ok 1 v 2 obtain c3 where 3: "decode_loop (unat n) version [] c2 = Inr (ops, c3)"
    and cap: "unat n \<le> (length p - cur_pos c2) div ?min"
    by (auto simp: decode_record_def c_def bind_r_eq_Inr Let_def split: if_splits)
  note e1 = extendableD [OF extendable_cur_reads(1) 1]
  note e2 = extendableD [OF extendable_cur_reads(2) 2 e1(3)]
  note e3 = extendableD [OF extendable_decode_loop 3 e2(3)]
  have start: "cur_pos c \<le> length (cur_data c)" "cur_data c = p" by (simp_all add: c_def)
  have "(length p - cur_pos c2) div ?min \<le> (length (p @ q) - cur_pos c2) div ?min"
    by (rule div_le_mono) simp
  with cap have cap': "unat n \<le> (length (p @ q) - cur_pos c2) div ?min" by (rule order.trans)
  have cq: "\<lparr>cur_data = p @ q, cur_pos = 0\<rparr> = extend q c" by (simp add: extend_def c_def)
  have "cur_pos c3 \<le> length p" "cur_data c3 = p" using e1 e2 e3 start by simp_all
  then have "length (cur_data (extend q c3)) - cur_pos (extend q c3) \<noteq> 0"
    using q by (cases q) (auto simp: extend_def)
  moreover have "cur_pos (extend q c2) = cur_pos c2" by (simp add: extend_def)
  ultimately show ?thesis
    unfolding decode_record_def cq
    using e1(1) e2(1) e3(1) e1(2,3) e2(2,3) start v cap'
    by (cases "version = WRITE_RECORD_VERSION_V2")
      (simp_all add: Let_def batch_is_empty_def not_less)
qed

section \<open>Sharing equal values\<close>

lemma share_after_content: "map op_content (share_after prev ops) = map op_content ops"
  by (induction prev ops rule: share_after.induct) (auto simp: Let_def op_content_def)

lemma share_content: "map op_content (share_consecutive_equal_values ops) = map op_content ops"
  by (cases ops) (simp_all add: share_after_content)

lemma share_after_values:
  "x \<in> set (share_after prev ops) \<Longrightarrow>
   op_value x = op_value prev \<or> (\<exists>y \<in> set ops. op_value x = op_value y)"
  by (induction prev ops rule: share_after.induct) (auto simp: Let_def split: if_splits)

lemma share_values:
  "x \<in> set (share_consecutive_equal_values ops) \<Longrightarrow> \<exists>y \<in> set ops. op_value x = op_value y"
  by (cases ops) (auto dest: share_after_values)

lemma share_coherent: "coherent ops \<Longrightarrow> coherent (share_consecutive_equal_values ops)"
  unfolding coherent_def using share_values by metis

lemma share_fits:
  assumes "\<forall>x \<in> set ops. op_fits x" "x \<in> set (share_consecutive_equal_values ops)"
  shows "op_fits x"
proof -
  have "op_content x \<in> op_content ` set ops"
    using assms(2) share_content [of ops] by (metis image_eqI list.set_map)
  with assms(1) show ?thesis by (auto simp: op_content_def op_fits_def)
qed

section \<open>Properties\<close>

text \<open>C24. The encoder never writes outside the buffer it sized up front: it fills
  exactly \<open>encoded_len\<close> bytes after the existing output, and they are the
  reference image of the record.\<close>

theorem encode_ops_fills_buffer:
  "encode_ops ops out = Some (out @ record_image ops) \<and>
   length (record_image ops) = encoded_len ops \<and> encoded_len ops \<le> estimate_size ops"
proof -
  have "encoded_len_from v2 prev xs \<le> sum_list (map op_encoded_len xs)" for v2 prev xs
    by (induction xs arbitrary: prev) (auto simp: op_encoded_len_def add_le_mono)
  then show ?thesis
    by (simp add: encode_ops_image length_record_image encoded_len_def estimate_size_def)
qed

text \<open>C18. Decoding an encoded record gives back every operation with its kind,
  sequence number, key and value, whether the record is stored in version 1 or,
  with repeated values left out, in version 2, also after equal consecutive values
  have been made to share one allocation.\<close>

theorem write_record_round_trip:
  assumes "\<forall>x \<in> set ops. op_fits x" "length ops < 2 ^ 32" "coherent ops"
    and "encoded_len (share_consecutive_equal_values ops) < 2 ^ 63"
  shows "\<exists>enc ops'. encode_record (share_consecutive_equal_values ops) = Some enc \<and>
           decode_record enc = Inr ops' \<and> map op_content ops' = map op_content ops"
proof -
  let ?ops = "share_consecutive_equal_values ops"
  have "length ?ops = length ops" using share_content [of ops] by (metis length_map)
  with assms have "\<exists>ops'. decode_record (record_image ?ops) = Inr ops' \<and>
      map op_content ops' = map op_content ?ops"
    by (intro decode_record_image) (auto simp: share_coherent dest: share_fits)
  then show ?thesis by (auto simp: encode_record_def encode_ops_image share_content)
qed

theorem write_record_round_trip_witness:
  "\<exists>enc ops'. encode_record (share_consecutive_equal_values
      [op_put 1 [97] (SharedBytes 10 [1, 2]), op_put 2 [98] (SharedBytes 20 [1, 2]),
       op_delete 3 [97]]) = Some enc \<and> decode_record enc = Inr ops' \<and>
     map op_content ops' = [(Value, 1, [97], [1, 2]), (Value, 2, [98], [1, 2]), (Deletion, 3, [97], [])]"
proof -
  let ?ops = "[op_put 1 [97] (SharedBytes 10 [1, 2]), op_put 2 [98] (SharedBytes 20 [1, 2]),
    op_delete 3 [97]]"
  have "\<forall>x \<in> set ?ops. op_fits x" by (simp add: op_fits_def op_put_def op_delete_def)
  moreover have "coherent ?ops" by (simp add: coherent_def op_put_def op_delete_def)
  moreover have "encoded_len (share_consecutive_equal_values ?ops) = 57" by code_simp
  moreover have "map op_content ?ops =
      [(Value, 1, [97], [1, 2]), (Value, 2, [98], [1, 2]), (Deletion, 3, [97], [])]"
    by (simp add: op_content_def op_put_def op_delete_def)
  ultimately show ?thesis using write_record_round_trip [of ?ops] by simp
qed

text \<open>C19. A torn record is never accepted: decoding any proper prefix of an encoded
  record is an error, so no shorter list of operations can be applied in its place.\<close>

theorem torn_record_rejected:
  assumes "\<forall>x \<in> set ops. op_fits x" "length ops < 2 ^ 32" "coherent ops"
    and "encoded_len ops < 2 ^ 63" "n < encoded_len ops"
  shows "\<exists>enc e. encode_record ops = Some enc \<and> decode_record (take n enc) = Inl e"
proof -
  let ?img = "record_image ops"
  obtain ops' where full: "decode_record ?img = Inr ops'"
    using decode_record_image [OF assms(1,2,4,3)] by auto
  have rest: "drop n ?img \<noteq> []" using assms(5) by (simp add: length_record_image)
  have "decode_record (take n ?img) \<noteq> Inr x" for x
    using decode_record_prefix_free [OF _ rest, of "take n ?img" x] full by auto
  then have "\<exists>e. decode_record (take n ?img) = Inl e" by (metis sum.exhaust)
  then show ?thesis by (simp add: encode_record_def encode_ops_image)
qed

theorem torn_record_rejected_witness:
  "\<exists>enc e. encode_record [op_delete 3 [97]] = Some enc \<and> decode_record (take 20 enc) = Inl e"
proof -
  have "\<forall>x \<in> set [op_delete 3 [97]]. op_fits x" by (simp add: op_fits_def op_delete_def)
  moreover have "coherent [op_delete 3 [97]]" by (simp add: coherent_def)
  moreover have "encoded_len [op_delete 3 [97]] = 23" by code_simp
  ultimately show ?thesis using torn_record_rejected [of "[op_delete 3 [97]]" 20] by simp
qed

end
