(* ===== verification/Wal_Format.thy ===== *)
theory Wal_Format
  imports Prelude
begin

text \<open>
  The on-disk vocabulary of the write-ahead log: block and header sizes and record
  types (\<open>wal/format_kernel.rs\<close>), the masked checksum (\<open>wal/crc_kernel.rs\<close>), and
  the pure decision functions of recovery (\<open>wal/recover_kernel.rs\<close>).  The CRC-32C
  routine comes from the \<open>crc32c\<close> crate and is a parameter: \<open>app\<close> stands for
  \<open>crc32c_append\<close>, and \<open>crc32c(data)\<close> is \<open>crc32c_append(0, data)\<close>.
\<close>

section \<open>Blocks, headers and record types\<close>

definition BLOCK_SIZE :: nat where
  "BLOCK_SIZE = 32768"

definition HEADER_SIZE :: nat where
  "HEADER_SIZE = 7"

datatype record_type = Zero | Full | First | Middle | Last

fun record_type_byte :: "record_type \<Rightarrow> byte" where
  "record_type_byte Zero = 0"
| "record_type_byte Full = 1"
| "record_type_byte First = 2"
| "record_type_byte Middle = 3"
| "record_type_byte Last = 4"

definition from_byte :: "byte \<Rightarrow> record_type option" where
  "from_byte b = (if b = 0 then Some Zero
     else if b = 1 then Some Full
     else if b = 2 then Some First
     else if b = 3 then Some Middle
     else if b = 4 then Some Last
     else None)"

lemma from_byte_record_type [simp]: "from_byte (record_type_byte t) = Some t"
  by (cases t) (simp_all add: from_byte_def)

lemma from_byte_Some: "from_byte b = Some t \<longleftrightarrow> b = record_type_byte t"
  by (cases t) (auto simp: from_byte_def split: if_splits)

definition decode_length :: "bytes \<Rightarrow> nat" where
  "decode_length bs = unat (from_le_bytes bs :: u16)"

definition decode_crc :: "bytes \<Rightarrow> u32" where
  "decode_crc bs = from_le_bytes bs"

section \<open>Checksums\<close>

type_synonym crc_append = "u32 \<Rightarrow> bytes \<Rightarrow> u32"

definition MASK_DELTA :: u32 where
  "MASK_DELTA = 0xa282ead8"

definition mask_crc :: "u32 \<Rightarrow> u32" where
  "mask_crc crc = word_rotr 15 crc + MASK_DELTA"

definition unmask_crc :: "u32 \<Rightarrow> u32" where
  "unmask_crc masked = word_rotl 15 (masked - MASK_DELTA)"

definition crc32c :: "crc_append \<Rightarrow> bytes \<Rightarrow> u32" where
  "crc32c app data = app 0 data"

definition record_checksum :: "crc_append \<Rightarrow> byte \<Rightarrow> u16 \<Rightarrow> bytes \<Rightarrow> u32" where
  "record_checksum app record_type len data =
     (let crc = app 0 (to_le_bytes len);
          crc = app crc [record_type];
          crc = app crc data in mask_crc crc)"

definition crc_match_ok :: "u32 \<Rightarrow> u32 \<Rightarrow> bool" where
  "crc_match_ok stored computed = (stored = computed)"

lemma unmask_mask [simp]: "unmask_crc (mask_crc c) = c"
  by (simp add: unmask_crc_def mask_crc_def)

lemma mask_unmask [simp]: "mask_crc (unmask_crc c) = c"
  by (simp add: unmask_crc_def mask_crc_def)

section \<open>Decisions of recovery\<close>

definition MAX_CONSECUTIVE_SKIPS :: nat where
  "MAX_CONSECUTIVE_SKIPS = 4 * 1024 * 1024"

datatype recover_kind =
  Record | CleanEof | Truncated | LengthCorrupt | UnknownType | OrphanFragment | Crc
| ZeroHeaderTail | Other

datatype recover_act = KeepRecord | Stop | Resync | KeepPrefix | FailStop

datatype physical_act = PhysContinue | PhysFailStop | PhysTruncated | PhysCleanEof

datatype frag_kind = FragFull | FragFirst | FragMiddle | FragLast | FragZero

datatype frag_act = Yield | Start | Accumulate | FragFailStop | Skip | FragCleanEof

fun from_record_type :: "record_type \<Rightarrow> frag_kind" where
  "from_record_type Zero = FragZero"
| "from_record_type Full = FragFull"
| "from_record_type First = FragFirst"
| "from_record_type Middle = FragMiddle"
| "from_record_type Last = FragLast"

definition is_length_resyncable :: "recover_kind \<Rightarrow> bool" where
  "is_length_resyncable k = (k \<in> {Truncated, LengthCorrupt, UnknownType})"

fun recover_collect_act ::
  "recover_kind \<Rightarrow> nat \<Rightarrow> bool \<Rightarrow> nat \<Rightarrow> bool \<Rightarrow> recover_act" where
  "recover_collect_act Record prefix_n can_skip skips in_resync = KeepRecord"
| "recover_collect_act CleanEof prefix_n can_skip skips in_resync = Stop"
| "recover_collect_act Crc prefix_n can_skip skips in_resync =
     (if in_resync then
        if can_skip then Resync else if prefix_n = 0 then FailStop else KeepPrefix
      else FailStop)"
| "recover_collect_act ZeroHeaderTail prefix_n can_skip skips in_resync =
     (if in_resync then
        if can_skip then Resync else if prefix_n = 0 then FailStop else KeepPrefix
      else FailStop)"
| "recover_collect_act OrphanFragment prefix_n can_skip skips in_resync = FailStop"
| "recover_collect_act Other prefix_n can_skip skips in_resync = FailStop"
| "recover_collect_act _ prefix_n can_skip skips in_resync =
     (if \<not> can_skip then if prefix_n = 0 then FailStop else KeepPrefix
      else if MAX_CONSECUTIVE_SKIPS < skips then FailStop
      else Resync)"

definition physical_payload_act :: "nat \<Rightarrow> nat \<Rightarrow> nat \<Rightarrow> nat \<Rightarrow> nat \<Rightarrow> physical_act" where
  "physical_payload_act len max_payload payload_end block_end block_size =
     (if max_payload < len then PhysFailStop
      else if block_end < payload_end then
        (if block_end = block_size then PhysFailStop else PhysTruncated)
      else PhysContinue)"

fun fragment_act :: "frag_kind \<Rightarrow> bool \<Rightarrow> frag_act" where
  "fragment_act FragFull scratch_empty = Yield"
| "fragment_act FragFirst scratch_empty = Start"
| "fragment_act FragMiddle scratch_empty = (if scratch_empty then FragFailStop else Accumulate)"
| "fragment_act FragLast scratch_empty = (if scratch_empty then FragFailStop else Yield)"
| "fragment_act FragZero scratch_empty = Skip"

end
