(* ===== verification/Wal_Frame.thy ===== *)
theory Wal_Frame
  imports Batch Wal_Format
begin

text \<open>
  Fragmentation of logical records into physical WAL records
  (\<open>WalWriter::fragment_from\<close> and the functions around it in
  \<open>wal/writer_kernel.rs\<close>).  The bytes of a record come from a \<open>RecordSource\<close>; the
  interface and its contract are the locale \<open>record_source\<close>, and the fragmenter is
  shown, for every such source, to emit the reference image \<open>frame_image\<close> of the
  bytes the source stands for.  The single-fragment fast paths emit the same image.
  \<^const>\<open>None\<close> is a panic: a violated \<open>expect\<close>, an assertion or an index out of range.
\<close>

section \<open>Physical records\<close>

definition fragment_type :: "bool \<Rightarrow> bool \<Rightarrow> record_type" where
  "fragment_type begin' end' =
     (if begin' \<and> end' then Full else if begin' then First else if end' then Last else Middle)"

definition write_physical_header ::
  "crc_append \<Rightarrow> record_type \<Rightarrow> nat \<Rightarrow> nat \<Rightarrow> bytes \<Rightarrow> bytes option" where
  "write_physical_header app rtype payload_len hdr_pos b =
     (if 2 ^ 16 \<le> payload_len \<or> length b < hdr_pos + HEADER_SIZE then None
      else let length_u16 = (word_of_nat payload_len :: u16);
               checksum = record_checksum app (record_type_byte rtype) length_u16
                 (drop (hdr_pos + HEADER_SIZE) b);
               header = to_le_bytes checksum @ to_le_bytes length_u16 @ [record_type_byte rtype]
           in Some (take hdr_pos b @ header @ drop (hdr_pos + HEADER_SIZE) b))"

definition patch_physical_record ::
  "crc_append \<Rightarrow> record_type \<Rightarrow> nat \<Rightarrow> nat \<Rightarrow> nat \<Rightarrow> bytes \<Rightarrow> (bytes \<times> nat) option" where
  "patch_physical_record app rtype payload_len hdr_pos block_offset b =
     Option.bind (write_physical_header app rtype payload_len hdr_pos b) (\<lambda>b.
       Some (b, block_offset + (HEADER_SIZE + payload_len)))"

section \<open>The fragmentation loop\<close>

text \<open>\<open>appd\<close> is \<open>RecordSource::append_exact_to\<close> of the source's type.\<close>

type_synonym 's append_exact = "'s \<Rightarrow> bytes \<Rightarrow> nat \<Rightarrow> ('s \<times> bytes) option"

definition pad_block :: "bytes \<Rightarrow> nat \<Rightarrow> bytes \<times> nat" where
  "pad_block b block_offset =
     (let leftover = BLOCK_SIZE - block_offset in
      if leftover < HEADER_SIZE then (b @ replicate leftover 0, 0) else (b, block_offset))"

text \<open>An iteration either consumes payload or, when exactly a header fits, closes the block.\<close>

definition frag_measure :: "nat \<Rightarrow> nat \<Rightarrow> nat" where
  "frag_measure block_offset left =
     2 * left + (if BLOCK_SIZE - snd (pad_block [] block_offset) = HEADER_SIZE then 1 else 0)"

lemma snd_pad_block: "snd (pad_block b bo) = snd (pad_block [] bo)"
  by (simp add: pad_block_def Let_def)

lemma frag_measure_decreases:
  assumes "(b1, bo) = pad_block b block_offset" "\<not> left \<le> BLOCK_SIZE - (bo + HEADER_SIZE)"
  shows "frag_measure (bo + (HEADER_SIZE + (BLOCK_SIZE - (bo + HEADER_SIZE))))
      (left - (BLOCK_SIZE - (bo + HEADER_SIZE))) < frag_measure block_offset left"
proof -
  have bo: "snd (pad_block [] block_offset) = bo"
    using assms(1) snd_pad_block [of b block_offset] by (metis snd_conv)
  have room: "HEADER_SIZE \<le> BLOCK_SIZE - bo"
    using assms(1) by (auto simp: pad_block_def Let_def BLOCK_SIZE_def HEADER_SIZE_def split: if_splits)
  then have full: "bo + (HEADER_SIZE + (BLOCK_SIZE - (bo + HEADER_SIZE))) = BLOCK_SIZE"
    by (simp add: BLOCK_SIZE_def HEADER_SIZE_def)
  have "frag_measure BLOCK_SIZE n = 2 * n" for n
    by (simp add: frag_measure_def pad_block_def Let_def BLOCK_SIZE_def HEADER_SIZE_def)
  then show ?thesis using assms(2) bo room
    by (auto simp: full frag_measure_def)
qed

function fragment_loop ::
  "crc_append \<Rightarrow> 's append_exact \<Rightarrow> 's \<Rightarrow> bytes \<Rightarrow> nat \<Rightarrow> nat \<Rightarrow> bool \<Rightarrow>
   ('s \<times> bytes \<times> nat) option" where
  "fragment_loop app appd src b block_offset left begin' =
     (if BLOCK_SIZE < block_offset then None
      else let (b, bo) = pad_block b block_offset;
               avail = BLOCK_SIZE - bo - HEADER_SIZE;
               fragment_len = min left avail;
               end' = (left - fragment_len = 0);
               rtype = fragment_type begin' end';
               hdr_pos = length b
      in case appd src (b @ replicate HEADER_SIZE 0) fragment_len of
           None \<Rightarrow> None
         | Some (src, b) \<Rightarrow>
        (case patch_physical_record app rtype fragment_len hdr_pos bo b of
           None \<Rightarrow> None
         | Some (b, bo') \<Rightarrow>
             if batch_is_empty (left - fragment_len) then Some (src, b, bo')
             else fragment_loop app appd src b bo' (left - fragment_len) False))"
  by pat_completeness auto
termination
  by (relation "measure (\<lambda>(app, appd, src, b, bo, left, begin'). frag_measure bo left)")
    (auto simp: patch_physical_record_def batch_is_empty_def bind_eq_Some_conv
      intro!: frag_measure_decreases)

declare fragment_loop.simps [simp del]

definition fragment_from ::
  "crc_append \<Rightarrow> 's append_exact \<Rightarrow> ('s \<Rightarrow> nat) \<Rightarrow> 's \<Rightarrow> bytes \<Rightarrow> nat \<Rightarrow> ('s \<times> bytes \<times> nat) option"
where
  "fragment_from app appd total_len src b block_offset =
     fragment_loop app appd src b block_offset (total_len src) True"

section \<open>The reference image\<close>

definition phys_record :: "crc_append \<Rightarrow> record_type \<Rightarrow> bytes \<Rightarrow> bytes" where
  "phys_record app t d =
     to_le_bytes (record_checksum app (record_type_byte t) (word_of_nat (length d)) d) @
     to_le_bytes (word_of_nat (length d) :: u16) @ [record_type_byte t] @ d"

function frame_image :: "crc_append \<Rightarrow> nat \<Rightarrow> bytes \<Rightarrow> bool \<Rightarrow> bytes \<times> nat" where
  "frame_image app block_offset d begin' =
     (let (p, bo) = pad_block [] block_offset;
          n = min (length d) (BLOCK_SIZE - bo - HEADER_SIZE);
          img = p @ phys_record app (fragment_type begin' (length d \<le> n)) (take n d)
      in if length d \<le> n then (img, bo + (HEADER_SIZE + n))
         else let (r, bo') = frame_image app (bo + (HEADER_SIZE + n)) (drop n d) False
              in (img @ r, bo'))"
  by pat_completeness auto
termination
  by (relation "measure (\<lambda>(app, bo, d, begin'). frag_measure bo (length d))")
    (auto intro!: frag_measure_decreases)

declare frame_image.simps [simp del]

lemma length_phys_record [simp]: "length (phys_record app t d) = HEADER_SIZE + length d"
  by (simp add: phys_record_def HEADER_SIZE_def)

lemma pad_block_bounds:
  assumes "pad_block b block_offset = (b', bo)"
  shows "bo + HEADER_SIZE \<le> BLOCK_SIZE" "b' = b @ fst (pad_block [] block_offset)"
    "bo = snd (pad_block [] block_offset)"
  using assms
  by (auto simp: pad_block_def Let_def BLOCK_SIZE_def HEADER_SIZE_def split: if_splits)

lemma write_header_phys:
  assumes "length d < 2 ^ 16"
  shows "write_physical_header app t (length d) (length b) (b @ replicate HEADER_SIZE 0 @ d) =
    Some (b @ phys_record app t d)"
  using assms by (simp add: write_physical_header_def phys_record_def Let_def HEADER_SIZE_def)

section \<open>The contract of a record source\<close>

locale record_source =
  fixes appd :: "'s append_exact"
    and total_len :: "'s \<Rightarrow> nat"
    and initial :: "'s \<Rightarrow> bool"
    and valid :: "'s \<Rightarrow> bool"
    and rest :: "'s \<Rightarrow> bytes"
  assumes initial_valid: "initial s \<Longrightarrow> valid s"
    and total_len_rest: "initial s \<Longrightarrow> total_len s = length (rest s)"
    and appd_exact: "\<lbrakk>valid s; n \<le> length (rest s)\<rbrakk> \<Longrightarrow>
      \<exists>s'. appd s b n = Some (s', b @ take n (rest s)) \<and> valid s' \<and> rest s' = drop n (rest s)"
begin

lemma fragment_loop_image:
  assumes "valid s" "block_offset \<le> BLOCK_SIZE"
  shows "\<exists>s'. fragment_loop app appd s b block_offset (length (rest s)) begin' =
           Some (s', b @ fst (frame_image app block_offset (rest s) begin'),
                 snd (frame_image app block_offset (rest s) begin')) \<and>
         valid s' \<and> rest s' = []"
  using assms
proof (induction "frag_measure block_offset (length (rest s))"
    arbitrary: s b block_offset begin' rule: less_induct)
  case less
  define d where "d = rest s"
  obtain p bo where pad: "pad_block [] block_offset = (p, bo)" by fastforce
  then have padb: "pad_block b block_offset = (b @ p, bo)"
    by (auto simp: pad_block_def Let_def split: if_splits)
  note room = pad_block_bounds(1) [OF pad]
  define n where "n = min (length d) (BLOCK_SIZE - bo - HEADER_SIZE)"
  define t where "t = fragment_type begin' (length d \<le> n)"
  have n: "n \<le> length d" "n < 2 ^ 16" "bo + (HEADER_SIZE + n) \<le> BLOCK_SIZE"
    using room by (auto simp: n_def BLOCK_SIZE_def HEADER_SIZE_def)
  obtain s1 where s1: "appd s ((b @ p) @ replicate HEADER_SIZE 0) n =
      Some (s1, ((b @ p) @ replicate HEADER_SIZE 0) @ take n d)"
    and v1: "valid s1" "rest s1 = drop n d"
    using appd_exact [OF less.prems(1), of n] n(1) unfolding d_def by blast
  have patch: "patch_physical_record app t n (length (b @ p)) bo
      (((b @ p) @ replicate HEADER_SIZE 0) @ take n d) =
      Some ((b @ p) @ phys_record app t (take n d), bo + (HEADER_SIZE + n))"
    using write_header_phys [of "take n d" app t "b @ p"] n
    by (simp add: patch_physical_record_def)
  let ?b1 = "(b @ p) @ phys_record app t (take n d)" and ?bo1 = "bo + (HEADER_SIZE + n)"
  have len: "min (length d) (BLOCK_SIZE - bo - HEADER_SIZE) = n" by (simp add: n_def)
  have t_eq: "fragment_type begin' (length d - n = 0) = t" by (simp add: t_def)
  have loop_eq: "fragment_loop app appd s b block_offset (length d) begin' =
      (if length d \<le> n then Some (s1, ?b1, ?bo1)
       else fragment_loop app appd s1 ?b1 ?bo1 (length d - n) False)"
    using less.prems(2) unfolding fragment_loop.simps [of app appd s b block_offset] padb
      Let_def prod.case len t_eq s1 option.case patch
    by (simp add: batch_is_empty_def)
  have img_eq: "frame_image app block_offset d begin' =
      (if length d \<le> n then (p @ phys_record app t (take n d), ?bo1)
       else (p @ phys_record app t (take n d) @ fst (frame_image app ?bo1 (drop n d) False),
             snd (frame_image app ?bo1 (drop n d) False)))"
    unfolding frame_image.simps [of app block_offset] pad Let_def prod.case len t_def [symmetric]
    by (simp split: prod.splits)
  show ?case
  proof (cases "length d \<le> n")
    case True
    with loop_eq img_eq v1 show ?thesis by (simp add: d_def)
  next
    case False
    then have nv: "n = BLOCK_SIZE - bo - HEADER_SIZE" by (auto simp: n_def)
    have "frag_measure ?bo1 (length (rest s1)) < frag_measure block_offset (length (rest s))"
      using frag_measure_decreases [OF pad [symmetric], of "length d"] False nv v1(2)
      by (simp add: d_def)
    from less.hyps [OF this v1(1) n(3), of ?b1 False] False loop_eq img_eq v1(2)
    show ?thesis by (auto simp: d_def)
  qed
qed

lemma fragment_from_image:
  assumes "initial s" "block_offset \<le> BLOCK_SIZE"
  shows "\<exists>s'. fragment_from app appd total_len s b block_offset =
           Some (s', b @ fst (frame_image app block_offset (rest s) True),
                 snd (frame_image app block_offset (rest s) True))"
  using fragment_loop_image [OF initial_valid [OF assms(1)] assms(2), of app b True]
  by (auto simp: fragment_from_def total_len_rest [OF assms(1)])

end

section \<open>Slices as a source\<close>

definition slice_append :: "bytes append_exact" where
  "slice_append s b n = (if n \<le> length s then Some (drop n s, b @ take n s) else None)"

definition slice_total_len :: "bytes \<Rightarrow> nat" where
  "slice_total_len s = length s"

interpretation slice: record_source slice_append slice_total_len "\<lambda>_. True" "\<lambda>_. True" "\<lambda>s. s"
  by unfold_locales (simp_all add: slice_append_def slice_total_len_def)

definition fragment_into :: "crc_append \<Rightarrow> bytes \<Rightarrow> bytes \<Rightarrow> nat \<Rightarrow> (bytes \<times> nat) option" where
  "fragment_into app d b block_offset =
     Option.bind (fragment_from app slice_append slice_total_len d b block_offset)
       (\<lambda>(_, b, bo). Some (b, bo))"

lemma fragment_into_image:
  assumes "block_offset \<le> BLOCK_SIZE"
  shows "fragment_into app d b block_offset =
    Some (b @ fst (frame_image app block_offset d True), snd (frame_image app block_offset d True))"
  using slice.fragment_from_image [OF TrueI assms, of app d b]
  by (auto simp: fragment_into_def)

section \<open>Layout of an image\<close>

lemma frame_image_fits:
  assumes "pad_block [] block_offset = (p, bo)" "length d \<le> BLOCK_SIZE - bo - HEADER_SIZE"
  shows "frame_image app block_offset d True =
    (p @ phys_record app Full d, bo + (HEADER_SIZE + length d))"
  using assms by (simp add: frame_image.simps [of app block_offset] fragment_type_def)

text \<open>The block offset the fragmenter returns is the alignment of the bytes emitted.\<close>

lemma pad_block_aligned:
  assumes "pad_block [] block_offset = (p, bo)" "block_offset \<le> BLOCK_SIZE"
  shows "(block_offset + length p) mod BLOCK_SIZE = bo mod BLOCK_SIZE"
  using assms by (auto simp: pad_block_def Let_def split: if_splits)

lemma frame_image_aligned:
  assumes "block_offset \<le> BLOCK_SIZE"
  shows "snd (frame_image app block_offset d begin') \<le> BLOCK_SIZE \<and>
    (block_offset + length (fst (frame_image app block_offset d begin'))) mod BLOCK_SIZE =
      snd (frame_image app block_offset d begin') mod BLOCK_SIZE"
  using assms
proof (induction app block_offset d begin' rule: frame_image.induct)
  case (1 app block_offset d begin')
  obtain p bo where pad: "pad_block [] block_offset = (p, bo)" by fastforce
  define n where "n = min (length d) (BLOCK_SIZE - bo - HEADER_SIZE)"
  let ?t = "fragment_type begin' (length d \<le> n)" and ?bo1 = "bo + (HEADER_SIZE + n)"
  let ?rest = "frame_image app ?bo1 (drop n d) False"
  have bo1: "?bo1 \<le> BLOCK_SIZE" "n \<le> length d"
    using pad_block_bounds(1) [OF pad] by (auto simp: n_def)
  have al: "(block_offset + length (p @ phys_record app ?t (take n d))) mod BLOCK_SIZE =
      ?bo1 mod BLOCK_SIZE"
    using pad_block_aligned [OF pad "1.prems"] bo1(2)
    by (simp add: min_absorb2) (metis add.assoc mod_add_left_eq)
  have img: "frame_image app block_offset d begin' =
      (if length d \<le> n then (p @ phys_record app ?t (take n d), ?bo1)
       else (p @ phys_record app ?t (take n d) @ fst ?rest, snd ?rest))"
    unfolding frame_image.simps [of app block_offset] pad Let_def prod.case n_def [symmetric]
    by (simp split: prod.splits)
  show ?case
  proof (cases "length d \<le> n")
    case True
    with img al bo1 show ?thesis by simp
  next
    case False
    have IH: "snd ?rest \<le> BLOCK_SIZE \<and>
        (?bo1 + length (fst ?rest)) mod BLOCK_SIZE = snd ?rest mod BLOCK_SIZE"
      using "1.IH" [OF pad [symmetric] refl n_def refl False bo1(1)] by simp
    have "(block_offset + length (p @ phys_record app ?t (take n d) @ fst ?rest)) mod BLOCK_SIZE =
        ((block_offset + length (p @ phys_record app ?t (take n d))) + length (fst ?rest)) mod BLOCK_SIZE"
      by (simp add: add.assoc)
    also have "\<dots> = (?bo1 + length (fst ?rest)) mod BLOCK_SIZE"
      using al by (metis mod_add_left_eq)
    finally show ?thesis using IH False img by simp
  qed
qed

lemma frame_image_length:
  "HEADER_SIZE + length d \<le> length (fst (frame_image app block_offset d begin'))"
proof (induction app block_offset d begin' rule: frame_image.induct)
  case (1 app block_offset d begin')
  obtain p bo where pad: "pad_block [] block_offset = (p, bo)" by fastforce
  define n where "n = min (length d) (BLOCK_SIZE - bo - HEADER_SIZE)"
  have n: "n \<le> length d" by (simp add: n_def)
  let ?rest = "frame_image app (bo + (HEADER_SIZE + n)) (drop n d) False"
  have img: "length (fst (frame_image app block_offset d begin')) =
      length p + HEADER_SIZE + n + (if length d \<le> n then 0 else length (fst ?rest))"
    unfolding frame_image.simps [of app block_offset] pad Let_def prod.case n_def [symmetric]
    using n by (simp split: prod.splits)
  show ?case
  proof (cases "length d \<le> n")
    case False
    have "HEADER_SIZE + length (drop n d) \<le> length (fst ?rest)"
      using "1.IH" [OF pad [symmetric] refl n_def refl False] .
    with img False show ?thesis by simp
  qed (use img n in simp)
qed

section \<open>Single-fragment fast paths\<close>

definition encode_one_op_full_detached :: "crc_append \<Rightarrow> write_op \<Rightarrow> bytes option" where
  "encode_one_op_full_detached app x =
     (let logical = 5 + 1 + 8 + 4 + length (op_key x) + 4 + length (bytes_of (op_value x)) in
      if BLOCK_SIZE < HEADER_SIZE + logical then None
      else write_physical_header app Full logical 0
        (replicate HEADER_SIZE 0 @ [WRITE_RECORD_VERSION] @ to_le_bytes (1 :: u32) @
         [as_u8 (op_kind x)] @ to_le_bytes (op_sequence x) @
         to_le_bytes (u32_try_from (length (op_key x))) @ op_key x @
         to_le_bytes (u32_try_from (length (bytes_of (op_value x)))) @ bytes_of (op_value x)))"

definition fragment_one_op ::
  "crc_append \<Rightarrow> write_op \<Rightarrow> bytes \<Rightarrow> nat \<Rightarrow> (nat \<times> bytes \<times> nat) option" where
  "fragment_one_op app x b block_offset =
     (if BLOCK_SIZE < block_offset then None
      else let leftover = BLOCK_SIZE - block_offset in
        if leftover < HEADER_SIZE then None
        else Option.bind (encode_one_op_full_detached app x) (\<lambda>rec.
          if leftover < length rec then None
          else Some (length rec - HEADER_SIZE, b @ rec, block_offset + length rec)))"

definition take_preframed_layout :: "nat \<Rightarrow> nat \<Rightarrow> (nat \<times> nat) option" where
  "take_preframed_layout rec_len block_offset =
     (if rec_len = 0 \<or> BLOCK_SIZE < rec_len then None
      else let leftover = BLOCK_SIZE - block_offset;
               pad = (if leftover < HEADER_SIZE then leftover else 0);
               room = (if leftover < HEADER_SIZE then BLOCK_SIZE else leftover)
        in if room < rec_len then None
           else Some (pad, (if leftover < HEADER_SIZE then 0 else block_offset) + rec_len))"

lemma record_image_single:
  "record_image [x] = WRITE_RECORD_VERSION # to_le_bytes (1 :: u32) @ op_image False x"
  by (simp add: record_image_def reuses_def u32_try_from_def)

lemma encode_one_op_image:
  "encode_one_op_full_detached app x =
     (if BLOCK_SIZE < HEADER_SIZE + length (record_image [x]) then None
      else Some (phys_record app Full (record_image [x])))"
proof -
  have len: "5 + 1 + 8 + 4 + length (op_key x) + 4 + length (bytes_of (op_value x)) =
      length (record_image [x])"
    by (simp add: record_image_single op_image_def)
  have body: "[WRITE_RECORD_VERSION] @ to_le_bytes (1 :: u32) @ [as_u8 (op_kind x)] @
      to_le_bytes (op_sequence x) @ to_le_bytes (u32_try_from (length (op_key x))) @ op_key x @
      to_le_bytes (u32_try_from (length (bytes_of (op_value x)))) @ bytes_of (op_value x) =
      record_image [x]"
    by (simp add: record_image_single op_image_def)
  show ?thesis
    unfolding encode_one_op_full_detached_def len Let_def body
    using write_header_phys [of "record_image [x]" app Full "[]"]
    by (auto simp: BLOCK_SIZE_def)
qed

lemma fragment_one_op_image:
  assumes "fragment_one_op app x b block_offset = Some (n, b', bo')"
  shows "n = length (record_image [x]) \<and>
    b' = b @ fst (frame_image app block_offset (record_image [x]) True) \<and>
    bo' = snd (frame_image app block_offset (record_image [x]) True)"
proof -
  have "pad_block [] block_offset = ([], block_offset)"
    and "length (record_image [x]) \<le> BLOCK_SIZE - block_offset - HEADER_SIZE"
    and "n = length (record_image [x])" "b' = b @ phys_record app Full (record_image [x])"
    and "bo' = block_offset + (HEADER_SIZE + length (record_image [x]))"
    using assms
    by (auto simp: fragment_one_op_def encode_one_op_image Let_def pad_block_def bind_eq_Some_conv
        split: if_splits)
  then show ?thesis by (simp add: frame_image_fits)
qed

lemma preframed_image:
  assumes "take_preframed_layout (length rec) block_offset = Some (pad, bo')"
    and "encode_one_op_full_detached app x = Some rec" "block_offset \<le> BLOCK_SIZE"
  shows "replicate pad 0 @ rec = fst (frame_image app block_offset (record_image [x]) True) \<and>
    bo' = snd (frame_image app block_offset (record_image [x]) True)"
proof -
  have rec: "rec = phys_record app Full (record_image [x])"
    using assms(2) by (simp add: encode_one_op_image split: if_splits)
  obtain p bo where pad: "pad_block [] block_offset = (p, bo)" by fastforce
  then have "p = replicate pad 0" "length (record_image [x]) \<le> BLOCK_SIZE - bo - HEADER_SIZE"
    "bo' = bo + (HEADER_SIZE + length (record_image [x]))"
    using assms(1)
    by (auto simp: take_preframed_layout_def rec Let_def pad_block_def split: if_splits)
  with frame_image_fits [OF pad] show ?thesis by (simp add: rec)
qed

section \<open>Properties\<close>

text \<open>C29. Framing keeps the writer's place: from any block offset inside a block, fragmenting
  a record only appends to the buffer, never panics, and leaves a block offset inside the
  block that is the old one advanced by the number of bytes appended, modulo the block size.\<close>

theorem framing_keeps_alignment:
  assumes "block_offset \<le> BLOCK_SIZE"
  shows "\<exists>new bo'. fragment_into app d b block_offset = Some (b @ new, bo') \<and>
    HEADER_SIZE + length d \<le> length new \<and> bo' \<le> BLOCK_SIZE \<and>
    bo' mod BLOCK_SIZE = (block_offset + length new) mod BLOCK_SIZE"
  using assms frame_image_aligned [OF assms, of app d True] frame_image_length [of d app block_offset True]
  by (simp add: fragment_into_image)

theorem framing_keeps_alignment_witness:
  "\<exists>new bo'. fragment_into (\<lambda>c bs. c) [1, 2] [9] 32761 = Some ([9] @ new, bo') \<and>
    HEADER_SIZE + length [1 :: byte, 2] \<le> length new \<and> bo' \<le> BLOCK_SIZE \<and>
    bo' mod BLOCK_SIZE = (32761 + length new) mod BLOCK_SIZE"
  by (rule framing_keeps_alignment) (simp add: BLOCK_SIZE_def)

end
