(* ===== verification/Wal_Seal.thy ===== *)
theory Wal_Seal
  imports Wal_Format
begin

text \<open>
  Preallocated WAL segments and their sentinel seal (\<open>wal_segment_seal_kernel.rs\<close>):
  the allocation tracker, the 16-byte seal frame, and the parser recovery uses to
  tell a sealed end of log from preallocated zeroes and from corruption.
\<close>

section \<open>The tracker\<close>

definition SEAL_MAGIC :: u32 where
  "SEAL_MAGIC = 0x5345414C"

definition SEAL_FRAME_LEN :: nat where
  "SEAL_FRAME_LEN = 16"

datatype wal_seal_error =
    AlreadySealed
  | ExceedsCapacity u64 u64
  | InsufficientHeadroomForSeal u64 nat
  | InvalidPreallocationSize u64

datatype seal_corruption =
  SealTooShort | InvalidSealMagic u32 | SealCrcMismatch u32 u32 | NonZeroAfterSeal

datatype seal_parse_result = ValidSeal u64 | TrailingZeroes | CorruptFrame seal_corruption

record wal_prealloc =
  allocated_bytes :: u64
  logical_bytes :: u64
  sealed :: bool

definition try_new :: "u64 \<Rightarrow> (wal_seal_error, wal_prealloc) result" where
  "try_new allocated =
     (if allocated = 0 then Inl (InvalidPreallocationSize 0)
      else Inr \<lparr>allocated_bytes = allocated, logical_bytes = 0, sealed = False\<rparr>)"

definition remaining_headroom :: "wal_prealloc \<Rightarrow> u64" where
  "remaining_headroom t = sat_sub64 (allocated_bytes t) (logical_bytes t)"

definition can_append :: "wal_prealloc \<Rightarrow> u64 \<Rightarrow> bool" where
  "can_append t len =
     (if sealed t then False else sat_add64 (logical_bytes t) len \<le> allocated_bytes t)"

definition advance_logical ::
  "wal_prealloc \<Rightarrow> u64 \<Rightarrow> (wal_seal_error, unit) result \<times> wal_prealloc" where
  "advance_logical t len =
     (if sealed t then (Inl AlreadySealed, t)
      else let new_offset = sat_add64 (logical_bytes t) len in
        if allocated_bytes t < new_offset
        then (Inl (ExceedsCapacity len (remaining_headroom t)), t)
        else (Inr (), t\<lparr>logical_bytes := new_offset\<rparr>))"

definition seal_frame :: "crc_append \<Rightarrow> u64 \<Rightarrow> bytes" where
  "seal_frame app eof =
     (let head = to_le_bytes SEAL_MAGIC @ to_le_bytes eof in
      head @ to_le_bytes (crc32c app head))"

definition encode_seal ::
  "crc_append \<Rightarrow> wal_prealloc \<Rightarrow> (wal_seal_error, bytes) result \<times> wal_prealloc" where
  "encode_seal app t =
     (if sealed t then (Inl AlreadySealed, t)
      else if allocated_bytes t < sat_add64 (logical_bytes t) (word_of_nat SEAL_FRAME_LEN)
      then (Inl (InsufficientHeadroomForSeal (remaining_headroom t) SEAL_FRAME_LEN), t)
      else (Inr (seal_frame app (logical_bytes t)),
            t\<lparr>logical_bytes := sat_add64 (logical_bytes t) (word_of_nat SEAL_FRAME_LEN),
              sealed := True\<rparr>))"

section \<open>The parser\<close>

text \<open>Eight bytes at a time, then the remainder.  Whether a chunk is zero does not
  depend on the byte order it is read in.\<close>

function verify_trailing_zeroes :: "bytes \<Rightarrow> bool" where
  "verify_trailing_zeroes b =
     (if length b < 8 then list_all (\<lambda>x. x = 0) b
      else if (from_le_bytes (take 8 b) :: u64) \<noteq> 0 then False
      else verify_trailing_zeroes (drop 8 b))"
  by pat_completeness auto
termination by (relation "measure length") auto

declare verify_trailing_zeroes.simps [simp del]

definition parse_frame_or_seal :: "crc_append \<Rightarrow> bytes \<Rightarrow> seal_parse_result" where
  "parse_frame_or_seal app b =
     (if b = [] then TrailingZeroes
      else if verify_trailing_zeroes b then TrailingZeroes
      else if length b < SEAL_FRAME_LEN then CorruptFrame SealTooShort
      else let magic = (from_le_bytes (take 4 b) :: u32) in
        if magic \<noteq> SEAL_MAGIC then CorruptFrame (InvalidSealMagic magic)
        else let logical_eof = from_le_bytes (take 8 (drop 4 b));
                 expected_crc = from_le_bytes (take 4 (drop 12 b));
                 actual_crc = crc32c app (take 12 b) in
          if actual_crc \<noteq> expected_crc
          then CorruptFrame (SealCrcMismatch expected_crc actual_crc)
          else ValidSeal logical_eof)"

definition parse_and_verify_seal_extent :: "crc_append \<Rightarrow> bytes \<Rightarrow> seal_parse_result" where
  "parse_and_verify_seal_extent app b =
     (if b = [] then TrailingZeroes
      else if verify_trailing_zeroes b then TrailingZeroes
      else case parse_frame_or_seal app (take (min SEAL_FRAME_LEN (length b)) b) of
          ValidSeal eof \<Rightarrow>
            (if \<not> verify_trailing_zeroes (drop SEAL_FRAME_LEN b)
             then CorruptFrame NonZeroAfterSeal else ValidSeal eof)
        | other \<Rightarrow> other)"

fun determine_recovery_truncation_offset :: "seal_parse_result \<Rightarrow> u64 \<Rightarrow> u64 option" where
  "determine_recovery_truncation_offset (ValidSeal eof) last_valid =
     Some (sat_add64 eof (word_of_nat SEAL_FRAME_LEN))"
| "determine_recovery_truncation_offset TrailingZeroes last_valid = Some last_valid"
| "determine_recovery_truncation_offset (CorruptFrame c) last_valid = None"

section \<open>Zero runs\<close>

lemma le_val_zero: "le_val b = 0 \<longleftrightarrow> (\<forall>x \<in> set b. x = 0)"
  by (induction b) (auto simp: unat_eq_0)

lemma chunk_zero:
  assumes "length b = 8"
  shows "(from_le_bytes b :: u64) = 0 \<longleftrightarrow> (\<forall>x \<in> set b. x = 0)"
proof -
  have "le_val b < 2 ^ 64" using le_val_less [of b] assms by simp
  then have "(from_le_bytes b :: u64) = 0 \<longleftrightarrow> le_val b = 0"
    using nat_dvd_not_less [of "le_val b" "2 ^ 64"]
    by (auto simp: from_le_bytes_def word_of_nat_eq_0_iff)
  then show ?thesis by (simp add: le_val_zero)
qed

lemma verify_trailing_zeroes_iff: "verify_trailing_zeroes b \<longleftrightarrow> (\<forall>x \<in> set b. x = 0)"
proof (induction b rule: verify_trailing_zeroes.induct)
  case (1 b)
  show ?case
  proof (cases "length b < 8")
    case True
    then show ?thesis by (simp add: verify_trailing_zeroes.simps list_all_iff)
  next
    case False
    have "set b = set (take 8 b) \<union> set (drop 8 b)" by (metis append_take_drop_id set_append)
    with False 1 show ?thesis
      by (subst verify_trailing_zeroes.simps) (auto simp: chunk_zero)
  qed
qed

section \<open>The seal\<close>

lemma length_seal_frame: "length (seal_frame app eof) = SEAL_FRAME_LEN"
  by (simp add: seal_frame_def Let_def SEAL_FRAME_LEN_def)

lemma seal_frame_not_zero: "\<not> (\<forall>x \<in> set (seal_frame app eof @ rest). x = 0)"
proof -
  have "to_le_bytes SEAL_MAGIC = [0x4C, 0x41, 0x45, 0x53]"
    by (simp add: le_bytes_eval SEAL_MAGIC_def)
  then show ?thesis by (simp add: seal_frame_def Let_def)
qed

lemma parse_seal_frame: "parse_frame_or_seal app (seal_frame app eof) = ValidSeal eof"
proof -
  have "seal_frame app eof \<noteq> []" using seal_frame_not_zero [of app eof "[]"] by auto
  moreover have "\<not> verify_trailing_zeroes (seal_frame app eof)"
    using seal_frame_not_zero [of app eof "[]"] by (simp add: verify_trailing_zeroes_iff)
  ultimately show ?thesis
    unfolding parse_frame_or_seal_def by (simp add: seal_frame_def Let_def SEAL_FRAME_LEN_def)
qed

lemma parse_seal_extent:
  "parse_and_verify_seal_extent app (seal_frame app eof @ tail) =
     (if \<forall>x \<in> set tail. x = 0 then ValidSeal eof else CorruptFrame NonZeroAfterSeal)"
proof -
  let ?b = "seal_frame app eof @ tail"
  have "?b \<noteq> []" "\<not> verify_trailing_zeroes ?b"
    using seal_frame_not_zero [of app eof tail] by (auto simp: verify_trailing_zeroes_iff)
  moreover have "take (min SEAL_FRAME_LEN (length ?b)) ?b = seal_frame app eof"
    "drop SEAL_FRAME_LEN ?b = tail"
    by (simp_all add: length_seal_frame)
  ultimately show ?thesis
    by (simp add: parse_and_verify_seal_extent_def parse_seal_frame verify_trailing_zeroes_iff
        del: take_append drop_append)
qed

section \<open>Reachable trackers\<close>

inductive prealloc_reach :: "crc_append \<Rightarrow> u64 \<Rightarrow> wal_prealloc \<Rightarrow> bool" for app n where
  create: "try_new n = Inr t \<Longrightarrow> prealloc_reach app n t"
| append: "prealloc_reach app n t \<Longrightarrow> prealloc_reach app n (snd (advance_logical t len))"
| seal: "prealloc_reach app n t \<Longrightarrow> prealloc_reach app n (snd (encode_seal app t))"

inductive_cases prealloc_reachE: "prealloc_reach app n t"

definition wf_prealloc :: "u64 \<Rightarrow> wal_prealloc \<Rightarrow> bool" where
  "wf_prealloc n t \<longleftrightarrow> allocated_bytes t = n \<and> n \<noteq> 0 \<and> logical_bytes t \<le> allocated_bytes t \<and>
     (sealed t \<longrightarrow> SEAL_FRAME_LEN \<le> unat (logical_bytes t))"

lemma wf_create: "try_new n = Inr t \<Longrightarrow> wf_prealloc n t"
  by (auto simp: try_new_def wf_prealloc_def split: if_splits)

lemma wf_advance: "wf_prealloc n t \<Longrightarrow> wf_prealloc n (snd (advance_logical t len))"
  by (auto simp: advance_logical_def wf_prealloc_def Let_def not_less)

lemma wf_encode_seal: "wf_prealloc n t \<Longrightarrow> wf_prealloc n (snd (encode_seal app t))"
  using unat_sat_add64 [of "logical_bytes t" "word_of_nat SEAL_FRAME_LEN"]
  by (auto simp: encode_seal_def wf_prealloc_def not_less SEAL_FRAME_LEN_def)

section \<open>Properties\<close>

text \<open>C25. However a segment is used, its logical end stays within the preallocated
  extent, the extent never changes, and a segment that has been sealed holds at
  least its seal and refuses every further append and seal without changing.\<close>

theorem prealloc_extent_invariant:
  assumes "prealloc_reach app n t"
  shows "logical_bytes t \<le> allocated_bytes t \<and> allocated_bytes t = n \<and> n \<noteq> 0 \<and>
    (sealed t \<longrightarrow> SEAL_FRAME_LEN \<le> unat (logical_bytes t) \<and>
       advance_logical t len = (Inl AlreadySealed, t) \<and> encode_seal app t = (Inl AlreadySealed, t) \<and>
       \<not> can_append t len)"
proof -
  have "wf_prealloc n t"
    using assms by induction (simp_all add: wf_create wf_advance wf_encode_seal)
  then show ?thesis
    by (auto simp: wf_prealloc_def advance_logical_def encode_seal_def can_append_def)
qed

theorem prealloc_extent_invariant_witness:
  "let t = snd (encode_seal (\<lambda>c bs. c) (snd (advance_logical
       \<lparr>allocated_bytes = 64, logical_bytes = 0, sealed = False\<rparr> 40)))
   in sealed t \<and> logical_bytes t = 56 \<and> 56 \<le> allocated_bytes t \<and>
      fst (advance_logical t 1) = Inl AlreadySealed"
proof -
  let ?app = "\<lambda>c bs. c :: u32"
  let ?t = "snd (encode_seal ?app (snd (advance_logical
       \<lparr>allocated_bytes = 64, logical_bytes = 0, sealed = False\<rparr> 40)))"
  have "prealloc_reach ?app 64 ?t"
    by (intro prealloc_reach.intros) (simp add: try_new_def)
  note inv = prealloc_extent_invariant [OF this, of 1]
  have "sealed ?t" "logical_bytes ?t = 56"
    by (simp_all add: encode_seal_def advance_logical_def sat_add64_def SEAL_FRAME_LEN_def Let_def)
  with inv show ?thesis by (simp add: Let_def)
qed

text \<open>C26. Recovery recognises a seal: when sealing succeeds, the frame followed by
  preallocated zeroes parses back to the logical end at which it was written, and the
  truncation offset is exactly the tracker's new logical end; a single non-zero byte
  behind the seal makes recovery refuse the extent.\<close>

theorem seal_recovered_exactly:
  assumes "encode_seal app t = (Inr frame, t')"
  shows "parse_and_verify_seal_extent app (frame @ replicate k 0) = ValidSeal (logical_bytes t) \<and>
    determine_recovery_truncation_offset
      (parse_and_verify_seal_extent app (frame @ replicate k 0)) lvo = Some (logical_bytes t') \<and>
    sealed t' \<and> length frame = SEAL_FRAME_LEN \<and>
    (b \<noteq> 0 \<longrightarrow> determine_recovery_truncation_offset
      (parse_and_verify_seal_extent app (frame @ replicate k 0 @ b # rest)) lvo = None)"
proof -
  have frame: "frame = seal_frame app (logical_bytes t)"
    and t': "t' = t\<lparr>logical_bytes := sat_add64 (logical_bytes t) (word_of_nat SEAL_FRAME_LEN),
      sealed := True\<rparr>"
    using assms by (auto simp: encode_seal_def split: if_splits)
  show ?thesis
    by (simp add: frame t' parse_seal_extent length_seal_frame)
qed

theorem seal_recovered_exactly_witness:
  "let frame = seal_frame (\<lambda>c bs. c + 7) 40
   in determine_recovery_truncation_offset
        (parse_and_verify_seal_extent (\<lambda>c bs. c + 7) (frame @ replicate 8 0)) 0 = Some 56 \<and>
      determine_recovery_truncation_offset
        (parse_and_verify_seal_extent (\<lambda>c bs. c + 7) (frame @ replicate 3 0 @ [9])) 0 = None"
proof -
  let ?app = "\<lambda>c bs. c + 7 :: u32"
  let ?t = "\<lparr>allocated_bytes = 64, logical_bytes = 40, sealed = False\<rparr>"
  have enc: "encode_seal ?app ?t =
      (Inr (seal_frame ?app 40), \<lparr>allocated_bytes = 64, logical_bytes = 56, sealed = True\<rparr>)"
    by (simp add: encode_seal_def sat_add64_def SEAL_FRAME_LEN_def)
  have "(9 :: byte) \<noteq> 0" by simp
  with seal_recovered_exactly [OF enc, of 8 0 9 "[]"] seal_recovered_exactly [OF enc, of 3 0 9 "[]"]
  show ?thesis unfolding Let_def by auto
qed

end
