(* ===== verification/Wal_Reader.thy ===== *)
theory Wal_Reader
  imports Wal_Frame Wal_Seal
begin

text \<open>
  The WAL reader (\<open>wal/reader_kernel.rs\<close>): block-wise reading, recognition of physical
  records, reassembly of fragments, and the collecting loop with its resynchronisation
  policy.  The byte source is the remaining input; it may also fail instead of
  signalling end of file.  Both loops are total functions: every iteration consumes
  input.
\<close>

section \<open>Errors and their classification\<close>

datatype wal_msg =
    CorruptSealAt nat seal_corruption
  | UnknownRecordTypeAt byte nat
  | LengthExceedsMaxPayload nat nat nat
  | LengthExceedsBlock nat nat
  | OrphanFragmentAt record_type nat
  | KeepRecordWithoutRecord
  | FailStopOnCleanRead
  | OffsetPastBlock nat nat

datatype wal_error =
    Io
  | TruncatedAt nat
  | CrcMismatch nat u32 u32
  | WalZeroHeader nat
  | Internal wal_msg

text \<open>The fixed text of the messages (the interpolated numbers and the seal reason
  contain none of the phrases the classifier looks for).\<close>

fun msg_text :: "wal_msg \<Rightarrow> string" where
  "msg_text (CorruptSealAt off c) = ''Corrupt seal frame at offset : ''"
| "msg_text (UnknownRecordTypeAt b off) = ''unknown record type  at stream offset ''"
| "msg_text (LengthExceedsMaxPayload len m off) =
     ''WAL record length  exceeds max physical payload  at offset ''"
| "msg_text (LengthExceedsBlock len off) =
     ''WAL record length  exceeds remainder of full block at offset ''"
| "msg_text (OrphanFragmentAt t off) =
     (if t = Middle then ''WAL orphan Middle fragment at offset ''
      else ''WAL orphan Last fragment at offset '')"
| "msg_text KeepRecordWithoutRecord = ''WAL recover KeepRecord without a record''"
| "msg_text FailStopOnCleanRead = ''WAL recover fail-stop on clean read''"
| "msg_text (OffsetPastBlock off start) = ''WAL offset  past end of block starting at ''"

fun contains :: "string \<Rightarrow> string \<Rightarrow> bool" where
  "contains [] pat = (pat = [])"
| "contains (c # s) pat = (take (length pat) (c # s) = pat \<or> contains s pat)"

fun recover_kind_of :: "wal_error \<Rightarrow> recover_kind" where
  "recover_kind_of (TruncatedAt off) = Truncated"
| "recover_kind_of (CrcMismatch off e f) = Crc"
| "recover_kind_of (WalZeroHeader off) = ZeroHeaderTail"
| "recover_kind_of (Internal m) =
     (if contains (msg_text m) ''orphan'' then OrphanFragment
      else if contains (msg_text m) ''WAL record length'' \<or>
              contains (msg_text m) ''exceeds max physical'' \<or>
              contains (msg_text m) ''exceeds remainder of full block'' then LengthCorrupt
      else if contains (msg_text m) ''unknown record type'' then UnknownType
      else Other)"
| "recover_kind_of Io = Other"

fun recover_kind_from_read :: "(wal_error, bytes option) result \<Rightarrow> recover_kind" where
  "recover_kind_from_read (Inr (Some _)) = Record"
| "recover_kind_from_read (Inr None) = CleanEof"
| "recover_kind_from_read (Inl e) = recover_kind_of e"

section \<open>The reader\<close>

record wal_reader =
  rd_src :: bytes
  rd_fault :: bool
  rd_block :: bytes
  rd_block_end :: nat
  rd_cursor :: nat
  rd_scratch :: bytes
  rd_start :: nat
  rd_last_good :: nat
  rd_pending_resync :: "nat option"
  rd_resync_origin :: "nat option"

definition reader_new :: "bytes \<Rightarrow> bool \<Rightarrow> wal_reader" where
  "reader_new src fault =
     \<lparr>rd_src = src, rd_fault = fault, rd_block = replicate BLOCK_SIZE 0, rd_block_end = 0,
      rd_cursor = 0, rd_scratch = [], rd_start = 0, rd_last_good = 0,
      rd_pending_resync = None, rd_resync_origin = None\<rparr>"

text \<open>The inner \<open>while filled < BLOCK_SIZE\<close> loop reads until the block is full or the
  source is exhausted, whatever the sizes of the single reads.\<close>

definition read_next_block :: "wal_reader \<Rightarrow> (wal_error, bool) result \<times> wal_reader" where
  "read_next_block r =
     (let filled = min BLOCK_SIZE (length (rd_src r));
          r = r\<lparr>rd_start := rd_start r + rd_block_end r, rd_cursor := 0,
               rd_block := take filled (rd_src r) @ drop filled (rd_block r),
               rd_src := drop filled (rd_src r)\<rparr>
      in if filled < BLOCK_SIZE \<and> rd_fault r then (Inl Io, r)
         else (Inr (0 < filled), r\<lparr>rd_block_end := filled\<rparr>))"

definition current_record_stream_offset :: "wal_reader \<Rightarrow> nat" where
  "current_record_stream_offset r = rd_start r + rd_cursor r"

definition reader_from_offset :: "bytes \<Rightarrow> bool \<Rightarrow> nat \<Rightarrow> (wal_error, wal_reader) result" where
  "reader_from_offset file fault offset =
     (let block_start = (offset div BLOCK_SIZE) * BLOCK_SIZE;
          r = (reader_new (drop block_start file) fault)
                \<lparr>rd_start := block_start, rd_last_good := offset\<rparr>
      in case read_next_block r of
           (Inl e, r) \<Rightarrow> Inl e
         | (Inr got, r) \<Rightarrow>
             if \<not> got then Inr r
             else let within = offset - block_start in
               if rd_block_end r < within then Inl (Internal (OffsetPastBlock offset block_start))
               else Inr (r\<lparr>rd_cursor := within\<rparr>))"

section \<open>Reading one logical record\<close>

datatype read_step =
    Return "(wal_error, bytes option) result" wal_reader
  | Again wal_reader

text \<open>The part of an iteration after a header is known to be in the block.\<close>

definition seal_check :: "crc_append \<Rightarrow> wal_reader \<Rightarrow> (wal_error, bytes option) result option" where
  "seal_check app r =
     (if rd_cursor r + SEAL_FRAME_LEN \<le> rd_block_end r then
        let candidate = take SEAL_FRAME_LEN (drop (rd_cursor r) (rd_block r)) in
        if take 4 candidate = to_le_bytes SEAL_MAGIC then
          (case parse_frame_or_seal app candidate of
             ValidSeal _ \<Rightarrow> Some (Inr None)
           | CorruptFrame msg \<Rightarrow>
               Some (Inl (Internal (CorruptSealAt (current_record_stream_offset r) msg)))
           | TrailingZeroes \<Rightarrow> None)
        else None
      else None)"

definition accept_fragment :: "record_type \<Rightarrow> bytes \<Rightarrow> wal_reader \<Rightarrow> read_step" where
  "accept_fragment rtype payload r =
     (case fragment_act (from_record_type rtype) (batch_is_empty (length (rd_scratch r))) of
        Yield \<Rightarrow>
          if rtype = Full then Return (Inr (Some payload)) (r\<lparr>rd_scratch := []\<rparr>)
          else Return (Inr (Some (rd_scratch r @ payload))) (r\<lparr>rd_scratch := []\<rparr>)
      | Start \<Rightarrow> Again (r\<lparr>rd_scratch := payload\<rparr>)
      | Accumulate \<Rightarrow> Again (r\<lparr>rd_scratch := rd_scratch r @ payload\<rparr>)
      | FragFailStop \<Rightarrow>
          Return (Inl (Internal (OrphanFragmentAt rtype (current_record_stream_offset r)))) r
      | Skip \<Rightarrow> Again r
      | FragCleanEof \<Rightarrow> Return (Inr None) r)"

definition read_physical :: "crc_append \<Rightarrow> wal_reader \<Rightarrow> read_step" where
  "read_physical app r =
     (let h = rd_cursor r;
          rtype_byte = rd_block r ! (h + 6);
          len = decode_length [rd_block r ! (h + 4), rd_block r ! (h + 5)]
      in if rtype_byte = record_type_byte Zero \<and> batch_is_empty len then
           (if list_ex (\<lambda>b. b \<noteq> 0)
                 (drop (h + HEADER_SIZE) (take (rd_block_end r) (rd_block r)))
            then Return (Inl (WalZeroHeader (current_record_stream_offset r))) r
            else Again (r\<lparr>rd_cursor := rd_block_end r\<rparr>))
         else case from_byte rtype_byte of
           None \<Rightarrow>
             Return (Inl (Internal (UnknownRecordTypeAt rtype_byte (current_record_stream_offset r)))) r
         | Some rtype \<Rightarrow>
           (let max_payload = BLOCK_SIZE - HEADER_SIZE;
                payload_start = h + HEADER_SIZE;
                payload_end = payload_start + len
            in case physical_payload_act len max_payload payload_end (rd_block_end r) BLOCK_SIZE of
                 PhysFailStop \<Rightarrow>
                   if max_payload < len
                   then Return (Inl (Internal (LengthExceedsMaxPayload len max_payload
                          (current_record_stream_offset r)))) r
                   else Return (Inl (Internal (LengthExceedsBlock len
                          (current_record_stream_offset r)))) r
               | PhysTruncated \<Rightarrow> Return (Inl (TruncatedAt (current_record_stream_offset r))) r
               | PhysCleanEof \<Rightarrow> Return (Inr None) r
               | PhysContinue \<Rightarrow>
                   (let stored_crc = decode_crc (take 4 (drop h (rd_block r)));
                        payload = take len (drop payload_start (rd_block r));
                        actual_crc = record_checksum app rtype_byte (word_of_nat len) payload
                    in if \<not> crc_match_ok stored_crc actual_crc
                       then Return (Inl (CrcMismatch (current_record_stream_offset r)
                              stored_crc actual_crc)) r
                       else accept_fragment rtype payload (r\<lparr>rd_cursor := payload_end\<rparr>))))"

definition read_iter :: "crc_append \<Rightarrow> wal_reader \<Rightarrow> read_step" where
  "read_iter app r =
     (let need = (rd_block_end r < rd_cursor r + HEADER_SIZE);
          filled = (if need then read_next_block r else (Inr True, r))
      in case filled of
           (Inl e, r) \<Rightarrow> Return (Inl e) r
         | (Inr got, r) \<Rightarrow>
             if need \<and> (\<not> got \<or> rd_block_end r < rd_cursor r + HEADER_SIZE)
             then Return (Inr None) r
             else case seal_check app r of
               Some res \<Rightarrow> Return res r
             | None \<Rightarrow> read_physical app r)"

definition rd_measure :: "wal_reader \<Rightarrow> nat" where
  "rd_measure r = 2 * length (rd_src r) + (rd_block_end r - rd_cursor r)"

lemma read_next_block_Inr:
  assumes "read_next_block r = (Inr got, r')"
  shows "rd_src r' = drop BLOCK_SIZE (rd_src r)"
    and "rd_block_end r' = min BLOCK_SIZE (length (rd_src r))"
    and "rd_cursor r' = 0" "rd_start r' = rd_start r + rd_block_end r"
    and "take (rd_block_end r') (rd_block r') = take BLOCK_SIZE (rd_src r)"
    and "got \<longleftrightarrow> rd_src r \<noteq> []" "rd_scratch r' = rd_scratch r"
  using assms
  by (auto simp: read_next_block_def Let_def BLOCK_SIZE_def min_def split: if_splits)

lemma read_next_block_measure:
  assumes "read_next_block r = (Inr got, r')"
  shows "rd_measure r' \<le> 2 * length (rd_src r)" "got \<Longrightarrow> rd_measure r' < 2 * length (rd_src r)"
proof -
  define n where "n = min BLOCK_SIZE (length (rd_src r))"
  note facts = read_next_block_Inr [OF assms]
  have "length (rd_src r') = length (rd_src r) - n" "rd_block_end r' = n"
    using facts by (simp_all add: n_def)
  then have m: "rd_measure r' = 2 * (length (rd_src r) - n) + n"
    using facts(3) by (simp add: rd_measure_def)
  have n: "n \<le> length (rd_src r)" by (simp add: n_def)
  show "rd_measure r' \<le> 2 * length (rd_src r)" using m n by linarith
  assume got
  with facts(6) have "0 < n" by (simp add: n_def BLOCK_SIZE_def)
  with m n show "rd_measure r' < 2 * length (rd_src r)" by linarith
qed

lemma accept_fragment_measure:
  "accept_fragment t payload r = Again r' \<Longrightarrow> rd_measure r' = rd_measure r"
  "accept_fragment t payload r = Return res r' \<Longrightarrow> rd_measure r' = rd_measure r"
  by (auto simp: accept_fragment_def rd_measure_def split: frag_act.splits if_splits)

text \<open>Bookkeeping for one iteration on a block that holds a whole header.\<close>

lemma read_physical_measure:
  assumes "rd_cursor r + HEADER_SIZE \<le> rd_block_end r"
  shows "read_physical app r = Again r' \<Longrightarrow> rd_measure r' < rd_measure r"
    and "read_physical app r = Return (Inr (Some d)) r' \<Longrightarrow> rd_measure r' < rd_measure r"
    and "read_physical app r = Return res r' \<Longrightarrow> rd_measure r' \<le> rd_measure r"
proof -
  have adv: "rd_measure (r\<lparr>rd_cursor := c\<rparr>) < rd_measure r" if "rd_cursor r < c" "c \<le> rd_block_end r" for c
    using that by (simp add: rd_measure_def)
  have pos: "rd_cursor r < rd_block_end r" using assms by (simp add: HEADER_SIZE_def)
  show "read_physical app r = Again r' \<Longrightarrow> rd_measure r' < rd_measure r"
    using pos
    by (auto simp: read_physical_def Let_def physical_payload_act_def adv HEADER_SIZE_def
        dest!: accept_fragment_measure split: if_splits option.splits)
  show "read_physical app r = Return (Inr (Some d)) r' \<Longrightarrow> rd_measure r' < rd_measure r"
    using pos
    by (auto simp: read_physical_def Let_def physical_payload_act_def adv HEADER_SIZE_def
        dest!: accept_fragment_measure split: if_splits option.splits)
  show "read_physical app r = Return res r' \<Longrightarrow> rd_measure r' \<le> rd_measure r"
    using pos adv [THEN less_imp_le]
    by (auto simp: read_physical_def Let_def physical_payload_act_def HEADER_SIZE_def
        dest!: accept_fragment_measure split: if_splits option.splits)
qed

lemma seal_check_no_record: "seal_check app r \<noteq> Some (Inr (Some d))"
  by (auto simp: seal_check_def Let_def split: if_splits seal_parse_result.splits)

text \<open>The reader an iteration works on once a block is available.\<close>

lemma read_iter_cases:
  obtains (io) r1 where "read_iter app r = Return (Inl Io) r1"
  | (eof) r1 where "read_iter app r = Return (Inr None) r1" "rd_measure r1 \<le> rd_measure r"
  | (seal) r1 res where "read_iter app r = Return res r1" "rd_measure r1 \<le> rd_measure r"
      "seal_check app r1 = Some res"
  | (phys) r1 where "read_iter app r = read_physical app r1" "rd_measure r1 \<le> rd_measure r"
      "rd_cursor r1 + HEADER_SIZE \<le> rd_block_end r1"
proof (cases "rd_block_end r < rd_cursor r + HEADER_SIZE")
  case need: True
  obtain res r1 where nb: "read_next_block r = (res, r1)" by fastforce
  show thesis
  proof (cases res)
    case (Inl e)
    then have "e = Io" using nb by (auto simp: read_next_block_def Let_def split: if_splits)
    with Inl nb need show thesis by (intro io) (simp add: read_iter_def)
  next
    case (Inr got)
    then have nbI: "read_next_block r = (Inr got, r1)" using nb by simp
    have m: "rd_measure r1 \<le> rd_measure r"
      using read_next_block_measure(1) [OF nbI] by (simp add: rd_measure_def)
    show thesis
    proof (cases "\<not> got \<or> rd_block_end r1 < rd_cursor r1 + HEADER_SIZE")
      case True
      with nbI need m show thesis by (intro eof) (auto simp: read_iter_def)
    next
      case False
      then have f: "read_iter app r = (case seal_check app r1 of
          Some res \<Rightarrow> Return res r1 | None \<Rightarrow> read_physical app r1)"
        using nbI need by (auto simp: read_iter_def split: option.splits)
      show thesis
      proof (cases "seal_check app r1")
        case None
        with f m False show thesis by (intro phys) auto
      next
        case (Some res)
        with f m show thesis by (intro seal) auto
      qed
    qed
  qed
next
  case False
  show thesis
  proof (cases "seal_check app r")
    case None
    with False show thesis by (intro phys [of r]) (auto simp: read_iter_def)
  next
    case (Some res)
    with False show thesis by (intro seal [of res r]) (auto simp: read_iter_def)
  qed
qed

lemma read_iter_measure:
  "read_iter app r = Again r' \<Longrightarrow> rd_measure r' < rd_measure r"
  "read_iter app r = Return (Inr (Some d)) r' \<Longrightarrow> rd_measure r' < rd_measure r"
  "\<lbrakk>read_iter app r = Return res r'; res \<noteq> Inl Io\<rbrakk> \<Longrightarrow> rd_measure r' \<le> rd_measure r"
proof -
  show "read_iter app r = Again r' \<Longrightarrow> rd_measure r' < rd_measure r"
    by (cases rule: read_iter_cases [of app r])
      (auto dest!: read_physical_measure(1) intro: less_le_trans)
  show "read_iter app r = Return (Inr (Some d)) r' \<Longrightarrow> rd_measure r' < rd_measure r"
    by (cases rule: read_iter_cases [of app r])
      (auto simp: seal_check_no_record dest!: read_physical_measure(2) intro: less_le_trans)
  show "\<lbrakk>read_iter app r = Return res r'; res \<noteq> Inl Io\<rbrakk> \<Longrightarrow> rd_measure r' \<le> rd_measure r"
    by (cases rule: read_iter_cases [of app r])
      (auto dest!: read_physical_measure(3) intro: le_trans)
qed

function read_record :: "crc_append \<Rightarrow> wal_reader \<Rightarrow> (wal_error, bytes option) result \<times> wal_reader" where
  "read_record app r =
     (case read_iter app r of Return res r' \<Rightarrow> (res, r') | Again r' \<Rightarrow> read_record app r')"
  by pat_completeness auto
termination
  by (relation "measure (\<lambda>(app, r). rd_measure r)") (auto dest: read_iter_measure)

declare read_record.simps [simp del]

lemma read_record_measure:
  "read_record app r = (Inr (Some d), r') \<Longrightarrow> rd_measure r' < rd_measure r"
  "\<lbrakk>read_record app r = (res, r'); res \<noteq> Inl Io\<rbrakk> \<Longrightarrow> rd_measure r' \<le> rd_measure r"
proof (induction app r rule: read_record.induct)
  case (1 app r)
  {
    case 1
    then show ?case using "1.IH"
      by (cases "read_iter app r")
        (auto simp: read_record.simps [of app r] dest: read_iter_measure)
  next
    case 2
    then show ?case using "1.IH"
      by (cases "read_iter app r")
        (auto simp: read_record.simps [of app r] dest!: read_iter_measure)
  }
qed

section \<open>Collecting every record\<close>

definition skip_byte_for_resync :: "wal_reader \<Rightarrow> (wal_error, bool) result \<times> wal_reader" where
  "skip_byte_for_resync r =
     (let r = r\<lparr>rd_scratch := []\<rparr> in
      if rd_cursor r < rd_block_end r then (Inr True, r\<lparr>rd_cursor := rd_cursor r + 1\<rparr>)
      else case read_next_block r of
          (Inl e, r) \<Rightarrow> (Inl e, r)
        | (Inr got, r) \<Rightarrow> (Inr got, r))"

lemma skip_byte_measure:
  "skip_byte_for_resync r = (Inr True, r') \<Longrightarrow> rd_measure r' < rd_measure r"
  using read_next_block_measure(2) [of "r\<lparr>rd_scratch := []\<rparr>" True r']
  by (auto simp: skip_byte_for_resync_def Let_def split: if_splits sum.splits prod.splits)
    (auto simp: rd_measure_def)

datatype collect_step =
    Finish "bytes list" "wal_error option" wal_reader
  | Continue wal_reader "bytes list" nat bool

definition keep_record :: "bool \<Rightarrow> wal_reader \<Rightarrow> wal_reader" where
  "keep_record in_resync r =
     (let r = (if in_resync then
          (case rd_pending_resync r of
             Some p \<Rightarrow> r\<lparr>rd_pending_resync := None,
               rd_resync_origin := (case rd_resync_origin r of None \<Rightarrow> Some p | Some q \<Rightarrow> Some q)\<rparr>
           | None \<Rightarrow> r) else r)
      in r\<lparr>rd_last_good := current_record_stream_offset r\<rparr>)"

definition collect_iter ::
  "crc_append \<Rightarrow> wal_reader \<Rightarrow> bytes list \<Rightarrow> nat \<Rightarrow> bool \<Rightarrow> collect_step" where
  "collect_iter app r out consecutive_skips in_resync =
     (let (outcome, r) = read_record app r;
          k = recover_kind_from_read outcome;
          skip = (is_length_resyncable k \<or> in_resync \<and> (k = Crc \<or> k = ZeroHeaderTail))
      in case (if skip then skip_byte_for_resync r else (Inr False, r)) of
           (Inl e, r) \<Rightarrow> Finish out (Some e) r
         | (Inr can_skip, r) \<Rightarrow>
           (let skips = (if can_skip then min (consecutive_skips + 1) (2 ^ 64 - 1)
                         else consecutive_skips)
            in case recover_collect_act k (length out) can_skip skips in_resync of
                 KeepRecord \<Rightarrow>
                   (case outcome of
                      Inr (Some rec) \<Rightarrow> Continue (keep_record in_resync r) (out @ [rec]) 0 False
                    | _ \<Rightarrow> Finish out (Some (Internal KeepRecordWithoutRecord)) r)
               | Stop \<Rightarrow> Finish out None (r\<lparr>rd_pending_resync := None\<rparr>)
               | KeepPrefix \<Rightarrow> Finish out None (r\<lparr>rd_pending_resync := None\<rparr>)
               | Resync \<Rightarrow>
                   Continue (if \<not> in_resync \<and> rd_pending_resync r = None
                     then r\<lparr>rd_pending_resync := Some (current_record_stream_offset r)\<rparr> else r)
                     out skips True
               | FailStop \<Rightarrow>
                   Finish out (case outcome of
                       Inl e \<Rightarrow> Some e
                     | Inr _ \<Rightarrow> Some (Internal FailStopOnCleanRead)) r))"

lemma keep_record_measure [simp]: "rd_measure (keep_record b r) = rd_measure r"
  by (simp add: keep_record_def rd_measure_def Let_def split: option.splits)

lemma recover_act_Resync:
  "recover_collect_act k n can_skip skips in_resync = Resync \<Longrightarrow> can_skip"
  by (cases k) (auto split: if_splits)

lemma recover_act_KeepRecord:
  "recover_collect_act k n can_skip skips in_resync = KeepRecord \<longleftrightarrow> k = Record"
  by (cases k) auto

lemma kind_not_io:
  "is_length_resyncable (recover_kind_from_read res) \<or>
   recover_kind_from_read res = Crc \<or> recover_kind_from_read res = ZeroHeaderTail \<Longrightarrow> res \<noteq> Inl Io"
  by (auto simp: is_length_resyncable_def)

lemma kind_Record: "recover_kind_from_read res = Record \<longleftrightarrow> (\<exists>d. res = Inr (Some d))"
  by (cases res rule: recover_kind_from_read.cases; simp) (metis recover_kind.distinct recover_kind_of.simps wal_error.exhaust)

lemma collect_iter_measure:
  assumes "collect_iter app r out n b = Continue r' out' n' b'"
  shows "rd_measure r' < rd_measure r"
proof -
  obtain res r1 where rr: "read_record app r = (res, r1)" by fastforce
  let ?k = "recover_kind_from_read res"
  define skip where "skip = (is_length_resyncable ?k \<or> b \<and> (?k = Crc \<or> ?k = ZeroHeaderTail))"
  show ?thesis
  proof (cases skip)
    case True
    then have le: "rd_measure r1 \<le> rd_measure r"
      using read_record_measure(2) [OF rr] kind_not_io [of res] unfolding skip_def by blast
    have "?k \<noteq> Record" using True by (auto simp: skip_def is_length_resyncable_def)
    with assms True obtain r2 where "skip_byte_for_resync r1 = (Inr True, r2)"
      "rd_measure r' = rd_measure r2"
      by (auto simp: collect_iter_def rr Let_def skip_def [symmetric]
          recover_act_KeepRecord rd_measure_def dest: recover_act_Resync
          split: sum.splits prod.splits recover_act.splits if_splits)
    with skip_byte_measure le show ?thesis by fastforce
  next
    case False
    with assms obtain d where "res = Inr (Some d)" "rd_measure r' = rd_measure r1"
      by (auto simp: collect_iter_def rr Let_def skip_def [symmetric]
          dest: recover_act_Resync
          split: sum.splits option.splits recover_act.splits if_splits)
    with read_record_measure(1) [of app r d r1] rr show ?thesis by simp
  qed
qed

function collect_loop ::
  "crc_append \<Rightarrow> wal_reader \<Rightarrow> bytes list \<Rightarrow> nat \<Rightarrow> bool \<Rightarrow>
   (bytes list \<times> wal_error option) \<times> wal_reader" where
  "collect_loop app r out consecutive_skips in_resync =
     (case collect_iter app r out consecutive_skips in_resync of
        Finish out err r \<Rightarrow> ((out, err), r)
      | Continue r out skips in_resync \<Rightarrow> collect_loop app r out skips in_resync)"
  by pat_completeness auto
termination
  by (relation "measure (\<lambda>(app, r, out, n, b). rd_measure r)") (auto dest: collect_iter_measure)

declare collect_loop.simps [simp del]

definition collect_prefix_all ::
  "crc_append \<Rightarrow> wal_reader \<Rightarrow> (bytes list \<times> wal_error option) \<times> wal_reader" where
  "collect_prefix_all app r = collect_loop app r [] 0 False"

definition collect_all :: "crc_append \<Rightarrow> wal_reader \<Rightarrow> (wal_error, bytes list) result \<times> wal_reader" where
  "collect_all app r =
     (case collect_prefix_all app r of
        ((out, Some e), r) \<Rightarrow> (Inl e, r)
      | ((out, None), r) \<Rightarrow> (Inr out, r))"

end
