(* ===== verification/Wal_Source.thy ===== *)
theory Wal_Source
  imports Wal_Frame
begin

text \<open>
  \<open>EncodedOpsSource\<close> of \<open>wal/writer_kernel.rs\<close>: a state machine that yields the
  encoding of a batch of operations field by field, so that a record goes into the
  log without an intermediate buffer.  It is shown to meet the contract of a record
  source for the bytes \<open>record_image\<close>, that is, to emit exactly what \<open>encode_ops\<close>
  would have produced.
\<close>

section \<open>The state machine\<close>

record enc_source =
  es_ops :: "write_op list"
  es_head :: bytes
  es_head_done :: bool
  es_idx :: nat
  es_stage :: nat
  es_preamble :: bytes
  es_vlen :: bytes
  es_off :: nat
  es_total :: nat
  es_v2 :: bool
  es_reuse :: bool

definition es_new :: "write_op list \<Rightarrow> enc_source" where
  "es_new ops =
     \<lparr>es_ops = ops,
      es_head = (if record_uses_v2 ops then WRITE_RECORD_VERSION_V2 else WRITE_RECORD_VERSION) #
        to_le_bytes (u32_try_from (length ops)),
      es_head_done = False, es_idx = 0, es_stage = 4,
      es_preamble = replicate 13 0, es_vlen = replicate 4 0, es_off = 0,
      es_total = encoded_len ops, es_v2 = record_uses_v2 ops, es_reuse = False\<rparr>"

definition enter_op :: "enc_source \<Rightarrow> enc_source" where
  "enter_op s =
     (if length (es_ops s) \<le> es_idx s then s\<lparr>es_stage := 4\<rparr>
      else let x = es_ops s ! es_idx s;
               reuse = (es_v2 s \<and> 0 < es_idx s \<and> value_ptr_eq (es_ops s ! (es_idx s - 1)) x)
        in s\<lparr>es_reuse := reuse,
             es_preamble := (as_u8 (op_kind x) OR (if reuse then KIND_REUSE_PREV else 0)) #
               to_le_bytes (op_sequence x) @ to_le_bytes (u32_try_from (length (op_key x))),
             es_vlen := (if reuse then es_vlen s
               else to_le_bytes (u32_try_from (length (bytes_of (op_value x))))),
             es_stage := 0, es_off := 0\<rparr>)"

definition next_op :: "enc_source \<Rightarrow> enc_source" where
  "next_op s =
     (let s = s\<lparr>es_off := 0, es_idx := es_idx s + 1\<rparr> in
      if es_idx s < length (es_ops s) then enter_op s else s\<lparr>es_stage := 4\<rparr>)"

definition finish_key_field :: "enc_source \<Rightarrow> enc_source" where
  "finish_key_field s =
     (let s = s\<lparr>es_off := 0\<rparr> in if es_reuse s then next_op s else s\<lparr>es_stage := 2\<rparr>)"

text \<open>The current run of bytes, after skipping empty fields; an index outside \<open>ops\<close>
  or an offset past the end of a field is a panic.\<close>

definition run_from :: "bytes \<Rightarrow> enc_source \<Rightarrow> (bytes \<times> enc_source) option" where
  "run_from field s =
     (if es_off s \<le> length field then Some (drop (es_off s) field, s) else None)"

definition es_weight :: "enc_source \<Rightarrow> nat" where
  "es_weight s = 5 * (length (es_ops s) - es_idx s) +
     (if es_stage s = 0 then 3 else if es_stage s = 1 then 2
      else if es_stage s = 2 \<or> es_stage s = 3 then 1
      else if length (es_ops s) \<le> es_idx s then 0 else 4)"

lemma enter_op_simps [simp]:
  "es_ops (enter_op s) = es_ops s" "es_idx (enter_op s) = es_idx s"
  "es_head (enter_op s) = es_head s" "es_head_done (enter_op s) = es_head_done s"
  "es_v2 (enter_op s) = es_v2 s" "es_total (enter_op s) = es_total s"
  "es_stage (enter_op s) = (if length (es_ops s) \<le> es_idx s then 4 else 0)"
  by (simp_all add: enter_op_def Let_def)

lemma next_op_simps [simp]:
  "es_ops (next_op s) = es_ops s" "es_idx (next_op s) = es_idx s + 1"
  "es_head (next_op s) = es_head s" "es_head_done (next_op s) = es_head_done s"
  "es_v2 (next_op s) = es_v2 s" "es_total (next_op s) = es_total s"
  "es_stage (next_op s) = (if es_idx s + 1 < length (es_ops s) then 0 else 4)"
  by (simp_all add: next_op_def Let_def)

lemma next_op_weight: "0 < es_stage s \<Longrightarrow> es_stage s < 4 \<Longrightarrow> es_weight (next_op s) < es_weight s"
  by (auto simp: es_weight_def)

lemma finish_key_weight: "es_stage s = 1 \<Longrightarrow> es_weight (finish_key_field s) < es_weight s"
  using next_op_weight [of "s\<lparr>es_off := 0\<rparr>"]
  by (auto simp: finish_key_field_def Let_def es_weight_def)

function es_current :: "enc_source \<Rightarrow> (bytes \<times> enc_source) option" where
  "es_current s =
     (if \<not> es_head_done s then run_from (es_head s) s
      else if es_stage s = 0 then run_from (es_preamble s) s
      else if es_stage s = 1 then
        (if length (es_ops s) \<le> es_idx s then None
         else if batch_is_empty (length (op_key (es_ops s ! es_idx s)))
         then es_current (finish_key_field s)
         else run_from (op_key (es_ops s ! es_idx s)) s)
      else if es_stage s = 2 then
        (if es_reuse s then es_current (next_op s) else run_from (es_vlen s) s)
      else if es_stage s = 3 then
        (if es_reuse s then es_current (next_op s)
         else if length (es_ops s) \<le> es_idx s then None
         else if batch_is_empty (length (bytes_of (op_value (es_ops s ! es_idx s))))
         then es_current (next_op s)
         else run_from (bytes_of (op_value (es_ops s ! es_idx s))) s)
      else if length (es_ops s) \<le> es_idx s then Some ([], s)
      else es_current (enter_op s))"
  by pat_completeness auto
termination
proof (relation "measure es_weight")
  fix s :: enc_source
  assume "\<not> length (es_ops s) \<le> es_idx s" "es_stage s \<noteq> 0" "es_stage s \<noteq> 1" "es_stage s \<noteq> 2"
    "es_stage s \<noteq> 3"
  then show "(enter_op s, s) \<in> measure es_weight" by (simp add: es_weight_def)
qed (auto simp: next_op_weight finish_key_weight)

declare es_current.simps [simp del]

definition es_advance :: "nat \<Rightarrow> enc_source \<Rightarrow> enc_source option" where
  "es_advance taken s =
     (if \<not> es_head_done s then
        (let s = s\<lparr>es_off := es_off s + taken\<rparr> in
         Some (if es_off s = length (es_head s) then
             let s = s\<lparr>es_head_done := True, es_off := 0\<rparr> in
             if es_idx s < length (es_ops s) then enter_op s else s
           else s))
      else if es_stage s = 0 \<or> es_stage s = 2 then
        (let s = s\<lparr>es_off := es_off s + taken\<rparr>;
             e = (if es_stage s = 0 then length (es_preamble s) else length (es_vlen s)) in
         Some (if es_off s = e then s\<lparr>es_off := 0, es_stage := es_stage s + 1\<rparr> else s))
      else if es_stage s = 1 then
        (let s = s\<lparr>es_off := es_off s + taken\<rparr> in
         if length (es_ops s) \<le> es_idx s then None
         else Some (if es_off s = length (op_key (es_ops s ! es_idx s))
           then finish_key_field s else s))
      else if es_stage s = 3 then
        (let s = s\<lparr>es_off := es_off s + taken\<rparr> in
         if length (es_ops s) \<le> es_idx s then None
         else Some (if es_off s = length (bytes_of (op_value (es_ops s ! es_idx s)))
           then next_op s else s))
      else Some s)"

function es_append_exact :: "enc_source append_exact" where
  "es_append_exact s dst n =
     (if n = 0 then Some (s, dst)
      else case es_current s of
        None \<Rightarrow> None
      | Some (run, s) \<Rightarrow>
          if batch_is_empty (length run) then None
          else let t = min n (length run) in
            case es_advance t s of
              None \<Rightarrow> None
            | Some s \<Rightarrow> es_append_exact s (dst @ take t run) (n - t))"
  by pat_completeness auto
termination
  by (relation "measure (\<lambda>(s, dst, n). n)") (auto simp: batch_is_empty_def)

declare es_append_exact.simps [simp del]

definition es_total_len :: "enc_source \<Rightarrow> nat" where
  "es_total_len s = es_total s"

section \<open>What is left to emit\<close>

definition prev_of :: "write_op list \<Rightarrow> nat \<Rightarrow> write_op option" where
  "prev_of ops i = (if i = 0 then None else Some (ops ! (i - 1)))"

definition op_preamble :: "bool \<Rightarrow> write_op \<Rightarrow> bytes" where
  "op_preamble reuse x = (as_u8 (op_kind x) OR (if reuse then KIND_REUSE_PREV else 0)) #
     to_le_bytes (op_sequence x) @ to_le_bytes (u32_try_from (length (op_key x)))"

definition op_vlen :: "write_op \<Rightarrow> bytes" where
  "op_vlen x = to_le_bytes (u32_try_from (length (bytes_of (op_value x))))"

definition es_cur :: "enc_source \<Rightarrow> write_op" where
  "es_cur s = es_ops s ! es_idx s"

definition es_tail :: "enc_source \<Rightarrow> bytes" where
  "es_tail s = ops_image (es_v2 s) (Some (es_cur s)) (drop (Suc (es_idx s)) (es_ops s))"

definition es_after_key :: "enc_source \<Rightarrow> bytes" where
  "es_after_key s =
     (if es_reuse s then [] else es_vlen s @ bytes_of (op_value (es_cur s))) @ es_tail s"

definition es_pending :: "enc_source \<Rightarrow> bytes" where
  "es_pending s =
     ops_image (es_v2 s) (prev_of (es_ops s) (es_idx s)) (drop (es_idx s) (es_ops s))"

definition es_field :: "enc_source \<Rightarrow> bytes" where
  "es_field s =
     (if \<not> es_head_done s then es_head s
      else if length (es_ops s) \<le> es_idx s then []
      else if es_stage s = 0 then es_preamble s
      else if es_stage s = 1 then op_key (es_cur s)
      else if es_stage s = 2 then es_vlen s
      else if es_stage s = 3 then bytes_of (op_value (es_cur s))
      else [])"

definition es_later :: "enc_source \<Rightarrow> bytes" where
  "es_later s =
     (if \<not> es_head_done s \<or> length (es_ops s) \<le> es_idx s then es_pending s
      else if es_stage s = 0 then op_key (es_cur s) @ es_after_key s
      else if es_stage s = 1 then es_after_key s
      else if es_stage s = 2 then bytes_of (op_value (es_cur s)) @ es_tail s
      else if es_stage s = 3 then es_tail s
      else es_pending s)"

definition es_rest :: "enc_source \<Rightarrow> bytes" where
  "es_rest s = drop (es_off s) (es_field s) @ es_later s"

definition es_fields_ok :: "enc_source \<Rightarrow> bool" where
  "es_fields_ok s \<longleftrightarrow>
     es_reuse s = reuses (es_v2 s) (prev_of (es_ops s) (es_idx s)) (es_cur s) \<and>
     es_preamble s = op_preamble (es_reuse s) (es_cur s) \<and>
     (\<not> es_reuse s \<longrightarrow> es_vlen s = op_vlen (es_cur s)) \<and>
     (2 \<le> es_stage s \<longrightarrow> \<not> es_reuse s)"

definition es_valid :: "enc_source \<Rightarrow> bool" where
  "es_valid s \<longleftrightarrow>
     (if \<not> es_head_done s then es_idx s = 0 \<and> es_stage s = 4 \<and> es_off s < length (es_head s)
      else if length (es_ops s) \<le> es_idx s then es_stage s = 4
      else es_stage s < 4 \<and> es_fields_ok s \<and>
        (es_off s < length (es_field s) \<or> es_field s = [] \<and> es_off s = 0))"

lemmas es_defs = es_rest_def es_field_def es_later_def es_valid_def es_fields_ok_def
  es_after_key_def es_cur_def es_tail_def

lemma reuses_prev_of:
  "(es_v2 s \<and> 0 < i \<and> value_ptr_eq (ops ! (i - 1)) x) = reuses (es_v2 s) (prev_of ops i) x"
  by (simp add: reuses_def prev_of_def)

lemma es_pending_Cons:
  assumes "es_idx s < length (es_ops s)"
  shows "es_pending s =
    op_image (reuses (es_v2 s) (prev_of (es_ops s) (es_idx s)) (es_cur s)) (es_cur s) @ es_tail s"
  using assms by (simp add: es_pending_def es_cur_def es_tail_def Cons_nth_drop_Suc [symmetric])

lemma op_image_fields:
  "op_image r x = op_preamble r x @ op_key x @ (if r then [] else op_vlen x @ bytes_of (op_value x))"
  by (simp add: op_image_def op_preamble_def op_vlen_def)

lemma enter_op_ok:
  assumes "es_head_done s" "es_idx s < length (es_ops s)"
  shows "es_valid (enter_op s) \<and> es_rest (enter_op s) = es_pending s"
proof -
  let ?x = "es_ops s ! es_idx s" and ?r = "reuses (es_v2 s) (prev_of (es_ops s) (es_idx s)) (es_ops s ! es_idx s)"
  have e: "enter_op s = s\<lparr>es_reuse := ?r, es_preamble := op_preamble ?r ?x,
      es_vlen := (if ?r then es_vlen s else op_vlen ?x), es_stage := 0, es_off := 0\<rparr>"
    using assms(2) unfolding enter_op_def Let_def reuses_prev_of op_preamble_def op_vlen_def
    by (simp cong: if_cong)
  have p: "es_pending s = op_preamble ?r ?x @ op_key ?x @
      (if ?r then [] else op_vlen ?x @ bytes_of (op_value ?x)) @
      ops_image (es_v2 s) (Some ?x) (drop (Suc (es_idx s)) (es_ops s))"
    unfolding es_pending_Cons [OF assms(2)] op_image_fields
    by (simp add: es_cur_def es_tail_def)
  show ?thesis unfolding e p using assms by (simp add: es_defs)
qed

lemma next_op_ok:
  assumes "es_head_done s" "es_idx s < length (es_ops s)"
  shows "es_valid (next_op s) \<and> es_rest (next_op s) = es_tail s"
proof -
  let ?s = "s\<lparr>es_off := 0, es_idx := es_idx s + 1\<rparr>"
  have pend: "es_pending ?s = es_tail s"
    by (simp add: es_pending_def es_tail_def es_cur_def prev_of_def)
  show ?thesis
  proof (cases "es_idx s + 1 < length (es_ops s)")
    case True
    then have "next_op s = enter_op ?s" by (simp add: next_op_def)
    with True enter_op_ok [of ?s] assms pend show ?thesis by simp
  next
    case False
    then have "next_op s = ?s\<lparr>es_stage := 4\<rparr>" by (simp add: next_op_def)
    with False assms pend show ?thesis
      by (simp add: es_rest_def es_field_def es_later_def es_valid_def es_pending_def)
  qed
qed

lemma finish_key_ok:
  assumes "es_valid s" "es_head_done s" "es_stage s = 1"
  shows "es_valid (finish_key_field s) \<and> es_rest (finish_key_field s) = es_after_key s"
proof -
  have idx: "es_idx s < length (es_ops s)" using assms by (auto simp: es_valid_def split: if_splits)
  let ?s = "s\<lparr>es_off := 0\<rparr>"
  have tail: "es_tail ?s = es_tail s" by (simp add: es_tail_def es_cur_def)
  show ?thesis
  proof (cases "es_reuse s")
    case True
    then have "finish_key_field s = next_op ?s" by (simp add: finish_key_field_def)
    with True next_op_ok [of ?s] assms idx tail show ?thesis by (simp add: es_after_key_def)
  next
    case False
    then have "finish_key_field s = ?s\<lparr>es_stage := 2\<rparr>" by (simp add: finish_key_field_def)
    with False assms idx show ?thesis by (simp add: es_defs)
  qed
qed

lemma length_op_vlen [simp]: "length (op_vlen x) = 4"
  by (simp add: op_vlen_def)

lemma length_op_preamble [simp]: "length (op_preamble r x) = 13"
  by (simp add: op_preamble_def)

lemma op_fields_nonempty [simp]: "op_preamble r x \<noteq> []" "op_vlen x \<noteq> []"
  by (simp add: op_preamble_def) (metis length_op_vlen list.size(3) zero_neq_numeral)

lemma es_stage_cases:
  assumes "es_valid s" "es_head_done s" "es_idx s < length (es_ops s)"
  obtains "es_stage s = 0" | "es_stage s = 1" | "es_stage s = 2" | "es_stage s = 3"
proof -
  have "es_stage s < 4" using assms by (simp add: es_valid_def)
  then have "es_stage s = 0 \<or> es_stage s = 1 \<or> es_stage s = 2 \<or> es_stage s = 3" by arith
  then show thesis using that by blast
qed

lemma es_current_field:
  assumes "es_valid s" "drop (es_off s) (es_field s) \<noteq> []"
  shows "es_current s = Some (drop (es_off s) (es_field s), s)"
proof (cases "es_head_done s \<and> es_idx s < length (es_ops s)")
  case True
  then have h: "es_head_done s" and i: "es_idx s < length (es_ops s)" by simp_all
  from assms(1) h i have off: "es_off s < length (es_field s)" and ok: "es_fields_ok s"
    using assms(2) by (auto simp: es_valid_def)
  show ?thesis
    by (rule es_stage_cases [OF assms(1) h i])
      (use off ok h i in \<open>auto simp: es_current.simps [of s] run_from_def es_field_def es_cur_def
        es_fields_ok_def batch_is_empty_def\<close>)
next
  case False
  then show ?thesis using assms
    by (auto simp: es_current.simps [of s] run_from_def es_field_def es_valid_def split: if_splits)
qed

lemma es_current_skip:
  assumes "es_valid s" "drop (es_off s) (es_field s) = []"
  shows "(es_current s = Some ([], s) \<and> es_rest s = []) \<or>
         (\<exists>s'. es_current s = es_current s' \<and> es_valid s' \<and> es_rest s' = es_rest s \<and>
               es_weight s' < es_weight s)"
proof (cases "es_head_done s \<and> es_idx s < length (es_ops s)")
  case True
  then have h: "es_head_done s" and i: "es_idx s < length (es_ops s)" by simp_all
  from assms(1) h i have f: "es_field s = []" "es_off s = 0" and ok: "es_fields_ok s"
    using assms(2) by (auto simp: es_valid_def)
  from assms(1) h i show ?thesis
  proof (cases rule: es_stage_cases)
    case 2
    with f i h have "es_current s = es_current (finish_key_field s)"
      by (simp add: es_current.simps [of s] es_field_def es_cur_def batch_is_empty_def)
    moreover have "es_rest s = es_after_key s"
      using 2 f h i by (simp add: es_rest_def es_later_def)
    ultimately show ?thesis
      using finish_key_ok [OF assms(1) h 2] finish_key_weight [OF 2] by auto
  next
    case 4
    with f i h ok have "es_current s = es_current (next_op s)"
      by (simp add: es_current.simps [of s] es_field_def es_cur_def batch_is_empty_def)
    moreover have "es_rest s = es_tail s"
      using 4 f h i by (simp add: es_rest_def es_later_def)
    ultimately show ?thesis
      using next_op_ok [OF h i] next_op_weight [of s] 4 by auto
  qed (use f h i ok in \<open>simp_all add: es_field_def es_fields_ok_def
        op_fields_nonempty [symmetric]\<close>)
next
  case False
  have h: "es_head_done s"
    using assms by (auto simp: es_valid_def es_field_def split: if_splits)
  with False have i: "length (es_ops s) \<le> es_idx s" by simp
  with assms(1) h have "es_stage s = 4" by (simp add: es_valid_def)
  with h i show ?thesis
    by (simp add: es_current.simps [of s] es_rest_def es_field_def es_later_def es_pending_def)
qed

lemma es_current_ok:
  assumes "es_valid s" "es_rest s \<noteq> []"
  shows "\<exists>s'. es_current s = Some (drop (es_off s') (es_field s'), s') \<and> es_valid s' \<and>
           es_rest s' = es_rest s \<and> drop (es_off s') (es_field s') \<noteq> []"
  using assms
proof (induction "es_weight s" arbitrary: s rule: less_induct)
  case less
  show ?case
  proof (cases "drop (es_off s) (es_field s) = []")
    case True
    from es_current_skip [OF less.prems(1) True] less.prems(2) obtain s1 where
      "es_current s = es_current s1" "es_valid s1" "es_rest s1 = es_rest s"
      "es_weight s1 < es_weight s" by auto
    with less show ?thesis by metis
  next
    case False
    with es_current_field [OF less.prems(1)] less.prems(1) show ?thesis by blast
  qed
qed

text \<open>Advancing within a field, and from the end of a field to what follows.\<close>

lemma es_advance_within:
  assumes v: "es_valid s" and t: "es_off s + t < length (es_field s)"
  shows "es_advance t s = Some (s\<lparr>es_off := es_off s + t\<rparr>) \<and> es_valid (s\<lparr>es_off := es_off s + t\<rparr>)"
proof (cases "es_head_done s")
  case False
  with v t show ?thesis by (simp add: es_advance_def es_field_def es_valid_def Let_def)
next
  case h: True
  then have i: "es_idx s < length (es_ops s)" using t by (simp add: es_field_def split: if_splits)
  from v h i show ?thesis
    by (cases rule: es_stage_cases)
      (use v h i t in \<open>auto simp: es_advance_def es_field_def es_valid_def es_fields_ok_def
        es_cur_def Let_def\<close>)
qed

lemma es_advance_head:
  assumes v: "es_valid s" and h: "\<not> es_head_done s" and t: "es_off s + t = length (es_field s)"
  shows "\<exists>s'. es_advance t s = Some s' \<and> es_valid s' \<and> es_rest s' = es_later s"
proof -
  let ?s = "s\<lparr>es_head_done := True, es_off := 0\<rparr>"
  have pend: "es_pending ?s = es_later s" using h by (simp add: es_later_def es_pending_def)
  have adv: "es_advance t s = Some (if es_idx s < length (es_ops s) then enter_op ?s else ?s)"
    using h t by (simp add: es_advance_def es_field_def Let_def)
  show ?thesis
  proof (cases "es_idx s < length (es_ops s)")
    case True
    with enter_op_ok [of ?s] adv pend show ?thesis by simp
  next
    case False
    then have "es_valid ?s" "es_rest ?s = es_pending ?s"
      using v h by (simp_all add: es_valid_def es_rest_def es_field_def es_later_def)
    with False adv pend show ?thesis by simp
  qed
qed

lemma es_advance_end:
  assumes v: "es_valid s" and h: "es_head_done s" and i: "es_idx s < length (es_ops s)"
    and t: "es_off s + t = length (es_field s)"
  shows "\<exists>s'. es_advance t s = Some s' \<and> es_valid s' \<and> es_rest s' = es_later s"
proof -
  have ok: "es_fields_ok s" using v h i by (simp add: es_valid_def)
  let ?s = "s\<lparr>es_off := es_off s + t\<rparr>" and ?n = "s\<lparr>es_off := 0, es_stage := es_stage s + 1\<rparr>"
  have cur: "es_cur ?s = es_cur s" "es_tail ?s = es_tail s" by (simp_all add: es_cur_def es_tail_def)
  from v h i show ?thesis
  proof (cases rule: es_stage_cases)
    case 1
    then have "es_advance t s = Some ?n" using h i t by (simp add: es_advance_def es_field_def)
    moreover have "es_valid ?n" "es_rest ?n = es_later s"
      using 1 h i ok by (auto simp: es_defs)
    ultimately show ?thesis by blast
  next
    case 2
    then have "es_advance t s = Some (finish_key_field ?s)"
      using h i t by (simp add: es_advance_def es_field_def es_cur_def Let_def)
    moreover have "finish_key_field ?s = finish_key_field s"
      by (simp add: finish_key_field_def next_op_def)
    ultimately show ?thesis
      using finish_key_ok [OF v h 2] 2 h i by (simp add: es_later_def)
  next
    case 3
    then have "es_advance t s = Some ?n" using h i t by (simp add: es_advance_def es_field_def)
    moreover have "es_valid ?n" "es_rest ?n = es_later s"
      using 3 h i ok by (auto simp: es_defs)
    ultimately show ?thesis by blast
  next
    case 4
    then have "es_advance t s = Some (next_op ?s)"
      using h i t by (simp add: es_advance_def es_field_def es_cur_def Let_def)
    moreover have "es_valid (next_op ?s) \<and> es_rest (next_op ?s) = es_tail s"
      using next_op_ok [of ?s] h i cur by simp
    ultimately show ?thesis using 4 h i by (simp add: es_later_def)
  qed
qed

lemma es_advance_ok:
  assumes v: "es_valid s" and t: "t \<le> length (drop (es_off s) (es_field s))"
    and ne: "drop (es_off s) (es_field s) \<noteq> []"
  shows "\<exists>s'. es_advance t s = Some s' \<and> es_valid s' \<and> es_rest s' = drop t (es_rest s)"
proof (cases "es_off s + t < length (es_field s)")
  case True
  let ?s = "s\<lparr>es_off := es_off s + t\<rparr>"
  have "es_later ?s = es_later s" "es_field ?s = es_field s"
    by (simp_all add: es_later_def es_field_def es_cur_def es_tail_def es_after_key_def es_pending_def)
  then have "es_rest ?s = drop t (es_rest s)" using t by (simp add: es_rest_def add.commute)
  with es_advance_within [OF v True] show ?thesis by simp
next
  case False
  then have e: "es_off s + t = length (es_field s)" using t ne by auto
  then have rest: "drop t (es_rest s) = es_later s" using t by (simp add: es_rest_def)
  have "es_head_done s \<Longrightarrow> es_idx s < length (es_ops s)"
    using ne by (auto simp: es_field_def split: if_splits)
  then show ?thesis
    using es_advance_head [OF v _ e] es_advance_end [OF v _ _ e] rest by auto
qed

section \<open>The source contract\<close>

lemma es_append_exact_ok:
  assumes "es_valid s" "n \<le> length (es_rest s)"
  shows "\<exists>s'. es_append_exact s b n = Some (s', b @ take n (es_rest s)) \<and> es_valid s' \<and>
    es_rest s' = drop n (es_rest s)"
  using assms
proof (induction n arbitrary: s b rule: less_induct)
  case (less n)
  show ?case
  proof (cases "n = 0")
    case True
    with less.prems show ?thesis by (simp add: es_append_exact.simps)
  next
    case False
    then have ne: "es_rest s \<noteq> []" using less.prems(2) by auto
    obtain s1 where s1: "es_current s = Some (drop (es_off s1) (es_field s1), s1)" "es_valid s1"
      "es_rest s1 = es_rest s" "drop (es_off s1) (es_field s1) \<noteq> []"
      using es_current_ok [OF less.prems(1) ne] by blast
    define run where "run = drop (es_off s1) (es_field s1)"
    define t where "t = min n (length run)"
    have run: "run \<noteq> []" "es_rest s = run @ es_later s1"
      using s1 by (simp_all add: run_def es_rest_def)
    have t: "t \<le> length run" "t \<le> n" "n - t < n" using False run by (auto simp: t_def)
    obtain s2 where s2: "es_advance t s1 = Some s2" "es_valid s2" "es_rest s2 = drop t (es_rest s)"
      using es_advance_ok [OF s1(2), of t] s1(3,4) t(1) unfolding run_def by auto
    have "n - t \<le> length (es_rest s2)" using less.prems(2) s2(3) by simp
    from less.IH [OF t(3) s2(2) this, of "b @ take t run"] obtain s3 where
      s3: "es_append_exact s2 (b @ take t run) (n - t) =
        Some (s3, (b @ take t run) @ take (n - t) (es_rest s2))" "es_valid s3"
        "es_rest s3 = drop (n - t) (es_rest s2)" by blast
    have "take t run @ take (n - t) (es_rest s2) = take n (es_rest s)"
      using t run(2) s2(3) by (simp add: t_def min_def)
    moreover have "drop (n - t) (es_rest s2) = drop n (es_rest s)" using s2(3) t(2) by simp
    ultimately show ?thesis
      using False s1(1) run(1) s2(1) s3
      by (simp add: es_append_exact.simps [of s b n] run_def [symmetric] t_def [symmetric]
          batch_is_empty_def Let_def)
  qed
qed

definition es_initial :: "enc_source \<Rightarrow> bool" where
  "es_initial s \<longleftrightarrow> (\<exists>ops. s = es_new ops)"

lemma es_new_rest: "es_valid (es_new ops)" "es_rest (es_new ops) = record_image ops"
  by (simp_all add: es_new_def es_valid_def es_rest_def es_field_def es_later_def es_pending_def
      prev_of_def record_image_def)

interpretation enc: record_source es_append_exact es_total_len es_initial es_valid es_rest
proof unfold_locales
  show "es_initial s \<Longrightarrow> es_valid s" for s by (auto simp: es_initial_def es_new_rest)
  show "es_initial s \<Longrightarrow> es_total_len s = length (es_rest s)" for s
    by (auto simp: es_initial_def es_new_rest length_record_image es_total_len_def)
      (simp add: es_new_def)
  show "\<lbrakk>es_valid s; n \<le> length (es_rest s)\<rbrakk> \<Longrightarrow>
      \<exists>s'. es_append_exact s b n = Some (s', b @ take n (es_rest s)) \<and> es_valid s' \<and>
        es_rest s' = drop n (es_rest s)" for s n b
    by (rule es_append_exact_ok)
qed

section \<open>Encoding and fragmenting a batch\<close>

definition fragment_encoded_len ::
  "crc_append \<Rightarrow> write_op list \<Rightarrow> bytes \<Rightarrow> nat \<Rightarrow> (nat \<times> bytes \<times> nat) option" where
  "fragment_encoded_len app ops b block_offset =
     (let slow =
        (let src = es_new ops in
         Option.bind (fragment_from app es_append_exact es_total_len src b block_offset)
           (\<lambda>(_, b, bo). Some (es_total src, b, bo)))
      in if length ops = 1 then
           (case fragment_one_op app (ops ! 0) b block_offset of
              Some r \<Rightarrow> Some r
            | None \<Rightarrow> slow)
         else slow)"

lemma fragment_encoded_len_image:
  assumes "block_offset \<le> BLOCK_SIZE"
  shows "fragment_encoded_len app ops b block_offset =
    Some (encoded_len ops, b @ fst (frame_image app block_offset (record_image ops) True),
          snd (frame_image app block_offset (record_image ops) True))"
proof -
  have slow: "Option.bind
      (fragment_from app es_append_exact es_total_len (es_new ops) b block_offset)
      (\<lambda>(_, b, bo). Some (es_total (es_new ops), b, bo)) =
    Some (encoded_len ops, b @ fst (frame_image app block_offset (record_image ops) True),
          snd (frame_image app block_offset (record_image ops) True))"
    using enc.fragment_from_image [of "es_new ops", OF _ assms, of app b]
    by (auto simp: es_initial_def es_new_rest) (auto simp: es_new_def)
  show ?thesis
  proof (cases "length ops = 1")
    case True
    then obtain x where ops: "ops = [x]" by (auto simp: length_Suc_conv)
    show ?thesis
      using slow fragment_one_op_image [of app x b block_offset] length_record_image [of "[x]"]
      by (auto simp: fragment_encoded_len_def Let_def ops split: option.splits)
  next
    case False
    with slow show ?thesis by (simp add: fragment_encoded_len_def Let_def)
  qed
qed

section \<open>Properties\<close>

text \<open>C13. Streaming is equivalent to encoding first: fragmenting a batch straight from its
  operations, through the one-operation fast path or the streaming source, emits the same
  bytes, reports the same length and leaves the same block offset as encoding the batch into
  a buffer and fragmenting that buffer; neither ever panics.\<close>

theorem fragment_encoded_equivalence:
  assumes "block_offset \<le> BLOCK_SIZE"
  shows "\<exists>data b' bo'. encode_ops ops [] = Some data \<and>
    fragment_into app data b block_offset = Some (b', bo') \<and>
    fragment_encoded_len app ops b block_offset = Some (length data, b', bo')"
  using assms
  by (simp add: encode_ops_image fragment_encoded_len_image fragment_into_image length_record_image)

theorem fragment_encoded_equivalence_witness:
  "\<exists>data b' bo'. encode_ops [op_put 7 [1] (SharedBytes 0 [2])] [] = Some data \<and>
    fragment_into (\<lambda>c bs. c) data [] 32760 = Some (b', bo') \<and>
    fragment_encoded_len (\<lambda>c bs. c) [op_put 7 [1] (SharedBytes 0 [2])] [] 32760 = Some (length data, b', bo')"
  by (rule fragment_encoded_equivalence) (simp add: BLOCK_SIZE_def)

text \<open>C14. The off-lock path: a record encoded without the writer's state, placed behind the
  padding the layout asks for, is byte for byte what the fragmenter would have written at
  that block offset, and the block offset advances the same way.\<close>

theorem preframed_equivalence:
  assumes "encode_one_op_full_detached app x = Some rec" "block_offset \<le> BLOCK_SIZE"
    and "take_preframed_layout (length rec) block_offset = Some (pad, bo')"
    and "encode_ops [x] [] = Some data"
  shows "fragment_into app data b block_offset = Some (b @ replicate pad 0 @ rec, bo') \<and>
    fragment_encoded_len app [x] b block_offset = Some (length data, b @ replicate pad 0 @ rec, bo')"
  using assms(2,4) preframed_image [OF assms(3,1,2)]
  by (auto simp: encode_ops_image fragment_encoded_len_image fragment_into_image length_record_image)

theorem preframed_equivalence_witness:
  "\<exists>rec data. encode_one_op_full_detached (\<lambda>c bs. c) (op_delete 7 [1]) = Some rec \<and>
    take_preframed_layout (length rec) 32764 = Some (4, 30) \<and>
    encode_ops [op_delete 7 [1]] [] = Some data \<and>
    fragment_into (\<lambda>c bs. c) data [] 32764 = Some ([0, 0, 0, 0] @ rec, 30)"
proof -
  let ?x = "op_delete 7 [1]"
  let ?rec = "phys_record (\<lambda>c bs. c) Full (record_image [?x])"
  have len: "length (record_image [?x]) = 23"
    by (simp add: record_image_single op_image_def op_delete_def)
  then have rec: "encode_one_op_full_detached (\<lambda>c bs. c) ?x = Some ?rec"
    by (simp add: encode_one_op_image BLOCK_SIZE_def HEADER_SIZE_def)
  have lay: "take_preframed_layout (length ?rec) 32764 = Some (4, 30)"
    by (simp add: len take_preframed_layout_def BLOCK_SIZE_def HEADER_SIZE_def)
  have enc: "encode_ops [?x] [] = Some (record_image [?x])" by (simp add: encode_ops_image)
  have "replicate 4 (0 :: byte) = [0, 0, 0, 0]" by (simp add: numeral_eq_Suc)
  with preframed_equivalence [OF rec _ lay enc, of "[]"] rec lay enc show ?thesis
    by (auto simp: BLOCK_SIZE_def)
qed

end
