(* ===== verification/Wal_Roundtrip.thy ===== *)
theory Wal_Roundtrip
  imports Wal_Reader Wal_Source
begin

text \<open>
  Writer and reader together, one record at a time: the reader positioned at the image the
  writer's framing produces for a record returns that record and stands behind it, and
  preallocated zeroes read as a clean end of log.  The hypothesis \<open>log_ok\<close> is what the
  code needs: no stored checksum equals the seal magic, and no non-empty record starts
  with exactly one header's worth of space left in its block.
\<close>

section \<open>Log images\<close>

fun log_image :: "crc_append \<Rightarrow> nat \<Rightarrow> bytes list \<Rightarrow> bytes \<times> nat" where
  "log_image app bo [] = ([], bo)"
| "log_image app bo (d # ds) =
     (fst (frame_image app bo d True) @ fst (log_image app (snd (frame_image app bo d True)) ds),
      snd (log_image app (snd (frame_image app bo d True)) ds))"

text \<open>The framing loop of \<open>add_records\<close>.\<close>

fun fragment_records :: "crc_append \<Rightarrow> bytes list \<Rightarrow> bytes \<Rightarrow> nat \<Rightarrow> (bytes \<times> nat) option" where
  "fragment_records app [] b block_offset = Some (b, block_offset)"
| "fragment_records app (d # ds) b block_offset =
     Option.bind (fragment_into app d b block_offset)
       (\<lambda>(b, bo). fragment_records app ds b bo)"

lemma fragment_records_image:
  assumes "bo \<le> BLOCK_SIZE"
  shows "fragment_records app ds b bo = Some (b @ fst (log_image app bo ds), snd (log_image app bo ds))"
  using assms
proof (induction ds arbitrary: b bo)
  case (Cons d ds)
  then show ?case
    using frame_image_aligned [of bo app d True] by (simp add: fragment_into_image)
qed simp

function frame_ok :: "crc_append \<Rightarrow> nat \<Rightarrow> bytes \<Rightarrow> bool \<Rightarrow> bool" where
  "frame_ok app block_offset d begin' =
     (let (p, bo) = pad_block [] block_offset;
          n = min (length d) (BLOCK_SIZE - bo - HEADER_SIZE);
          t = fragment_type begin' (length d \<le> n)
      in record_checksum app (record_type_byte t) (word_of_nat n) (take n d) \<noteq> SEAL_MAGIC \<and>
         (if length d \<le> n then True
          else (begin' \<longrightarrow> n \<noteq> 0) \<and> frame_ok app (bo + (HEADER_SIZE + n)) (drop n d) False))"
  by pat_completeness auto
termination
  by (relation "measure (\<lambda>(app, bo, d, begin'). frag_measure bo (length d))")
    (auto intro!: frag_measure_decreases)

declare frame_ok.simps [simp del]

fun log_ok :: "crc_append \<Rightarrow> nat \<Rightarrow> bytes list \<Rightarrow> bool" where
  "log_ok app bo [] = True"
| "log_ok app bo (d # ds) =
     (frame_ok app bo d True \<and> log_ok app (snd (frame_image app bo d True)) ds)"

section \<open>The reader's position in a file\<close>

definition rd_at :: "bytes \<Rightarrow> wal_reader \<Rightarrow> nat \<Rightarrow> bool" where
  "rd_at file r off \<longleftrightarrow>
     rd_start r + rd_cursor r = off \<and> rd_cursor r \<le> rd_block_end r \<and> rd_block_end r \<le> BLOCK_SIZE \<and>
     rd_start r + rd_block_end r \<le> length file \<and>
     rd_src r = drop (rd_start r + rd_block_end r) file \<and>
     take (rd_block_end r) (rd_block r) = take (rd_block_end r) (drop (rd_start r) file) \<and>
     \<not> rd_fault r \<and>
     (rd_block_end r = BLOCK_SIZE \<or> rd_src r = [] \<or> rd_block_end r = 0)"

lemma rd_at_new: "rd_at file (reader_new file False) 0"
  by (simp add: rd_at_def reader_new_def)

lemma rd_at_slice:
  assumes "rd_at file r off" "rd_cursor r + k + n \<le> rd_block_end r"
  shows "take n (drop (rd_cursor r + k) (rd_block r)) = take n (drop (off + k) file)"
proof -
  have blk: "take (rd_block_end r) (rd_block r) = take (rd_block_end r) (drop (rd_start r) file)"
    and off: "off = rd_start r + rd_cursor r"
    using assms(1) by (auto simp: rd_at_def)
  have "take n (drop (rd_cursor r + k) (rd_block r)) =
      take n (drop (rd_cursor r + k) (take (rd_block_end r) (rd_block r)))"
    by (rule take_drop_take [symmetric, OF assms(2)])
  also have "\<dots> = take n (drop (rd_cursor r + k) (drop (rd_start r) file))"
    unfolding blk by (rule take_drop_take [OF assms(2)])
  finally show ?thesis by (simp add: off add.commute add.left_commute)
qed

lemma rd_at_nth:
  assumes "rd_at file r off" "rd_cursor r + k < rd_block_end r"
  shows "rd_block r ! (rd_cursor r + k) = file ! (off + k)"
proof -
  have len: "rd_block_end r \<le> length (rd_block r)"
    using assms(1) arg_cong [of "take (rd_block_end r) (rd_block r)" _ length]
    by (fastforce simp: rd_at_def)
  have "take 1 (drop (rd_cursor r + k) (rd_block r)) = take 1 (drop (off + k) file)"
    using rd_at_slice [OF assms(1), of k 1] assms(2) by simp
  moreover have "off + k < length file" using assms by (simp add: rd_at_def)
  ultimately show ?thesis using assms(2) len by (simp add: take_Suc hd_drop_conv_nth)
qed

lemma rd_at_covers:
  assumes "rd_at file r off" "rd_cursor r < rd_block_end r"
    and "off + n \<le> length file" "rd_cursor r + n \<le> BLOCK_SIZE"
  shows "rd_cursor r + n \<le> rd_block_end r"
  using assms by (auto simp: rd_at_def)

lemma rd_at_advance:
  assumes "rd_at file r off" "rd_cursor r + n \<le> rd_block_end r"
  shows "rd_at file (r\<lparr>rd_cursor := rd_cursor r + n\<rparr>) (off + n)"
  using assms by (auto simp: rd_at_def)

lemma rd_at_scratch [simp]: "rd_at file (r\<lparr>rd_scratch := s\<rparr>) off = rd_at file r off"
  by (simp add: rd_at_def)

lemma rd_at_keep [simp]: "rd_at file (keep_record b r) off = rd_at file r off"
  by (simp add: rd_at_def keep_record_def Let_def split: option.splits)

lemma rd_next_block:
  assumes "rd_at file r off"
  shows "\<exists>r1. read_next_block r = (Inr (rd_src r \<noteq> []), r1) \<and>
     rd_at file r1 (rd_start r + rd_block_end r) \<and> rd_cursor r1 = 0 \<and>
     rd_block_end r1 = min BLOCK_SIZE (length file - (rd_start r + rd_block_end r)) \<and>
     rd_scratch r1 = rd_scratch r"
proof -
  have "\<not> rd_fault r" using assms by (simp add: rd_at_def)
  then obtain got r1 where r1: "read_next_block r = (Inr got, r1)"
    by (simp add: read_next_block_def Let_def)
  note f = read_next_block_Inr [OF r1]
  have src: "rd_src r = drop (rd_start r + rd_block_end r) file" using assms by (simp add: rd_at_def)
  have "rd_fault r1 = rd_fault r"
    using r1 by (auto simp: read_next_block_def Let_def split: if_splits)
  then have "rd_at file r1 (rd_start r + rd_block_end r)"
    using f assms by (auto simp: rd_at_def src add.commute add.left_commute min_def)
  with f r1 show ?thesis by (auto simp: src)
qed

section \<open>Reading one fragment\<close>

text \<open>When a header follows the padding, an iteration looks at it, in the current or in
  the next block.\<close>

lemma read_iter_at:
  assumes at: "rd_at file r off" and pad: "pad_block [] (rd_cursor r) = (p, bo)"
    and room: "off + length p + HEADER_SIZE \<le> length file"
  shows "\<exists>r1. rd_at file r1 (off + length p) \<and> rd_cursor r1 = bo \<and>
     rd_cursor r1 + HEADER_SIZE \<le> rd_block_end r1 \<and> rd_scratch r1 = rd_scratch r \<and>
     read_iter app r = (case seal_check app r1 of
       Some res \<Rightarrow> Return res r1 | None \<Rightarrow> read_physical app r1)"
proof (cases "rd_block_end r < rd_cursor r + HEADER_SIZE")
  case False
  then have "HEADER_SIZE \<le> BLOCK_SIZE - rd_cursor r" using at by (auto simp: rd_at_def)
  with pad have "p = [] \<and> bo = rd_cursor r" by (simp add: pad_block_def Let_def)
  with False at show ?thesis
    by (intro exI [of _ r]) (auto simp: read_iter_def split: option.splits)
next
  case need: True
  obtain r1 where r1: "read_next_block r = (Inr (rd_src r \<noteq> []), r1)"
    "rd_at file r1 (rd_start r + rd_block_end r)" "rd_cursor r1 = 0"
    "rd_block_end r1 = min BLOCK_SIZE (length file - (rd_start r + rd_block_end r))"
    "rd_scratch r1 = rd_scratch r"
    using rd_next_block [OF at] by blast
  have end_: "rd_start r + rd_block_end r = off + length p" "bo = 0"
    using need pad at room
    by (auto simp: rd_at_def pad_block_def Let_def BLOCK_SIZE_def HEADER_SIZE_def split: if_splits)
  have src: "rd_src r \<noteq> []" using at room by (auto simp: rd_at_def end_ HEADER_SIZE_def)
  have fits: "rd_cursor r1 + HEADER_SIZE \<le> rd_block_end r1"
    using r1(3,4) room by (simp add: end_ BLOCK_SIZE_def HEADER_SIZE_def)
  have "read_iter app r = (case seal_check app r1 of
       Some res \<Rightarrow> Return res r1 | None \<Rightarrow> read_physical app r1)"
    using need r1(1) src fits by (auto simp: read_iter_def split: option.splits)
  with r1 fits show ?thesis by (intro exI [of _ r1]) (simp add: end_)
qed

lemma length_two: "length xs = 2 \<Longrightarrow> \<exists>a b. xs = [a, b]"
  by (auto simp: length_Suc_conv numeral_2_eq_2)

text \<open>A physical record with an arbitrary stored checksum.\<close>

definition stored_record :: "u32 \<Rightarrow> record_type \<Rightarrow> bytes \<Rightarrow> bytes" where
  "stored_record c t d =
     to_le_bytes c @ to_le_bytes (word_of_nat (length d) :: u16) @ [record_type_byte t] @ d"

lemma phys_stored_record:
  "phys_record app t d =
     stored_record (record_checksum app (record_type_byte t) (word_of_nat (length d)) d) t d"
  by (simp add: phys_record_def stored_record_def)

lemma read_stored_at:
  assumes at: "rd_at file r off" and hdr: "rd_cursor r + HEADER_SIZE \<le> rd_block_end r"
    and img: "drop off file = stored_record c t d @ post" and t: "t \<noteq> Zero"
    and fits: "rd_cursor r + HEADER_SIZE + length d \<le> BLOCK_SIZE"
    and crc: "c \<noteq> SEAL_MAGIC"
  shows "seal_check app r = None"
    and "read_physical app r =
      (if c = record_checksum app (record_type_byte t) (word_of_nat (length d)) d
       then accept_fragment t d (r\<lparr>rd_cursor := rd_cursor r + (HEADER_SIZE + length d)\<rparr>)
       else Return (Inl (CrcMismatch off c
         (record_checksum app (record_type_byte t) (word_of_nat (length d)) d))) r)"
    and "rd_at file (r\<lparr>rd_cursor := rd_cursor r + (HEADER_SIZE + length d)\<rparr>)
      (off + (HEADER_SIZE + length d))"
proof -
  let ?len = "word_of_nat (length d) :: u16"
  have off: "current_record_stream_offset r = off"
    using at by (simp add: rd_at_def current_record_stream_offset_def)
  have flen: "off + (HEADER_SIZE + length d) \<le> length file"
    using arg_cong [OF img, of length] by (simp add: stored_record_def HEADER_SIZE_def)
  have inb: "rd_cursor r + (HEADER_SIZE + length d) \<le> rd_block_end r"
    using rd_at_covers [OF at _ flen] hdr fits by (simp add: HEADER_SIZE_def)
  show "rd_at file (r\<lparr>rd_cursor := rd_cursor r + (HEADER_SIZE + length d)\<rparr>)
      (off + (HEADER_SIZE + length d))"
    by (rule rd_at_advance [OF at inb])
  have file_nth: "file ! (off + k) = (stored_record c t d @ post) ! k" if "k < HEADER_SIZE" for k
    using that flen by (simp flip: img)
  have hd4: "take 4 (drop (rd_cursor r) (rd_block r)) = to_le_bytes c"
    using rd_at_slice [OF at, of 0 4] hdr by (simp add: img stored_record_def HEADER_SIZE_def)
  have "take 4 (take SEAL_FRAME_LEN (drop (rd_cursor r) (rd_block r))) = to_le_bytes c"
    using hd4 by (simp add: SEAL_FRAME_LEN_def min_def)
  moreover have "to_le_bytes c \<noteq> to_le_bytes SEAL_MAGIC"
    using crc to_le_bytes_inj [where 'a=32] by simp
  ultimately show "seal_check app r = None" by (simp add: seal_check_def)
  have ty: "rd_block r ! (rd_cursor r + 6) = record_type_byte t"
    using rd_at_nth [OF at, of 6] file_nth [of 6] hdr
    by (simp add: stored_record_def HEADER_SIZE_def nth_append)
  obtain l0 l1 where l: "to_le_bytes ?len = [l0, l1]"
    using length_two [of "to_le_bytes ?len"] by auto
  have "[rd_block r ! (rd_cursor r + 4), rd_block r ! (rd_cursor r + 5)] = to_le_bytes ?len"
    using rd_at_nth [OF at, of 4] rd_at_nth [OF at, of 5] file_nth [of 4] file_nth [of 5] hdr
    by (simp add: stored_record_def HEADER_SIZE_def nth_append l)
  moreover have "length d < 2 ^ 16" using fits by (simp add: BLOCK_SIZE_def)
  ultimately have len: "decode_length [rd_block r ! (rd_cursor r + 4), rd_block r ! (rd_cursor r + 5)] =
      length d"
    by (simp add: decode_length_def unat_of_nat)
  have "drop (off + HEADER_SIZE) file = d @ post"
    using arg_cong [OF img, of "drop HEADER_SIZE"]
    by (simp add: stored_record_def HEADER_SIZE_def add.commute)
  then have payload: "take (length d) (drop (rd_cursor r + HEADER_SIZE) (rd_block r)) = d"
    using rd_at_slice [OF at, of HEADER_SIZE "length d"] inb by simp
  have nz: "record_type_byte t \<noteq> record_type_byte Zero" using t by (cases t) simp_all
  have "physical_payload_act (length d) (BLOCK_SIZE - HEADER_SIZE)
      (rd_cursor r + HEADER_SIZE + length d) (rd_block_end r) BLOCK_SIZE = PhysContinue"
    using inb fits by (simp add: physical_payload_act_def)
  then show "read_physical app r =
      (if c = record_checksum app (record_type_byte t) (word_of_nat (length d)) d
       then accept_fragment t d (r\<lparr>rd_cursor := rd_cursor r + (HEADER_SIZE + length d)\<rparr>)
       else Return (Inl (CrcMismatch off c
         (record_checksum app (record_type_byte t) (word_of_nat (length d)) d))) r)"
    using nz hd4 payload
    by (simp add: read_physical_def Let_def ty len decode_crc_def crc_match_ok_def add.assoc off)
qed

section \<open>Reading one record\<close>

lemma frame_split:
  assumes "pad_block [] bo0 = (p, bo)" "n = min (length d) (BLOCK_SIZE - bo - HEADER_SIZE)"
    and "t = fragment_type begin' (length d \<le> n)"
  shows "frame_image app bo0 d begin' =
      (if length d \<le> n then (p @ phys_record app t (take n d), bo + (HEADER_SIZE + n))
       else (p @ phys_record app t (take n d) @
              fst (frame_image app (bo + (HEADER_SIZE + n)) (drop n d) False),
             snd (frame_image app (bo + (HEADER_SIZE + n)) (drop n d) False)))"
    and "frame_ok app bo0 d begin' \<longleftrightarrow>
      record_checksum app (record_type_byte t) (word_of_nat n) (take n d) \<noteq> SEAL_MAGIC \<and>
      (length d \<le> n \<or> (begin' \<longrightarrow> n \<noteq> 0) \<and>
        frame_ok app (bo + (HEADER_SIZE + n)) (drop n d) False)"
  unfolding frame_image.simps [of app bo0] frame_ok.simps [of app bo0] assms(1) Let_def prod.case
    assms(2,3) [symmetric]
  by (simp_all split: prod.splits)

lemma fragment_type_cases:
  "fragment_type True True = Full" "fragment_type True False = First"
  "fragment_type False True = Last" "fragment_type False False = Middle"
  by (simp_all add: fragment_type_def)

lemma fragment_type_nonzero [simp]: "fragment_type a b \<noteq> Zero"
  by (simp add: fragment_type_def)

text \<open>Accepting a fragment when the scratch buffer holds the record's earlier bytes.\<close>

lemma accept_fragment_begin:
  "accept_fragment Full d r = Return (Inr (Some d)) (r\<lparr>rd_scratch := []\<rparr>)"
  "accept_fragment First d r = Again (r\<lparr>rd_scratch := d\<rparr>)"
  by (simp_all add: accept_fragment_def)

lemma accept_fragment_cont:
  assumes "rd_scratch r \<noteq> []"
  shows "accept_fragment Last d r = Return (Inr (Some (rd_scratch r @ d))) (r\<lparr>rd_scratch := []\<rparr>)"
    and "accept_fragment Middle d r = Again (r\<lparr>rd_scratch := rd_scratch r @ d\<rparr>)"
  using assms by (simp_all add: accept_fragment_def batch_is_empty_def)

lemma length_stored_record [simp]: "length (stored_record c t d) = HEADER_SIZE + length d"
  by (simp add: stored_record_def HEADER_SIZE_def)

lemma read_stored_fragment:
  assumes at: "rd_at file r off" and pad: "pad_block [] (rd_cursor r) = (p, bo)"
    and img: "drop off file = p @ stored_record c t d @ post" and t: "t \<noteq> Zero"
    and fits: "bo + HEADER_SIZE + length d \<le> BLOCK_SIZE" and crc: "c \<noteq> SEAL_MAGIC"
  shows "\<exists>r1. read_iter app r =
       (if c = record_checksum app (record_type_byte t) (word_of_nat (length d)) d
        then accept_fragment t d (r1\<lparr>rd_cursor := bo + (HEADER_SIZE + length d)\<rparr>)
        else Return (Inl (CrcMismatch (off + length p) c
          (record_checksum app (record_type_byte t) (word_of_nat (length d)) d))) r1) \<and>
     rd_at file (r1\<lparr>rd_cursor := bo + (HEADER_SIZE + length d)\<rparr>)
       (off + length p + (HEADER_SIZE + length d)) \<and>
     rd_scratch r1 = rd_scratch r"
proof -
  have off1: "drop (off + length p) file = stored_record c t d @ post"
    using arg_cong [OF img, of "drop (length p)"] by (simp add: add.commute)
  have room: "off + length p + HEADER_SIZE \<le> length file"
    using arg_cong [OF img, of length] by (simp add: HEADER_SIZE_def)
  obtain r1 where r1: "rd_at file r1 (off + length p)" "rd_cursor r1 = bo"
    "rd_cursor r1 + HEADER_SIZE \<le> rd_block_end r1" "rd_scratch r1 = rd_scratch r"
    "read_iter app r = (case seal_check app r1 of
       Some res \<Rightarrow> Return res r1 | None \<Rightarrow> read_physical app r1)"
    using read_iter_at [OF at pad room] by blast
  have "rd_cursor r1 + HEADER_SIZE + length d \<le> BLOCK_SIZE" using fits r1(2) by simp
  note phys = read_stored_at [OF r1(1,3) off1 t this crc]
  show ?thesis by (intro exI [of _ r1]) (use phys r1 in simp)
qed

lemma read_fragment:
  assumes at: "rd_at file r off" and pad: "pad_block [] (rd_cursor r) = (p, bo)"
    and img: "drop off file = p @ phys_record app t d @ post" and t: "t \<noteq> Zero"
    and fits: "bo + HEADER_SIZE + length d \<le> BLOCK_SIZE"
    and crc: "record_checksum app (record_type_byte t) (word_of_nat (length d)) d \<noteq> SEAL_MAGIC"
  shows "\<exists>r2. read_iter app r = accept_fragment t d r2 \<and>
     rd_at file r2 (off + length p + (HEADER_SIZE + length d)) \<and>
     rd_scratch r2 = rd_scratch r \<and> rd_cursor r2 = bo + (HEADER_SIZE + length d)"
proof -
  obtain r1 where r1: "read_iter app r =
      accept_fragment t d (r1\<lparr>rd_cursor := bo + (HEADER_SIZE + length d)\<rparr>)"
    "rd_at file (r1\<lparr>rd_cursor := bo + (HEADER_SIZE + length d)\<rparr>)
       (off + length p + (HEADER_SIZE + length d))" "rd_scratch r1 = rd_scratch r"
    using read_stored_fragment [OF at pad img [unfolded phys_stored_record] t fits crc, of app] by auto
  then show ?thesis by (intro exI [of _ "r1\<lparr>rd_cursor := bo + (HEADER_SIZE + length d)\<rparr>"]) simp
qed

lemma read_frame:
  assumes "rd_at file r off" "drop off file = fst (frame_image app (rd_cursor r) d begin') @ post"
    and "frame_ok app (rd_cursor r) d begin'" "\<not> begin' \<Longrightarrow> rd_scratch r \<noteq> []"
  shows "\<exists>r'. read_record app r =
       (Inr (Some ((if begin' then [] else rd_scratch r) @ d)), r') \<and>
     rd_at file r' (off + length (fst (frame_image app (rd_cursor r) d begin'))) \<and>
     rd_cursor r' = snd (frame_image app (rd_cursor r) d begin') \<and> rd_scratch r' = []"
  using assms
proof (induction "frag_measure (rd_cursor r) (length d)" arbitrary: r off d begin' rule: less_induct)
  case less
  obtain p bo where pad: "pad_block [] (rd_cursor r) = (p, bo)" by fastforce
  define n where "n = min (length d) (BLOCK_SIZE - bo - HEADER_SIZE)"
  define t where "t = fragment_type begin' (length d \<le> n)"
  let ?rest = "frame_image app (bo + (HEADER_SIZE + n)) (drop n d) False"
  let ?old = "if begin' then [] else rd_scratch r"
  define tail where "tail = (if length d \<le> n then [] else fst ?rest)"
  note split = frame_split [OF pad n_def t_def, of app]
  have n: "length (take n d) = n" "bo + HEADER_SIZE + n \<le> BLOCK_SIZE"
    using pad_block_bounds(1) [OF pad] by (auto simp: n_def)
  have img: "drop off file = p @ phys_record app t (take n d) @ tail @ post"
    using less.prems(2) split(1) by (simp add: tail_def split: if_splits)
  obtain r2 where it: "read_iter app r = accept_fragment t (take n d) r2"
    and r2: "rd_at file r2 (off + length p + (HEADER_SIZE + n))" "rd_scratch r2 = rd_scratch r"
      "rd_cursor r2 = bo + (HEADER_SIZE + n)"
    using read_fragment [OF less.prems(1) pad img] n less.prems(3) split(2) by (auto simp: t_def)
  show ?case
  proof (cases "length d \<le> n")
    case True
    have "accept_fragment t d r2 = Return (Inr (Some (?old @ d))) (r2\<lparr>rd_scratch := []\<rparr>)"
      using less.prems(4) r2(2) True
      by (cases begin')
        (simp_all add: t_def fragment_type_cases accept_fragment_begin accept_fragment_cont)
    with it r2 split(1) True n(1) show ?thesis
      by (simp add: read_record.simps [of app r] add.assoc)
  next
    case False
    define r3 where "r3 = r2\<lparr>rd_scratch := ?old @ take n d\<rparr>"
    have "accept_fragment t (take n d) r2 = Again r3"
      using less.prems(4) r2(2) False
      by (cases begin') (simp_all add: t_def fragment_type_cases accept_fragment_begin
          accept_fragment_cont r3_def)
    with it have rr: "read_record app r = read_record app r3"
      by (simp add: read_record.simps [of app r])
    have ok3: "frame_ok app (rd_cursor r3) (drop n d) False" "rd_scratch r3 \<noteq> []"
      using less.prems(3,4) split(2) False r2(3) by (auto simp: r3_def)
    have m: "frag_measure (rd_cursor r3) (length (drop n d)) < frag_measure (rd_cursor r) (length d)"
      using frag_measure_decreases [OF pad [symmetric], of "length d"] False
      by (simp add: r3_def r2(3) n_def min_def split: if_splits)
    have img3: "drop (off + length p + (HEADER_SIZE + n)) file =
        fst (frame_image app (rd_cursor r3) (drop n d) False) @ post"
      using arg_cong [OF img, of "drop (length p + (HEADER_SIZE + n))"] n(1) False
      by (simp add: tail_def r3_def r2(3) add.commute add.left_commute)
    from less.hyps [OF m _ img3 ok3(1)] r2(1) ok3(2) rr split(1) False n(1)
    show ?thesis by (auto simp: r3_def r2(3) add.assoc)
  qed
qed

section \<open>End of log\<close>

text \<open>Preallocated zeroes after the log end the stream cleanly.\<close>

lemma zero_header:
  assumes at: "rd_at file r off" and hdr: "rd_cursor r + HEADER_SIZE \<le> rd_block_end r"
    and z: "drop off file = replicate k 0"
  shows "seal_check app r = None"
    and "read_physical app r = Again (r\<lparr>rd_cursor := rd_block_end r\<rparr>)"
proof -
  have zero: "rd_block r ! (rd_cursor r + i) = 0" if "rd_cursor r + i < rd_block_end r" for i
  proof -
    have "off + i < length file" using at that by (auto simp: rd_at_def)
    then have "file ! (off + i) = drop off file ! i" and "i < k"
      using arg_cong [OF z, of length] by simp_all
    then show ?thesis using rd_at_nth [OF at that] z by simp
  qed
  have "take 4 (drop (rd_cursor r) (rd_block r)) = take 4 (replicate k 0)"
    using rd_at_slice [OF at, of 0 4] hdr z by (simp add: HEADER_SIZE_def)
  moreover have "to_le_bytes SEAL_MAGIC = [0x4C, 0x41, 0x45, 0x53]"
    by (simp add: le_bytes_eval SEAL_MAGIC_def)
  moreover have "take 4 (replicate k (0 :: byte)) \<noteq> [0x4C, 0x41, 0x45, 0x53]"
  proof
    assume e: "take 4 (replicate k (0 :: byte)) = [0x4C, 0x41, 0x45, 0x53]"
    have "(0x4C :: byte) \<in> set (take 4 (replicate k 0))" unfolding e by simp
    then have "(0x4C :: byte) = 0" by (auto dest: in_set_takeD)
    then show False by simp
  qed
  ultimately show "seal_check app r = None"
    by (simp add: seal_check_def SEAL_FRAME_LEN_def min_def Let_def)
  have "take (rd_block_end r) (rd_block r) = take (rd_block_end r) (drop (rd_start r) file)"
    "off = rd_start r + rd_cursor r" using at by (auto simp: rd_at_def)
  moreover have "drop (off + HEADER_SIZE) file = replicate (k - HEADER_SIZE) 0"
    using z by (metis add.commute drop_drop drop_replicate)
  ultimately have "drop (rd_cursor r + HEADER_SIZE) (take (rd_block_end r) (rd_block r)) =
      take (rd_block_end r - (rd_cursor r + HEADER_SIZE)) (replicate (k - HEADER_SIZE) 0)"
    by (simp add: drop_take add.commute add.left_commute)
  then have "\<not> list_ex (\<lambda>b. b \<noteq> 0)
      (drop (rd_cursor r + HEADER_SIZE) (take (rd_block_end r) (rd_block r)))"
    by (auto simp: list_ex_iff dest: in_set_takeD)
  then show "read_physical app r = Again (r\<lparr>rd_cursor := rd_block_end r\<rparr>)"
    using zero [of 4] zero [of 5] zero [of 6] hdr
    by (simp add: read_physical_def Let_def HEADER_SIZE_def decode_length_def from_le_bytes_def
        batch_is_empty_def)
qed

lemma read_iter_zeroes:
  assumes at: "rd_at file r off" and z: "drop off file = replicate k 0"
  shows "(\<exists>r'. read_iter app r = Return (Inr None) r') \<or>
    (\<exists>r' off' k'. read_iter app r = Again r' \<and> rd_at file r' off' \<and>
       drop off' file = replicate k' 0)"
proof -
  have fin: ?thesis
    if "rd_at file r1 o1" "drop o1 file = replicate k1 0"
      "rd_cursor r1 + HEADER_SIZE \<le> rd_block_end r1"
      "read_iter app r = (case seal_check app r1 of
         Some res \<Rightarrow> Return res r1 | None \<Rightarrow> read_physical app r1)" for r1 o1 k1
  proof -
    let ?n = "rd_block_end r1 - rd_cursor r1"
    have "rd_at file (r1\<lparr>rd_cursor := rd_cursor r1 + ?n\<rparr>) (o1 + ?n)"
      using that(1,3) by (intro rd_at_advance) auto
    moreover have "drop (o1 + ?n) file = replicate (k1 - ?n) 0"
      using that(2) by (metis add.commute drop_drop drop_replicate)
    moreover have "rd_cursor r1 + ?n = rd_block_end r1" using that(3) by simp
    ultimately show ?thesis using zero_header [OF that(1,3,2)] that(4) by auto
  qed
  show ?thesis
  proof (cases "rd_block_end r < rd_cursor r + HEADER_SIZE")
    case False
    then show ?thesis
      using fin [OF at z] by (auto simp: read_iter_def split: option.splits)
  next
    case need: True
    obtain r1 where r1: "read_next_block r = (Inr (rd_src r \<noteq> []), r1)"
      "rd_at file r1 (rd_start r + rd_block_end r)"
      using rd_next_block [OF at] by blast
    have le: "off \<le> rd_start r + rd_block_end r" using at by (auto simp: rd_at_def)
    then have z1: "drop (rd_start r + rd_block_end r) file =
        replicate (k - (rd_start r + rd_block_end r - off)) 0"
      using z by (metis drop_drop drop_replicate le_add_diff_inverse2)
    show ?thesis
    proof (cases "rd_src r = [] \<or> rd_block_end r1 < rd_cursor r1 + HEADER_SIZE")
      case True
      with need r1(1) show ?thesis by (auto simp: read_iter_def)
    next
      case False
      with need r1(1) have "read_iter app r = (case seal_check app r1 of
          Some res \<Rightarrow> Return res r1 | None \<Rightarrow> read_physical app r1)"
        by (auto simp: read_iter_def split: option.splits)
      with fin [OF r1(2) z1] False show ?thesis by simp
    qed
  qed
qed

lemma read_zeroes:
  assumes "rd_at file r off" "drop off file = replicate k 0"
  shows "\<exists>r'. read_record app r = (Inr None, r')"
  using assms
proof (induction "rd_measure r" arbitrary: r off k rule: less_induct)
  case less
  from read_iter_zeroes [OF less.prems, of app] show ?case
  proof (elim disjE exE conjE)
    fix r' assume "read_iter app r = Return (Inr None) r'"
    then show ?thesis by (simp add: read_record.simps [of app r])
  next
    fix r' off' k' assume a: "read_iter app r = Again r'" "rd_at file r' off'"
      "drop off' file = replicate k' 0"
    from less.hyps [OF read_iter_measure(1) [OF a(1)] a(2,3)] a(1) show ?thesis
      by (simp add: read_record.simps [of app r])
  qed
qed

end
