(* ===== verification/Wal_Recovery.thy ===== *)
theory Wal_Recovery
  imports Wal_Roundtrip
begin

text \<open>
  What recovery guarantees: a log written by the framing layer is recovered completely
  and leaves the append point at its end; on any file whatsoever, only bytes of
  checksum-valid physical records are ever returned; a damaged record right behind an
  intact prefix stops recovery with the checksum error and the intact prefix; and the
  one alignment at which the writer produces a record the reader refuses.
\<close>

section \<open>What reading a record leaves alone\<close>

definition rd_marks :: "wal_reader \<Rightarrow> nat \<times> nat option \<times> nat option" where
  "rd_marks r = (rd_last_good r, rd_pending_resync r, rd_resync_origin r)"

lemma read_next_block_marks: "rd_marks (snd (read_next_block r)) = rd_marks r"
  by (simp add: read_next_block_def rd_marks_def Let_def)

lemma accept_fragment_marks:
  "accept_fragment t d r = Return res r' \<Longrightarrow> rd_marks r' = rd_marks r"
  "accept_fragment t d r = Again r' \<Longrightarrow> rd_marks r' = rd_marks r"
  by (auto simp: accept_fragment_def rd_marks_def split: frag_act.splits if_splits)

lemma read_physical_marks:
  "read_physical app r = Return res r' \<Longrightarrow> rd_marks r' = rd_marks r"
  "read_physical app r = Again r' \<Longrightarrow> rd_marks r' = rd_marks r"
  by (auto simp: read_physical_def Let_def dest!: accept_fragment_marks
      split: if_splits option.splits physical_act.splits)
    (auto simp: rd_marks_def)

lemma read_iter_marks:
  "read_iter app r = Return res r' \<Longrightarrow> rd_marks r' = rd_marks r"
  "read_iter app r = Again r' \<Longrightarrow> rd_marks r' = rd_marks r"
  using read_next_block_marks [of r]
  by (auto simp: read_iter_def Let_def dest!: read_physical_marks
      split: if_splits option.splits sum.splits prod.splits)

lemma read_record_marks: "read_record app r = (res, r') \<Longrightarrow> rd_marks r' = rd_marks r"
proof (induction app r rule: read_record.induct)
  case (1 app r)
  then show ?case
    by (cases "read_iter app r")
      (auto simp: read_record.simps [of app r] dest: read_iter_marks)
qed

section \<open>Collecting a log\<close>

lemma keep_record_marks:
  "rd_marks (keep_record False r) =
     (current_record_stream_offset r, rd_pending_resync r, rd_resync_origin r)"
  by (simp add: keep_record_def rd_marks_def)

lemma rd_at_offset: "rd_at file r off \<Longrightarrow> current_record_stream_offset r = off"
  by (simp add: rd_at_def current_record_stream_offset_def)

text \<open>Collecting the records of an intact prefix brings the reader behind it.\<close>

lemma collect_prefix_log:
  assumes "rd_at file r off"
    and "drop off file = fst (log_image app (rd_cursor r) ds) @ post"
    and "log_ok app (rd_cursor r) ds"
    and "rd_marks r = (off, None, None)"
  shows "\<exists>r' n'. collect_loop app r out n False = collect_loop app r' (out @ ds) n' False \<and>
     rd_at file r' (off + length (fst (log_image app (rd_cursor r) ds))) \<and>
     rd_cursor r' = snd (log_image app (rd_cursor r) ds) \<and>
     rd_marks r' = (off + length (fst (log_image app (rd_cursor r) ds)), None, None)"
  using assms
proof (induction ds arbitrary: r off out n)
  case Nil
  then show ?case by (intro exI [of _ r] exI [of _ n]) simp
next
  case (Cons d ds)
  let ?img = "frame_image app (rd_cursor r) d True"
  let ?off = "off + length (fst ?img)"
  have img: "drop off file = fst ?img @ fst (log_image app (snd ?img) ds) @ post"
    using Cons.prems(2) by simp
  have ok: "frame_ok app (rd_cursor r) d True" "log_ok app (snd ?img) ds" using Cons.prems(3) by simp_all
  obtain r1 where r1: "read_record app r = (Inr (Some d), r1)" "rd_at file r1 ?off"
    "rd_cursor r1 = snd ?img"
    using read_frame [OF Cons.prems(1) img ok(1)] by auto
  let ?r1 = "keep_record False r1"
  have cur: "rd_cursor ?r1 = snd ?img" using r1(3) by (simp add: keep_record_def)
  have marks: "rd_marks ?r1 = (?off, None, None)"
    using read_record_marks [OF r1(1)] Cons.prems(4) rd_at_offset [OF r1(2)]
    by (simp add: keep_record_marks) (simp add: rd_marks_def)
  have tail: "drop ?off file = fst (log_image app (rd_cursor ?r1) ds) @ post"
    using arg_cong [OF img, of "drop (length (fst ?img))"] cur by (simp add: add.commute)
  have "log_ok app (rd_cursor ?r1) ds" using ok(2) cur by simp
  with Cons.IH [of ?r1 ?off, OF _ tail _ marks, of "out @ [d]" 0] r1(2) obtain r' n' where
    "collect_loop app ?r1 (out @ [d]) 0 False = collect_loop app r' (out @ d # ds) n' False"
    "rd_at file r' (?off + length (fst (log_image app (rd_cursor ?r1) ds)))"
    "rd_cursor r' = snd (log_image app (rd_cursor ?r1) ds)"
    "rd_marks r' = (?off + length (fst (log_image app (rd_cursor ?r1) ds)), None, None)"
    by auto
  moreover have "collect_iter app r out n False = Continue ?r1 (out @ [d]) 0 False"
    using r1(1) by (simp add: collect_iter_def is_length_resyncable_def)
  ultimately show ?case
    by (intro exI [of _ r'] exI [of _ n']) (simp add: collect_loop.simps [of app r] cur add.assoc)
qed

lemma reader_new_at:
  "rd_at file (reader_new file False) 0" "rd_cursor (reader_new file False) = 0"
  "rd_marks (reader_new file False) = (0, None, None)"
  by (simp_all add: rd_at_new) (simp_all add: reader_new_def rd_marks_def)

lemma collect_new_log:
  assumes "file = fst (log_image app 0 ds) @ post" "log_ok app 0 ds"
  shows "\<exists>r n. collect_prefix_all app (reader_new file False) = collect_loop app r ds n False \<and>
     rd_at file r (length (fst (log_image app 0 ds))) \<and> rd_cursor r = snd (log_image app 0 ds) \<and>
     rd_marks r = (length (fst (log_image app 0 ds)), None, None)"
  using collect_prefix_log [where r = "reader_new file False" and off = 0 and out = "[]" and n = 0,
      of "file" app ds post] assms
  by (simp add: reader_new_at collect_prefix_all_def)

lemma collect_zeroes:
  assumes "rd_at file r off" "drop off file = replicate k 0"
  shows "\<exists>r'. collect_loop app r out n b = ((out, None), r') \<and>
    rd_last_good r' = rd_last_good r \<and> rd_resync_origin r' = rd_resync_origin r"
proof -
  obtain r' where r': "read_record app r = (Inr None, r')" using read_zeroes [OF assms] by blast
  then show ?thesis using read_record_marks [OF r']
    by (simp add: collect_loop.simps [of app r] collect_iter_def is_length_resyncable_def rd_marks_def)
qed

section \<open>Where recovered bytes come from\<close>

text \<open>A fragment is the place, the type and the payload of a physical record.\<close>

type_synonym frag = "nat \<times> record_type \<times> bytes"

definition valid_fragment :: "crc_append \<Rightarrow> bytes \<Rightarrow> frag \<Rightarrow> bool" where
  "valid_fragment app file = (\<lambda>(off, t, d).
     take (HEADER_SIZE + length d) (drop off file) = phys_record app t d)"

fun frag_chain :: "crc_append \<Rightarrow> bytes \<Rightarrow> nat \<Rightarrow> frag list \<Rightarrow> nat \<Rightarrow> bool" where
  "frag_chain app file lo [] hi = (lo \<le> hi)"
| "frag_chain app file lo ((off, t, d) # fs) hi =
     (lo \<le> off \<and> valid_fragment app file (off, t, d) \<and>
      frag_chain app file (off + (HEADER_SIZE + length d)) fs hi)"

definition payload_of :: "frag list \<Rightarrow> bytes" where
  "payload_of fs = concat (map (\<lambda>(off, t, d). d) fs)"

definition frag_types :: "frag list \<Rightarrow> record_type list" where
  "frag_types fs = map (\<lambda>(off, t, d). t) fs"

definition open_shape :: "frag list \<Rightarrow> bool" where
  "open_shape fs \<longleftrightarrow> (\<exists>n. frag_types fs = First # replicate n Middle)"

definition record_shape :: "frag list \<Rightarrow> bool" where
  "record_shape fs \<longleftrightarrow> frag_types fs = [Full] \<or> (\<exists>n. frag_types fs = First # replicate n Middle @ [Last])"

lemma frag_chain_le: "frag_chain app file lo fs hi \<Longrightarrow> lo \<le> hi"
  by (induction app "file" lo fs hi rule: frag_chain.induct) auto

lemma frag_chain_append:
  "frag_chain app file lo (fs @ gs) hi \<longleftrightarrow>
     (\<exists>m. frag_chain app file lo fs m \<and> frag_chain app file m gs hi)"
proof (induction app "file" lo fs hi rule: frag_chain.induct)
  case (1 app "file" lo hi)
  have "frag_chain app file lo gs hi" if "lo \<le> m" "frag_chain app file m gs hi" for m
    using that by (cases gs) auto
  then show ?case by auto
qed auto

lemma frag_chain_mono: "frag_chain app file lo fs m \<Longrightarrow> m \<le> hi \<Longrightarrow> frag_chain app file lo fs hi"
  using frag_chain_append [of app "file" lo fs "[]" hi] by auto

lemma fragment_parsed:
  assumes at: "rd_at file r off" and fits: "rd_cursor r + (HEADER_SIZE + n) \<le> rd_block_end r"
    and n: "n = decode_length [rd_block r ! (rd_cursor r + 4), rd_block r ! (rd_cursor r + 5)]"
    and t: "rd_block r ! (rd_cursor r + 6) = record_type_byte t"
    and d: "d = take n (drop (rd_cursor r + HEADER_SIZE) (rd_block r))"
    and crc: "decode_crc (take 4 (drop (rd_cursor r) (rd_block r))) =
      record_checksum app (record_type_byte t) (word_of_nat n) d"
  shows "valid_fragment app file (off, t, d)" "length d = n"
proof -
  let ?b = "drop (rd_cursor r) (rd_block r)"
  let ?l = "[rd_block r ! (rd_cursor r + 4), rd_block r ! (rd_cursor r + 5)]"
  have "length (take (rd_block_end r) (rd_block r)) = rd_block_end r"
    using at by (auto simp: rd_at_def min_def)
  then have len: "HEADER_SIZE + n \<le> length ?b" using fits by simp
  then show ln: "length d = n" by (simp add: d)
  have hdr: "length ?b \<ge> 7" using len by (simp add: HEADER_SIZE_def)
  have c4: "take 4 ?b = to_le_bytes (decode_crc (take 4 ?b))"
    using to_from_le_bytes [where 'a=32, of "take 4 ?b"] hdr by (simp add: decode_crc_def)
  have l: "to_le_bytes (word_of_nat n :: u16) = ?l"
    using to_from_le_bytes [where 'a=16, of ?l] by (simp add: n decode_length_def)
  have "drop 4 ?b = ?b ! 4 # ?b ! 5 # ?b ! 6 # drop 7 ?b"
    using hdr Cons_nth_drop_Suc [of 4 ?b] Cons_nth_drop_Suc [of 5 ?b] Cons_nth_drop_Suc [of 6 ?b]
    by simp
  then have "?b = take 4 ?b @ ?l @ [record_type_byte t] @ drop HEADER_SIZE ?b"
    using append_take_drop_id [of 4 ?b] hdr t by (simp add: HEADER_SIZE_def del: append_take_drop_id)
  then have split: "?b = to_le_bytes (record_checksum app (record_type_byte t) (word_of_nat n) d) @
      to_le_bytes (word_of_nat n :: u16) @ [record_type_byte t] @ drop HEADER_SIZE ?b"
    unfolding l crc [symmetric] c4 [symmetric] .
  have "take n (drop HEADER_SIZE ?b) = d" by (simp add: d add.commute)
  then have "take (HEADER_SIZE + n) ?b = phys_record app t d"
    by (subst split, unfold phys_record_def ln) (simp add: HEADER_SIZE_def)
  with rd_at_slice [OF at, of 0 "HEADER_SIZE + n"] fits show "valid_fragment app file (off, t, d)"
    by (simp add: valid_fragment_def ln)
qed

text \<open>The scratch buffer holds the payloads of fragments behind \<open>lo\<close>; an iteration keeps
  this, or returns a record made of such fragments.\<close>

definition rd_inv :: "crc_append \<Rightarrow> bytes \<Rightarrow> nat \<Rightarrow> frag list \<Rightarrow> wal_reader \<Rightarrow> nat \<Rightarrow> bool" where
  "rd_inv app file lo sc r off \<longleftrightarrow>
     rd_at file r off \<and> frag_chain app file lo sc off \<and> rd_scratch r = payload_of sc \<and>
     (sc = [] \<or> open_shape sc)"

fun step_ok :: "crc_append \<Rightarrow> bytes \<Rightarrow> nat \<Rightarrow> read_step \<Rightarrow> bool" where
  "step_ok app file lo (Again r) = (\<exists>off sc. rd_inv app file lo sc r off)"
| "step_ok app file lo (Return (Inr (Some d)) r) =
     (\<exists>off fs. rd_at file r off \<and> rd_scratch r = [] \<and> d = payload_of fs \<and> record_shape fs \<and>
        frag_chain app file lo fs off)"
| "step_ok app file lo (Return (Inr None) r) = (\<exists>off. rd_at file r off \<and> lo \<le> off)"
| "step_ok app file lo (Return (Inl e) r) = (\<exists>off. rd_at file r off \<and> lo \<le> off)"

lemma payload_of_simps [simp]:
  "payload_of [] = []" "payload_of ((off, t, d) # fs) = d @ payload_of fs"
  "payload_of (fs @ gs) = payload_of fs @ payload_of gs"
  by (simp_all add: payload_of_def)

lemma frag_types_simps [simp]:
  "frag_types [] = []" "frag_types ((off, t, d) # fs) = t # frag_types fs"
  "frag_types (fs @ gs) = frag_types fs @ frag_types gs"
  by (simp_all add: frag_types_def)

lemma open_shape_extend:
  assumes "open_shape fs"
  shows "open_shape (fs @ [(off, Middle, d)])" "record_shape (fs @ [(off, Last, d)])"
proof -
  obtain n where n: "frag_types fs = First # replicate n Middle"
    using assms by (auto simp: open_shape_def)
  then show "open_shape (fs @ [(off, Middle, d)])"
    by (auto simp: open_shape_def replicate_append_same intro!: exI [of _ "Suc n"])
  show "record_shape (fs @ [(off, Last, d)])" using n by (auto simp: record_shape_def)
qed

lemma rd_at_advance_to:
  assumes "rd_at file r off" "rd_cursor r \<le> c" "c \<le> rd_block_end r"
  shows "rd_at file (r\<lparr>rd_cursor := c\<rparr>) (off + (c - rd_cursor r))"
  using rd_at_advance [OF assms(1), of "c - rd_cursor r"] assms(2,3) by simp

lemma accept_fragment_ok:
  assumes inv: "frag_chain app file lo sc off" "sc = [] \<or> open_shape sc"
    and r: "rd_at file r (off + (HEADER_SIZE + length d))" "rd_scratch r = payload_of sc"
    and v: "valid_fragment app file (off, t, d)"
  shows "step_ok app file lo (accept_fragment t d r)"
proof -
  let ?hi = "off + (HEADER_SIZE + length d)"
  have lo: "lo \<le> off" using frag_chain_le [OF inv(1)] .
  have one: "frag_chain app file lo [(off, t, d)] ?hi" using lo v by simp
  have ext: "frag_chain app file lo (sc @ [(off, t, d)]) ?hi"
    using inv(1) v by (auto simp: frag_chain_append)
  show ?thesis
  proof (cases t)
    case Zero
    then have "accept_fragment t d r = Again r" by (simp add: accept_fragment_def)
    moreover have "rd_inv app file lo sc r ?hi"
      using inv r frag_chain_mono [OF inv(1)] by (simp add: rd_inv_def)
    ultimately show ?thesis by auto
  next
    case Full
    have "step_ok app file lo (Return (Inr (Some d)) (r\<lparr>rd_scratch := []\<rparr>))"
      unfolding step_ok.simps
      by (intro exI [of _ ?hi] exI [of _ "[(off, t, d)]"]) (use one r Full in \<open>simp add: record_shape_def\<close>)
    with Full show ?thesis by (simp add: accept_fragment_begin)
  next
    case First
    have "rd_inv app file lo [(off, t, d)] (r\<lparr>rd_scratch := d\<rparr>) ?hi"
      using one r First by (simp add: rd_inv_def open_shape_def)
    with First show ?thesis by (auto simp: accept_fragment_begin simp del: frag_chain.simps)
  next
    case Middle
    show ?thesis
    proof (cases "payload_of sc = []")
      case True
      with Middle r lo show ?thesis
        by (auto simp: accept_fragment_def batch_is_empty_def intro: exI [of _ ?hi])
    next
      case False
      with inv(2) have "open_shape sc" by auto
      with open_shape_extend(1) ext r Middle
      have "rd_inv app file lo (sc @ [(off, t, d)]) (r\<lparr>rd_scratch := payload_of sc @ d\<rparr>) ?hi"
        by (simp add: rd_inv_def)
      with False Middle r show ?thesis by (auto simp: accept_fragment_cont)
    qed
  next
    case Last
    show ?thesis
    proof (cases "payload_of sc = []")
      case True
      with Last r lo show ?thesis
        by (auto simp: accept_fragment_def batch_is_empty_def intro: exI [of _ ?hi])
    next
      case False
      with inv(2) have "record_shape (sc @ [(off, t, d)])" using open_shape_extend(2) Last by auto
      then have "step_ok app file lo (Return (Inr (Some (payload_of sc @ d))) (r\<lparr>rd_scratch := []\<rparr>))"
        unfolding step_ok.simps
        by (intro exI [of _ ?hi] exI [of _ "sc @ [(off, t, d)]"]) (use ext r in simp)
      with False Last r show ?thesis by (simp add: accept_fragment_cont)
    qed
  qed
qed

lemma read_physical_ok:
  assumes inv: "rd_inv app file lo sc r off" and hdr: "rd_cursor r + HEADER_SIZE \<le> rd_block_end r"
  shows "step_ok app file lo (read_physical app r)"
proof -
  note at = inv [unfolded rd_inv_def, THEN conjunct1]
  have lo: "lo \<le> off" and sc: "frag_chain app file lo sc off" "sc = [] \<or> open_shape sc"
      "rd_scratch r = payload_of sc"
    using inv frag_chain_le by (auto simp: rd_inv_def)
  let ?t = "rd_block r ! (rd_cursor r + 6)"
  define n where "n = decode_length [rd_block r ! (rd_cursor r + 4), rd_block r ! (rd_cursor r + 5)]"
  have stay: "step_ok app file lo (Return (Inl e) r)" "step_ok app file lo (Return (Inr None) r)" for e
    using at lo by auto
  have "rd_inv app file lo sc (r\<lparr>rd_cursor := rd_block_end r\<rparr>) (off + (rd_block_end r - rd_cursor r))"
    using rd_at_advance_to [OF at, of "rd_block_end r"] hdr sc frag_chain_mono [OF sc(1)]
    by (simp add: rd_inv_def)
  then have skip: "step_ok app file lo (Again (r\<lparr>rd_cursor := rd_block_end r\<rparr>))" by auto
  have acc: "step_ok app file lo (accept_fragment t d
      (r\<lparr>rd_cursor := rd_cursor r + HEADER_SIZE + n\<rparr>))"
    if "?t = record_type_byte t" "rd_cursor r + HEADER_SIZE + n \<le> rd_block_end r"
      "d = take n (drop (rd_cursor r + HEADER_SIZE) (rd_block r))"
      "decode_crc (take 4 (drop (rd_cursor r) (rd_block r))) =
        record_checksum app (record_type_byte t) (word_of_nat n) d" for t d
  proof -
    note f = fragment_parsed [OF at _ n_def that(1,3,4)]
    have fits: "rd_cursor r + (HEADER_SIZE + n) \<le> rd_block_end r" using that(2) by simp
    show ?thesis
      by (rule accept_fragment_ok [OF sc(1,2) _ _ f(1) [OF fits]])
        (use rd_at_advance [OF at fits] sc(3) f(2) [OF fits] in \<open>simp_all add: add.assoc\<close>)
  qed
  show ?thesis
    unfolding read_physical_def Let_def n_def [symmetric]
    using stay skip acc
    by (auto simp: from_byte_Some physical_payload_act_def crc_match_ok_def simp del: step_ok.simps
        split: option.splits)
qed

lemma rd_inv_next_block:
  assumes "rd_inv app file lo sc r off"
  shows "\<exists>r1 off1. read_next_block r = (Inr (rd_src r \<noteq> []), r1) \<and> rd_inv app file lo sc r1 off1"
proof -
  have at: "rd_at file r off" and sc: "frag_chain app file lo sc off" "sc = [] \<or> open_shape sc"
      "rd_scratch r = payload_of sc"
    using assms by (auto simp: rd_inv_def)
  obtain r1 where r1: "read_next_block r = (Inr (rd_src r \<noteq> []), r1)"
    "rd_at file r1 (rd_start r + rd_block_end r)" "rd_scratch r1 = rd_scratch r"
    using rd_next_block [OF at] by blast
  have "off \<le> rd_start r + rd_block_end r" using at by (auto simp: rd_at_def)
  with r1 sc frag_chain_mono [OF sc(1)] have "rd_inv app file lo sc r1 (rd_start r + rd_block_end r)"
    by (simp add: rd_inv_def)
  with r1(1) show ?thesis by blast
qed

lemma rd_inv_stay:
  assumes "rd_inv app file lo sc r off" "res = Inr None \<or> (\<exists>e. res = Inl e)"
  shows "step_ok app file lo (Return res r)"
  using assms frag_chain_le by (fastforce simp: rd_inv_def)

lemma seal_check_result: "seal_check app r = Some res \<Longrightarrow> res = Inr None \<or> (\<exists>e. res = Inl e)"
  by (auto simp: seal_check_def Let_def split: if_splits seal_parse_result.splits)

lemma read_iter_ok:
  assumes inv: "rd_inv app file lo sc r off"
  shows "step_ok app file lo (read_iter app r)"
proof -
  have here: "step_ok app file lo (case seal_check app r1 of
      Some res \<Rightarrow> Return res r1 | None \<Rightarrow> read_physical app r1)"
    if "rd_inv app file lo sc r1 off1" "rd_cursor r1 + HEADER_SIZE \<le> rd_block_end r1" for r1 off1
    using rd_inv_stay [OF that(1)] read_physical_ok [OF that] seal_check_result
    by (simp split: option.split)
  show ?thesis
  proof (cases "rd_block_end r < rd_cursor r + HEADER_SIZE")
    case False
    then show ?thesis using here [OF inv] by (simp add: read_iter_def split: option.split)
  next
    case need: True
    obtain r1 off1 where r1: "read_next_block r = (Inr (rd_src r \<noteq> []), r1)"
      "rd_inv app file lo sc r1 off1"
      using rd_inv_next_block [OF inv] by blast
    show ?thesis
    proof (cases "rd_src r = [] \<or> rd_block_end r1 < rd_cursor r1 + HEADER_SIZE")
      case True
      then have "read_iter app r = Return (Inr None) r1"
        using need r1(1) by (auto simp: read_iter_def)
      with rd_inv_stay [OF r1(2), of "Inr None"] show ?thesis by simp
    next
      case False
      with need r1(1) here [OF r1(2)] show ?thesis
        by (simp add: read_iter_def split: option.split)
    qed
  qed
qed

lemma read_record_ok:
  assumes "rd_inv app file lo sc r off" "read_record app r = (res, r')"
  shows "step_ok app file lo (Return res r')"
  using assms
proof (induction app r arbitrary: sc off rule: read_record.induct)
  case (1 app r)
  note ok = read_iter_ok [OF "1.prems"(1)]
  show ?case
  proof (cases "read_iter app r")
    case (Return res1 r1)
    with ok "1.prems"(2) show ?thesis by (simp add: read_record.simps [of app r])
  next
    case (Again r1)
    with ok obtain off1 sc1 where "rd_inv app file lo sc1 r1 off1" by auto
    from "1.IH" [OF Again this] Again "1.prems"(2) show ?thesis
      by (simp add: read_record.simps [of app r])
  qed
qed

section \<open>Integrity of the collected records\<close>

definition collected :: "crc_append \<Rightarrow> bytes \<Rightarrow> bytes list \<Rightarrow> nat \<Rightarrow> bool" where
  "collected app file out hi \<longleftrightarrow>
     (\<exists>frss. out = map payload_of frss \<and> (\<forall>fs \<in> set frss. record_shape fs) \<and>
        frag_chain app file 0 (concat frss) hi)"

lemma collected_mono: "collected app file out m \<Longrightarrow> m \<le> hi \<Longrightarrow> collected app file out hi"
  using frag_chain_mono by (fastforce simp: collected_def)

lemma collected_snoc:
  assumes "collected app file out lo" "record_shape fs" "frag_chain app file lo fs hi"
  shows "collected app file (out @ [payload_of fs]) hi"
proof -
  obtain frss where "out = map payload_of frss" "\<forall>fs \<in> set frss. record_shape fs"
    "frag_chain app file 0 (concat frss) lo"
    using assms(1) by (auto simp: collected_def)
  with assms(2,3) show ?thesis
    unfolding collected_def
    by (intro exI [of _ "frss @ [fs]"]) (auto simp: frag_chain_append)
qed

lemma step_ok_at:
  assumes "step_ok app file lo (Return res r)"
  shows "\<exists>off. rd_at file r off \<and> lo \<le> off"
  using assms by (cases "(app, file, lo, Return res r)" rule: step_ok.cases) (auto dest: frag_chain_le)

lemma skip_byte_ok:
  assumes "rd_at file r off" "skip_byte_for_resync r = (res, r')"
  shows "\<exists>can off'. res = Inr can \<and> rd_at file r' off' \<and> off \<le> off' \<and> rd_scratch r' = []"
proof (cases "rd_cursor r < rd_block_end r")
  case True
  have "rd_at file (r\<lparr>rd_scratch := [], rd_cursor := rd_cursor r + 1\<rparr>) (off + 1)"
    using rd_at_advance [of "file" "r\<lparr>rd_scratch := []\<rparr>" off 1] assms(1) True by simp
  with True assms(2) show ?thesis by (auto simp: skip_byte_for_resync_def Let_def)
next
  case False
  have at: "rd_at file (r\<lparr>rd_scratch := []\<rparr>) off" using assms(1) by simp
  have le: "off \<le> rd_start r + rd_block_end r" using assms(1) by (auto simp: rd_at_def)
  show ?thesis
    using rd_next_block [OF at] False assms(2) le
    by (fastforce simp: skip_byte_for_resync_def Let_def)
qed

definition col_inv :: "crc_append \<Rightarrow> bytes \<Rightarrow> wal_reader \<Rightarrow> bytes list \<Rightarrow> bool" where
  "col_inv app file r out \<longleftrightarrow>
     (\<exists>off. rd_at file r off \<and> rd_scratch r = [] \<and> collected app file out off)"

lemma col_inv_marks:
  assumes "col_inv app file r out"
  shows "col_inv app file (keep_record b r) out"
    "col_inv app file (r\<lparr>rd_pending_resync := p\<rparr>) out"
proof -
  have "rd_scratch (keep_record b r) = rd_scratch r"
    by (simp add: keep_record_def Let_def split: option.split)
  with assms show "col_inv app file (keep_record b r) out" by (simp add: col_inv_def)
  have "rd_at file (r\<lparr>rd_pending_resync := p\<rparr>) off = rd_at file r off" for off
    by (simp add: rd_at_def)
  with assms show "col_inv app file (r\<lparr>rd_pending_resync := p\<rparr>) out" by (simp add: col_inv_def)
qed

lemma collect_iter_ok:
  assumes inv: "col_inv app file r out"
  shows "case collect_iter app r out n b of
      Finish out' err r' \<Rightarrow> out' = out
    | Continue r' out' n' b' \<Rightarrow> col_inv app file r' out'"
proof -
  obtain off where off: "rd_at file r off" "rd_scratch r = []" "collected app file out off"
    using inv by (auto simp: col_inv_def)
  have "rd_inv app file off [] r off" using off by (simp add: rd_inv_def)
  obtain res r1 where rr: "read_record app r = (res, r1)" by fastforce
  note ok = read_record_ok [OF \<open>rd_inv app file off [] r off\<close> rr]
  let ?k = "recover_kind_from_read res"
  define skip where "skip = (is_length_resyncable ?k \<or> b \<and> (?k = Crc \<or> ?k = ZeroHeaderTail))"
  have rec: "col_inv app file r1 (out @ [d])" if "res = Inr (Some d)" for d
    using ok that collected_snoc [OF off(3)] by (auto simp: col_inv_def)
  show ?thesis
  proof (cases skip)
    case True
    obtain off1 where off1: "rd_at file r1 off1" "off \<le> off1" using step_ok_at [OF ok] by blast
    obtain res2 r2 where sk: "skip_byte_for_resync r1 = (res2, r2)" by fastforce
    obtain can off2 where r2: "res2 = Inr can" "rd_at file r2 off2" "off1 \<le> off2" "rd_scratch r2 = []"
      using skip_byte_ok [OF off1(1) sk] by blast
    then have "col_inv app file r2 out"
      using collected_mono [OF off(3), of off2] off1(2) by (auto simp: col_inv_def)
    moreover have "?k \<noteq> Record" using True by (auto simp: skip_def is_length_resyncable_def)
    moreover define skips where "skips = (if can then min (n + 1) (2 ^ 64 - 1) else n)"
    moreover define act where "act = recover_collect_act ?k (length out) can skips b"
    ultimately show ?thesis using True sk r2(1) recover_act_KeepRecord [of ?k "length out" can skips b]
      by (cases act) (simp_all add: collect_iter_def rr skip_def [symmetric] col_inv_marks)
  next
    case False
    define act where "act = recover_collect_act ?k (length out) False n b"
    have "act \<noteq> Resync" using recover_act_Resync [of ?k "length out" False n b] by (auto simp: act_def)
    with False show ?thesis using rec
      by (cases act) (auto simp: collect_iter_def rr skip_def [symmetric] act_def [symmetric] col_inv_marks
          split: sum.split option.split)
  qed
qed

lemma collect_loop_ok:
  assumes "col_inv app file r out" "collect_loop app r out n b = ((out', err), r')"
  shows "collected app file out' (length file)"
  using assms
proof (induction app r out n b rule: collect_loop.induct)
  case (1 app r out n b)
  note ok = collect_iter_ok [OF "1.prems"(1), of n b]
  show ?case
  proof (cases "collect_iter app r out n b")
    case (Finish out1 err1 r1)
    with ok "1.prems"(2) have "out' = out" by (simp add: collect_loop.simps [of app r])
    with "1.prems"(1) show ?thesis
      by (auto simp: col_inv_def rd_at_def elim!: collected_mono)
  next
    case (Continue r1 out1 n1 b1)
    with ok "1.IH" [OF Continue] "1.prems"(2) show ?thesis
      by (simp add: collect_loop.simps [of app r])
  qed
qed

lemma frag_chain_bound:
  "frag_chain app file lo fs hi \<Longrightarrow> lo + HEADER_SIZE * length fs + length (payload_of fs) \<le> hi"
proof (induction app "file" lo fs hi rule: frag_chain.induct)
  case (2 app "file" lo off t d fs hi)
  then show ?case by (simp add: algebra_simps)
qed simp

lemma concat_shapes_length:
  "list_all record_shape frss \<Longrightarrow> length frss \<le> length (concat frss)"
proof (induction frss)
  case (Cons fs frss)
  from Cons.prems have "fs \<noteq> []" by (auto simp: record_shape_def)
  with Cons show ?case by (cases fs) auto
qed simp

lemma payload_of_concat: "payload_of (concat frss) = concat (map payload_of frss)"
  by (induction frss) simp_all

lemma collect_prefix_collected:
  "collected app file (fst (fst (collect_prefix_all app (reader_new file False)))) (length file)"
proof -
  obtain out err r where "collect_loop app (reader_new file False) [] 0 False = ((out, err), r)"
    by (metis surj_pair)
  moreover have "col_inv app file (reader_new file False) []"
    unfolding col_inv_def collected_def
    by (intro exI [of _ 0] conjI reader_new_at exI [of _ "[]"]) (simp_all add: reader_new_def)
  ultimately show ?thesis by (auto simp: collect_prefix_all_def dest: collect_loop_ok)
qed

text \<open>A checksum routine for the examples: every record has the masked checksum of zero.\<close>

definition zero_crc :: crc_append where
  "zero_crc c bs = 0"

lemma zero_crc_checksum [simp]: "record_checksum zero_crc t n d = MASK_DELTA"
  by (simp add: record_checksum_def zero_crc_def mask_crc_def)

lemma mask_delta_not_seal [simp]: "MASK_DELTA \<noteq> SEAL_MAGIC"
  by (simp add: MASK_DELTA_def SEAL_MAGIC_def)

lemma frame_ok_fits:
  assumes "bo + HEADER_SIZE + length d \<le> BLOCK_SIZE"
  shows "frame_ok zero_crc bo d b" "pad_block [] bo = ([], bo)"
    "frame_image app bo d True = (phys_record app Full d, bo + (HEADER_SIZE + length d))"
proof -
  show pad: "pad_block [] bo = ([], bo)" using assms by (auto simp: pad_block_def Let_def)
  show "frame_ok zero_crc bo d b" using assms pad by (auto simp: frame_ok.simps [of _ bo] Let_def)
  show "frame_image app bo d True = (phys_record app Full d, bo + (HEADER_SIZE + length d))"
    using frame_image_fits [OF pad, of d] assms by simp
qed

section \<open>Properties\<close>



text \<open>C8. Nothing is invented: whatever the file holds, the records collected from it are, in
  order, concatenations of payloads of physical records that lie in the file one behind the
  other without overlap, each with the checksum the format prescribes; and each record is
  one \<open>Full\<close> fragment or a \<open>First\<close> \<open>Middle\<close>\<dots>\<open>Last\<close> sequence.\<close>

theorem recovered_records_intact:
  "\<exists>frss. fst (fst (collect_prefix_all app (reader_new file False))) = map payload_of frss \<and>
     list_all record_shape frss \<and> frag_chain app file 0 (concat frss) (length file)"
  using collect_prefix_collected [of app "file"] by (auto simp: collected_def list_all_iff)

text \<open>C27. Recovery is bounded by its input: a header for every record and all payload bytes
  fit in the file that was read.\<close>

theorem recovered_size_bounded:
  "let out = fst (fst (collect_prefix_all app (reader_new file False)))
   in HEADER_SIZE * length out + length (concat out) \<le> length file"
proof -
  define out where "out = fst (fst (collect_prefix_all app (reader_new file False)))"
  obtain frss where f: "out = map payload_of frss" "list_all record_shape frss"
    "frag_chain app file 0 (concat frss) (length file)"
    using collect_prefix_collected [of app "file"]
    by (auto simp: collected_def list_all_iff out_def)
  have "HEADER_SIZE * length out \<le> HEADER_SIZE * length (concat frss)"
    using concat_shapes_length [OF f(2)] f(1) by simp
  moreover have "HEADER_SIZE * length (concat frss) + length (concat out) \<le> length file"
    using frag_chain_bound [OF f(3)] by (simp add: f(1) payload_of_concat)
  ultimately have "HEADER_SIZE * length out + length (concat out) \<le> length file" by linarith
  then show ?thesis by (simp add: out_def Let_def)
qed



text \<open>C28. The header gap: when the first record ends exactly one header before the end of a
  block, the writer puts an empty \<open>First\<close> fragment there and the whole second record into a
  \<open>Last\<close> fragment of the next block.  The reader takes the empty scratch buffer for the
  absence of a \<open>First\<close> and refuses the log, although every byte of it is intact: a record
  that was written and acknowledged makes recovery fail.\<close>

theorem header_gap_record_refused:
  assumes "length d0 = BLOCK_SIZE - 2 * HEADER_SIZE" "d \<noteq> []" "length d \<le> BLOCK_SIZE - HEADER_SIZE"
    and "record_checksum app (record_type_byte Full) (word_of_nat (length d0)) d0 \<noteq> SEAL_MAGIC"
    and "record_checksum app (record_type_byte First) 0 [] \<noteq> SEAL_MAGIC"
    and "record_checksum app (record_type_byte Last) (word_of_nat (length d)) d \<noteq> SEAL_MAGIC"
    and "fragment_records app [d0, d] [] 0 = Some (file, bo)"
  shows "fst (collect_prefix_all app (reader_new file False)) =
    ([d0], Some (Internal (OrphanFragmentAt Last (BLOCK_SIZE + (HEADER_SIZE + length d)))))"
proof -
  note sizes = BLOCK_SIZE_def HEADER_SIZE_def
  let ?bo = "BLOCK_SIZE - HEADER_SIZE"
  let ?file = "phys_record app Full d0 @ phys_record app First [] @ phys_record app Last d"
  have d0: "pad_block [] 0 = ([], 0)" "frame_ok app 0 d0 True"
    "frame_image app 0 d0 True = (phys_record app Full d0, ?bo)"
    using assms(1,4) frame_ok_fits(2) [of 0 d0] frame_ok_fits(3) [of 0 d0 app]
    by (auto simp: frame_ok.simps [of _ 0] Let_def fragment_type_def sizes)
  have pad: "pad_block [] ?bo = ([], ?bo)" "pad_block [] BLOCK_SIZE = ([], 0)"
    by (simp_all add: pad_block_def sizes)
  have "fst (frame_image app ?bo d True) = phys_record app First [] @ phys_record app Last d"
    using assms(2,3) pad
    by (simp add: frame_image.simps [of app 32761] frame_image.simps [of app 32768] fragment_type_def
        Let_def sizes)
  then have "fst (log_image app 0 [d0, d]) = ?file" using d0(3) by simp
  then have f: "file = ?file" 
    using assms(7) fragment_records_image [of 0 app "[d0, d]" "[]"] by simp
  have log: "fst (log_image app 0 [d0]) = phys_record app Full d0" "snd (log_image app 0 [d0]) = ?bo"
    using d0(3) by simp_all
  have "length (phys_record app Full d0) = ?bo" using assms(1) by (simp add: sizes)
  then obtain r n where r: "collect_prefix_all app (reader_new file False) = collect_loop app r [d0] n False"
    "rd_at file r ?bo" "rd_cursor r = ?bo"
    using collect_new_log [of "file" app "[d0]" "phys_record app First [] @ phys_record app Last d"]
      d0(2) f log by auto
  have "drop ?bo file = [] @ phys_record app First [] @ phys_record app Last d"
    using \<open>length (phys_record app Full d0) = ?bo\<close> by (simp add: f)
  then obtain r1 where r1: "read_iter app r = accept_fragment First [] r1"
    "rd_at file r1 BLOCK_SIZE" "rd_cursor r1 = BLOCK_SIZE"
    using read_fragment [OF r(2), of "[]" ?bo app First "[]"] assms(5) pad(1) r(3)
    by (auto simp: sizes)
  let ?r1 = "r1\<lparr>rd_scratch := []\<rparr>"
  have "drop BLOCK_SIZE file = [] @ phys_record app Last d @ []"
    using \<open>length (phys_record app Full d0) = ?bo\<close> by (simp add: f sizes)
  then obtain r2 where r2: "read_iter app ?r1 = accept_fragment Last d r2"
    "rd_at file r2 (BLOCK_SIZE + (HEADER_SIZE + length d))" "rd_scratch r2 = []"
    using read_fragment [of "file" ?r1 BLOCK_SIZE "[]" 0 app Last d "[]"] assms(3,6) pad(2) r1(2,3)
    by (auto simp: sizes)
  have "read_record app r = (Inl (Internal (OrphanFragmentAt Last
      (BLOCK_SIZE + (HEADER_SIZE + length d)))), r2)"
    using r1(1) r2 rd_at_offset [OF r2(2)]
    by (simp add: read_record.simps [of app r] read_record.simps [of app ?r1] accept_fragment_begin)
      (simp add: accept_fragment_def batch_is_empty_def)
  then show ?thesis
    by (simp add: r(1) collect_loop.simps [of app r] collect_iter_def is_length_resyncable_def)
qed

theorem header_gap_record_refused_witness:
  "\<exists>file bo. fragment_records zero_crc [replicate 32754 1, [2]] [] 0 = Some (file, bo) \<and>
     fst (collect_prefix_all zero_crc (reader_new file False)) =
       ([replicate 32754 1], Some (Internal (OrphanFragmentAt Last 32776)))"
proof -
  let ?ds = "[replicate 32754 (1 :: byte), [2]]"
  obtain img bo where img: "fragment_records zero_crc ?ds [] 0 = Some (img, bo)"
    using fragment_records_image [of 0 zero_crc ?ds "[]"] by blast
  from header_gap_record_refused [OF _ _ _ _ _ _ img]
  have "fst (collect_prefix_all zero_crc (reader_new img False)) =
      ([replicate 32754 1], Some (Internal (OrphanFragmentAt Last 32776)))"
    by (simp add: BLOCK_SIZE_def HEADER_SIZE_def)
  with img show ?thesis by blast
qed

end
