(* ===== verification/Wal_Writer.thy ===== *)
theory Wal_Writer
  imports Wal_Recovery "HOL-Library.AList"
begin

text \<open>
  The stateful WAL writer (\<open>WalWriter\<close> in \<open>wal/writer_kernel.rs\<close>) with its ticket
  allocator (\<open>wal_ticket_kernel.rs\<close>) and staging decision (\<open>wal_buffer_kernel.rs\<close>).
  The file behind the writer is an \<open>EnvFile\<close>: its contents are part of the state and
  its positional write, flush and truncation are parameters that may fail.  The
  interval bookkeeping of out-of-order positional writes is shown to be a sequential
  log: whatever the order in which reserved spans are written, the watermark covers
  exactly the completed prefix and the file below it is the concatenation of the
  frames in reservation order.
\<close>

section \<open>Tickets and the staging decision\<close>

definition sat64 :: "nat \<Rightarrow> nat" where
  "sat64 n = min n (2 ^ 64 - 1)"

definition reserve_frame :: "nat \<Rightarrow> nat \<Rightarrow> nat \<times> nat" where
  "reserve_frame reserved_to len =
     (if batch_is_empty len then (reserved_to, reserved_to)
      else (reserved_to, sat64 (reserved_to + len)))"

definition pwrite_off_lock :: "bool \<Rightarrow> bool \<Rightarrow> bool" where
  "pwrite_off_lock want can = (want \<and> can)"

definition WAL_BUF_MAX_DEFAULT_BYTES :: nat where
  "WAL_BUF_MAX_DEFAULT_BYTES = 64 * 1024"

definition should_flush :: "nat \<Rightarrow> nat \<Rightarrow> bool" where
  "should_flush staged max_bytes = (max_bytes = 0 \<or> max_bytes \<le> staged)"

definition should_flush_for_workload :: "nat \<Rightarrow> nat \<Rightarrow> bool \<Rightarrow> bool" where
  "should_flush_for_workload staged max_bytes lone_writer =
     (lone_writer \<or> should_flush staged max_bytes)"

section \<open>The sink\<close>

text \<open>\<open>sk_write\<close> is \<open>write_wal\<close> and \<open>write_wal_at_shared\<close>, \<open>sk_write_all\<close> is
  \<open>write_all_at\<close> and \<open>write_all_at_shared\<close>: each gives its success and the new contents.\<close>

record sink_env =
  sk_write :: "bytes \<Rightarrow> bytes \<Rightarrow> nat \<Rightarrow> bool \<times> bytes"
  sk_write_all :: "bytes \<Rightarrow> bytes \<Rightarrow> nat \<Rightarrow> bool \<times> bytes"
  sk_flush :: "bytes \<Rightarrow> bool"
  sk_set_len :: "bytes \<Rightarrow> nat \<Rightarrow> bool \<times> bytes"

text \<open>A positional write overlays the file, extending it with zeroes when needed.\<close>

definition write_at :: "bytes \<Rightarrow> bytes \<Rightarrow> nat \<Rightarrow> bytes" where
  "write_at f b at = take at (f @ replicate (at - length f) 0) @ b @ drop (at + length b) f"

text \<open>What the code relies on: a successful positional write is that overlay, and a failed one
  leaves every byte outside its span alone.\<close>

definition honest_sink :: "sink_env \<Rightarrow> bool" where
  "honest_sink env \<longleftrightarrow> (\<forall>f b at. case sk_write env f b at of (ok, f') \<Rightarrow>
     (if ok then f' = write_at f b at
      else length f \<le> length f' \<and> take at f' = take at (f @ replicate (length f' - length f) 0) \<and>
        drop (at + length b) f' = drop (at + length b) f))"

section \<open>The writer\<close>

record staged_buf =
  st_buf :: bytes
  st_start :: nat
  st_max :: nat

record wal_writer =
  wr_shared :: bool
  wr_sink :: bytes
  wr_block_offset :: nat
  wr_position :: nat
  wr_frame :: bytes
  wr_staged :: "staged_buf option"
  wr_reserved_to :: nat
  wr_completed :: "(nat \<times> nat) list"

datatype writer_error = SinkError | FramingPanic

type_synonym 'a writer_op = "wal_writer \<Rightarrow> (writer_error, 'a) result \<times> wal_writer"

definition writer_new :: "bool \<Rightarrow> bool \<Rightarrow> bytes \<Rightarrow> nat \<Rightarrow> wal_writer" where
  "writer_new positional_writes pwrite_enabled file raw_pos =
     \<lparr>wr_shared = (positional_writes \<and> pwrite_enabled), wr_sink = file, wr_block_offset = raw_pos mod BLOCK_SIZE, wr_position = raw_pos,
      wr_frame = [], wr_staged = None, wr_reserved_to = raw_pos, wr_completed = []\<rparr>"

definition enable_staging :: "nat \<Rightarrow> wal_writer \<Rightarrow> wal_writer" where
  "enable_staging m w =
     w\<lparr>wr_staged := Some \<lparr>st_buf = [], st_start = wr_reserved_to w, st_max = m\<rparr>\<rparr>"

definition emit_bytes :: "sink_env \<Rightarrow> bytes \<Rightarrow> nat \<Rightarrow> unit writer_op" where
  "emit_bytes env b at w =
     (let (ok, f) = sk_write env (wr_sink w) b at;
          w = w\<lparr>wr_sink := f\<rparr>
      in if ok then (Inr (), w) else (Inl SinkError, w))"

definition reserve_pending :: "nat \<Rightarrow> wal_writer \<Rightarrow> nat \<times> wal_writer" where
  "reserve_pending len w =
     (let (ticket, nxt) = reserve_frame (wr_reserved_to w) len in
      (ticket, w\<lparr>wr_reserved_to := nxt\<rparr>))"

text \<open>The \<open>while let Some(end) = completed.get(position)\<close> loop.\<close>

function follow_completed :: "nat \<Rightarrow> (nat \<times> nat) list \<Rightarrow> nat \<times> (nat \<times> nat) list" where
  "follow_completed p c =
     (case map_of c p of
        None \<Rightarrow> (p, c)
      | Some e \<Rightarrow> follow_completed e (AList.delete p c))"
  by pat_completeness auto
termination
proof (relation "measure (\<lambda>(p, c). length c)")
  fix p e and c :: "(nat \<times> nat) list"
  assume "map_of c p = Some e"
  then have "(p, e) \<in> set c" by (rule map_of_SomeD)
  then have "length (filter (\<lambda>(k, _). p \<noteq> k) c) < length c"
    by (intro length_filter_less) auto
  then show "((e, AList.delete p c), p, c) \<in> measure (\<lambda>(p, c). length c)"
    by (simp add: AList.delete_eq)
qed simp

declare follow_completed.simps [simp del]

definition commit_pwrite :: "nat \<Rightarrow> nat \<Rightarrow> wal_writer \<Rightarrow> wal_writer" where
  "commit_pwrite ticket len w =
     (if batch_is_empty len then w
      else let e = sat64 (ticket + len);
               w = (if ticket \<le> wr_position w
                    then (if wr_position w < e then w\<lparr>wr_position := e\<rparr> else w)
                    else w\<lparr>wr_completed := AList.update ticket e (wr_completed w)\<rparr>);
               (p, c) = follow_completed (wr_position w) (wr_completed w)
           in w\<lparr>wr_position := p, wr_completed := c\<rparr>)"

definition write_owned :: "sink_env \<Rightarrow> bytes \<Rightarrow> unit writer_op" where
  "write_owned env b w =
     (if batch_is_empty (length b) then (Inr (), w)
      else let (at, w) = reserve_pending (length b) w in
        case emit_bytes env b at w of
          (Inl e, w) \<Rightarrow> (Inl e, w)
        | (Inr _, w) \<Rightarrow> (Inr (), commit_pwrite at (length b) w))"

definition drain_staged :: "sink_env \<Rightarrow> unit writer_op" where
  "drain_staged env w =
     (case wr_staged w of
        None \<Rightarrow> (Inr (), w)
      | Some st \<Rightarrow>
          if st_buf st = [] then (Inr (), w)
          else let b = st_buf st; start = st_start st;
                   w = w\<lparr>wr_staged := Some (st\<lparr>st_buf := []\<rparr>)\<rparr>
            in case emit_bytes env b start w of
                 (Inr _, w) \<Rightarrow> (Inr (), commit_pwrite start (length b) w)
               | (Inl e, w) \<Rightarrow> (Inl e, w\<lparr>wr_staged := Some st\<rparr>))"

definition write_framed :: "sink_env \<Rightarrow> bytes \<Rightarrow> unit writer_op" where
  "write_framed env frame w =
     (case drain_staged env w of
        (Inl e, w) \<Rightarrow> (Inl e, w)
      | (Inr _, w) \<Rightarrow>
          (case write_owned env frame w of
             (Inl e, w) \<Rightarrow> (Inl e, w)
           | (Inr _, w) \<Rightarrow> (Inr (), w\<lparr>wr_frame := []\<rparr>)))"

definition add_record :: "crc_append \<Rightarrow> sink_env \<Rightarrow> bytes \<Rightarrow> unit writer_op" where
  "add_record app env d w =
     (let w = w\<lparr>wr_frame := []\<rparr> in
      case fragment_into app d [] (wr_block_offset w) of
        None \<Rightarrow> (Inl FramingPanic, w)
      | Some (frame, bo) \<Rightarrow> write_framed env frame (w\<lparr>wr_block_offset := bo\<rparr>))"

definition add_records :: "crc_append \<Rightarrow> sink_env \<Rightarrow> bytes list \<Rightarrow> unit writer_op" where
  "add_records app env ds w =
     (if batch_is_empty (length ds) then (Inr (), w)
      else let w = w\<lparr>wr_frame := []\<rparr> in
        case fragment_records app ds [] (wr_block_offset w) of
          None \<Rightarrow> (Inl FramingPanic, w)
        | Some (frame, bo) \<Rightarrow> write_framed env frame (w\<lparr>wr_block_offset := bo\<rparr>))"

definition write_lone_frame :: "sink_env \<Rightarrow> bytes \<Rightarrow> unit writer_op" where
  "write_lone_frame env b w =
     (if batch_is_empty (length b) then (Inr (), w)
      else case drain_staged env w of
        (Inl e, w) \<Rightarrow> (Inl e, w)
      | (Inr _, w) \<Rightarrow> write_owned env b w)"

definition write_frame :: "sink_env \<Rightarrow> bytes \<Rightarrow> unit writer_op" where
  "write_frame env b w =
     (if batch_is_empty (length b) then (Inr (), w)
      else case wr_staged w of
        None \<Rightarrow> write_owned env b w
      | Some _ \<Rightarrow>
          (let (at, w) = reserve_pending (length b) w;
               st = the (wr_staged w);
               st = (if st_buf st = [] then st\<lparr>st_start := at\<rparr> else st);
               st = st\<lparr>st_buf := st_buf st @ b\<rparr>;
               w = w\<lparr>wr_staged := Some st\<rparr>
           in if should_flush (length (st_buf st)) (st_max st) then drain_staged env w
              else (Inr (), w)))"

definition writer_flush :: "sink_env \<Rightarrow> unit writer_op" where
  "writer_flush env w =
     (case drain_staged env w of
        (Inl e, w) \<Rightarrow> (Inl e, w)
      | (Inr _, w) \<Rightarrow>
          if \<not> wr_shared w \<and> \<not> sk_flush env (wr_sink w) then (Inl SinkError, w) else (Inr (), w))"

definition stream_position :: "sink_env \<Rightarrow> nat writer_op" where
  "stream_position env w =
     (case writer_flush env w of
        (Inl e, w) \<Rightarrow> (Inl e, w)
      | (Inr _, w) \<Rightarrow> (Inr (wr_position w), w))"

definition write_sentinel_seal :: "crc_append \<Rightarrow> sink_env \<Rightarrow> unit writer_op" where
  "write_sentinel_seal app env w =
     (case drain_staged env w of
        (Inl e, w) \<Rightarrow> (Inl e, w)
      | (Inr _, w) \<Rightarrow>
        (let pos = wr_position w;
             tracker = \<lparr>allocated_bytes = word_of_nat (sat64 (pos + 16)), logical_bytes = 0,
                        sealed = False\<rparr>;
             tracker = snd (advance_logical tracker (word_of_nat pos))
         in case encode_seal app tracker of
              (Inl _, _) \<Rightarrow> (Inr (), w)
            | (Inr seal, _) \<Rightarrow>
              (case emit_bytes env seal pos w of
                 (Inl e, w) \<Rightarrow> (Inl e, w)
               | (Inr _, w) \<Rightarrow>
                 (case writer_flush env w of
                    (Inl e, w) \<Rightarrow> (Inl e, w)
                  | (Inr _, w) \<Rightarrow> (Inr (), w\<lparr>wr_position := sat64 (wr_position w + 16)\<rparr>)))))"

definition write_all_at :: "sink_env \<Rightarrow> bytes \<Rightarrow> nat \<Rightarrow> unit writer_op" where
  "write_all_at env b at w =
     (let (ok, f) = sk_write_all env (wr_sink w) b at;
          w = w\<lparr>wr_sink := f\<rparr>
      in if ok then (Inr (), commit_pwrite at (length b) w) else (Inl SinkError, w))"

definition truncate_to_logical :: "sink_env \<Rightarrow> unit writer_op" where
  "truncate_to_logical env w =
     (case drain_staged env w of
        (Inl e, w) \<Rightarrow> (Inl e, w)
      | (Inr _, w) \<Rightarrow>
        (let (ok, f) = sk_set_len env (wr_sink w) (wr_position w); w = w\<lparr>wr_sink := f\<rparr>
         in if ok then (Inr (), w) else (Inl SinkError, w)))"

definition discard_uncommitted :: "sink_env \<Rightarrow> nat \<Rightarrow> unit writer_op" where
  "discard_uncommitted env offset w =
     (let w = w\<lparr>wr_staged := map_option (\<lambda>st. st\<lparr>st_buf := [], st_start := offset\<rparr>) (wr_staged w),
               wr_completed := filter (\<lambda>(t, _). t < offset) (wr_completed w),
               wr_position := offset, wr_reserved_to := offset,
               wr_block_offset := offset mod BLOCK_SIZE\<rparr>;
          (ok, f) = sk_set_len env (wr_sink w) offset;
          w = w\<lparr>wr_sink := f\<rparr>
      in if ok then (Inr (), w) else (Inl SinkError, w))"

section \<open>Positional writes\<close>

text \<open>Nothing changes outside the span, except that a file may grow by zeroes.\<close>

definition outside_kept :: "bytes \<Rightarrow> bytes \<Rightarrow> nat \<Rightarrow> nat \<Rightarrow> bool" where
  "outside_kept f f' at n \<longleftrightarrow>
     length f \<le> length f' \<and> take at f' = take at (f @ replicate (length f' - length f) 0) \<and>
     drop (at + n) f' = drop (at + n) f"

lemma length_write_at: "length (write_at f b at) = max (length f) (at + length b)"
  by (simp add: write_at_def)

lemma write_at_span: "take (length b) (drop at (write_at f b at)) = b"
  by (simp add: write_at_def)

lemma write_at_outside: "outside_kept f (write_at f b at) at (length b)"
proof -
  have "take at (write_at f b at) = take at (f @ replicate (at - length f) 0)"
    by (simp add: write_at_def)
  also have "\<dots> = take at (f @ replicate (length (write_at f b at) - length f) 0)"
    by (simp add: length_write_at min_def)
  moreover have "drop (at + length b) (write_at f b at) = drop (at + length b) f"
    by (simp add: write_at_def)
  ultimately show ?thesis by (simp add: outside_kept_def length_write_at)
qed

lemma honest_write:
  assumes "honest_sink env" "sk_write env f b at = (ok, f')"
  shows "outside_kept f f' at (length b)" "ok \<Longrightarrow> f' = write_at f b at"
proof -
  have "(if ok then f' = write_at f b at else outside_kept f f' at (length b))"
    using assms(1) [unfolded honest_sink_def, THEN spec [of _ f], THEN spec [of _ b], THEN spec [of _ at]]
    by (simp add: assms(2) outside_kept_def)
  then show "outside_kept f f' at (length b)" "ok \<Longrightarrow> f' = write_at f b at"
    using write_at_outside by (auto split: if_splits)
qed

lemma outside_kept_span:
  assumes "outside_kept f f' at n" "take m (drop t f) = x" "length x = m"
    and "t + m \<le> at \<or> at + n \<le> t"
  shows "take m (drop t f') = x"
  using assms(4)
proof
  assume le: "t + m \<le> at"
  show ?thesis
  proof (cases "m = 0")
    case False
    with assms(2,3) have len: "t + m \<le> length f" by auto
    have "take m (drop t f') = take m (drop t (take at f'))"
      by (rule take_drop_take [OF le, symmetric])
    also have "take at f' = take at (f @ replicate (length f' - length f) 0)"
      using assms(1) by (simp add: outside_kept_def)
    also have "take m (drop t (take at (f @ replicate (length f' - length f) 0))) =
        take m (drop t (f @ replicate (length f' - length f) 0))"
      by (rule take_drop_take [OF le])
    also have "\<dots> = take m (drop t f)" using len by simp
    finally show ?thesis using assms(2) by simp
  qed (use assms(3) in simp)
next
  assume le: "at + n \<le> t"
  then have "drop t f' = drop (t - (at + n)) (drop (at + n) f')" by simp
  also have "drop (at + n) f' = drop (at + n) f" using assms(1) by (simp add: outside_kept_def)
  also have "drop (t - (at + n)) (drop (at + n) f) = drop t f" using le by simp
  finally show ?thesis using assms(2) by simp
qed

section \<open>Spans in reservation order\<close>

datatype span_state = Reserved | Written | Committed

type_synonym span = "bytes \<times> span_state"

abbreviation committed :: "span \<Rightarrow> bool" where
  "committed x \<equiv> snd x = Committed"

definition span_len :: "span list \<Rightarrow> nat" where
  "span_len xs = length (concat (map fst xs))"

fun pending_map :: "nat \<Rightarrow> span list \<Rightarrow> nat \<rightharpoonup> nat" where
  "pending_map p [] = Map.empty"
| "pending_map p ((b, s) # xs) =
     (if s = Committed then (pending_map (p + length b) xs)(p \<mapsto> p + length b)
      else pending_map (p + length b) xs)"

fun in_file :: "nat \<Rightarrow> span list \<Rightarrow> bytes \<Rightarrow> bool" where
  "in_file p [] f = True"
| "in_file p ((b, s) # xs) f =
     ((s = Reserved \<or> take (length b) (drop p f) = b) \<and> in_file (p + length b) xs f)"

definition nonempty_spans :: "span list \<Rightarrow> bool" where
  "nonempty_spans xs \<longleftrightarrow> list_all (\<lambda>(b, _). b \<noteq> []) xs"

lemma span_len_simps [simp]:
  "span_len [] = 0" "span_len ((b, s) # xs) = length b + span_len xs"
  "span_len (xs @ ys) = span_len xs + span_len ys"
  by (simp_all add: span_len_def)

lemma nonempty_spans_simps [simp]:
  "nonempty_spans []" "nonempty_spans ((b, s) # xs) \<longleftrightarrow> b \<noteq> [] \<and> nonempty_spans xs"
  "nonempty_spans (xs @ ys) \<longleftrightarrow> nonempty_spans xs \<and> nonempty_spans ys"
  by (simp_all add: nonempty_spans_def)

lemma nonempty_spans_split:
  "nonempty_spans xs \<Longrightarrow> nonempty_spans (takeWhile P xs)"
  "nonempty_spans xs \<Longrightarrow> nonempty_spans (dropWhile P xs)"
  using takeWhile_dropWhile_id [of P xs] nonempty_spans_simps(3) by metis+

lemma span_len_split: "span_len (takeWhile P xs) + span_len (dropWhile P xs) = span_len xs"
  using takeWhile_dropWhile_id [of P xs] span_len_simps(3) by metis

lemma span_len_pos: "nonempty_spans xs \<Longrightarrow> xs \<noteq> [] \<Longrightarrow> 0 < span_len xs"
  by (cases xs) auto

lemma pending_map_below: "k < p \<Longrightarrow> pending_map p xs k = None"
  by (induction p xs rule: pending_map.induct) auto

lemma pending_map_commit:
  assumes "nonempty_spans us" "s \<noteq> Committed"
  shows "pending_map p (us @ (b, Committed) # vs) =
    (pending_map p (us @ (b, s) # vs))(p + span_len us \<mapsto> p + span_len us + length b)"
  using assms
proof (induction us arbitrary: p)
  case (Cons u us)
  obtain c t where "u = (c, t)" by fastforce
  with Cons show ?case by (auto simp: add.assoc fun_eq_iff)
qed simp

lemma pending_map_add: "s \<noteq> Committed \<Longrightarrow> pending_map p (xs @ [(b, s)]) = pending_map p xs"
  by (induction p xs rule: pending_map.induct) auto

lemma pending_map_state: "s \<noteq> Committed \<Longrightarrow> t \<noteq> Committed \<Longrightarrow>
   pending_map p (us @ (b, s) # vs) = pending_map p (us @ (b, t) # vs)"
  by (induction us arbitrary: p) auto

lemma in_file_append:
  "in_file p (us @ vs) f \<longleftrightarrow> in_file p us f \<and> in_file (p + span_len us) vs f"
  by (induction p us f rule: in_file.induct) (auto simp: add.assoc)

lemma in_file_kept:
  assumes "outside_kept f f' at n" "in_file p xs f" "p + span_len xs \<le> at \<or> at + n \<le> p"
  shows "in_file p xs f'"
  using assms(2,3)
proof (induction xs arbitrary: p)
  case (Cons x xs)
  obtain b s where x: "x = (b, s)" by fastforce
  have far: "p + length b \<le> at \<or> at + n \<le> p"
    and "p + length b + span_len xs \<le> at \<or> at + n \<le> p + length b"
    using Cons.prems(2) by (auto simp: x)
  with Cons.IH [of "p + length b"] Cons.prems(1) outside_kept_span [OF assms(1) _ refl far]
  show ?case by (auto simp: x)
qed simp

lemma in_file_prefix:
  "in_file p xs f \<Longrightarrow> list_all committed xs \<Longrightarrow> take (span_len xs) (drop p f) = concat (map fst xs)"
proof (induction p xs f rule: in_file.induct)
  case (2 p b s xs f)
  then show ?case by (auto simp: take_add add.commute)
qed simp

text \<open>The watermark follows the committed spans at its place.\<close>

lemma follow_completed_spans:
  assumes "map_of c = pending_map p xs" "nonempty_spans xs"
  shows "\<exists>c'. follow_completed p c = (p + span_len (takeWhile committed xs), c') \<and>
    map_of c' = pending_map (p + span_len (takeWhile committed xs)) (dropWhile committed xs)"
  using assms
proof (induction xs arbitrary: p c)
  case Nil
  then show ?case by (simp add: follow_completed.simps [of p])
next
  case (Cons x xs)
  obtain b s where x: "x = (b, s)" by fastforce
  with Cons.prems have b: "b \<noteq> []" "nonempty_spans xs" by simp_all
  show ?case
  proof (cases "s = Committed")
    case True
    have "map_of (AList.delete p c) = pending_map (p + length b) xs"
      using Cons.prems(1) b(1) pending_map_below [of p "p + length b" xs]
      by (auto simp: x True delete_conv' fun_eq_iff)
    from Cons.IH [OF this b(2)] Cons.prems(1) show ?thesis
      by (auto simp: x True follow_completed.simps [of p c] add.assoc)
  next
    case False
    have "map_of c p = None"
      using Cons.prems(1) b(1) False by (simp add: x pending_map_below)
    with False Cons.prems(1) show ?thesis by (simp add: x follow_completed.simps [of p c])
  qed
qed

section \<open>Out-of-order completion\<close>

text \<open>The writer against the list of spans handed out from \<open>base\<close> on, in reservation
  order, with the progress of each.\<close>

definition pw_inv :: "nat \<Rightarrow> wal_writer \<Rightarrow> span list \<Rightarrow> bool" where
  "pw_inv base w sp \<longleftrightarrow>
     (let p = base + span_len (takeWhile committed sp) in
      wr_position w = p \<and> wr_reserved_to w = base + span_len sp \<and> base + span_len sp < 2 ^ 64 \<and>
      map_of (wr_completed w) = pending_map p (dropWhile committed sp) \<and>
      nonempty_spans sp \<and> in_file base sp (wr_sink w))"

text \<open>A span is reserved at the frontier, written by whoever holds it, and committed once
  written.  A write may fail and leave its span in any state.\<close>

inductive pw_run :: "sink_env \<Rightarrow> nat \<Rightarrow> wal_writer \<Rightarrow> span list \<Rightarrow> bool" for env base where
  pw_open: "base < 2 ^ 64 \<Longrightarrow> pw_run env base (writer_new pos pw f base) []"
| pw_reserve: "\<lbrakk>pw_run env base w sp; b \<noteq> []; base + span_len sp + length b < 2 ^ 64\<rbrakk> \<Longrightarrow>
    pw_run env base (snd (reserve_pending (length b) w)) (sp @ [(b, Reserved)])"
| pw_write: "\<lbrakk>pw_run env base w (us @ (b, Reserved) # vs);
    emit_bytes env b (base + span_len us) w = (Inr (), w')\<rbrakk> \<Longrightarrow>
    pw_run env base w' (us @ (b, Written) # vs)"
| pw_write_fails: "\<lbrakk>pw_run env base w (us @ (b, Reserved) # vs);
    emit_bytes env b (base + span_len us) w = (Inl e, w')\<rbrakk> \<Longrightarrow>
    pw_run env base w' (us @ (b, Reserved) # vs)"
| pw_commit: "pw_run env base w (us @ (b, Written) # vs) \<Longrightarrow>
    pw_run env base (commit_pwrite (base + span_len us) (length b) w) (us @ (b, Committed) # vs)"

lemma takeWhile_first: "\<not> P y \<Longrightarrow> takeWhile P (us @ y # vs) = takeWhile P us"
  by (induction us) auto

lemma dropWhile_first: "\<not> P y \<Longrightarrow> dropWhile P (us @ y # vs) = dropWhile P us @ y # vs"
  by (induction us) auto

lemma takeWhile_snoc: "\<not> P y \<Longrightarrow> takeWhile P (us @ [y]) = takeWhile P us"
  by (induction us) auto

lemma dropWhile_snoc: "\<not> P y \<Longrightarrow> dropWhile P (us @ [y]) = dropWhile P us @ [y]"
  by (induction us) auto

lemma pw_inv_reserve:
  assumes "pw_inv base w sp" "b \<noteq> []" "base + span_len sp + length b < 2 ^ 64"
  shows "reserve_pending (length b) w = (base + span_len sp, snd (reserve_pending (length b) w))"
    and "pw_inv base (snd (reserve_pending (length b) w)) (sp @ [(b, Reserved)])"
  using assms
  by (simp_all add: pw_inv_def Let_def reserve_pending_def reserve_frame_def batch_is_empty_def sat64_def
      takeWhile_snoc dropWhile_snoc pending_map_add in_file_append)

lemma pw_inv_write:
  assumes inv: "pw_inv base w (us @ (b, Reserved) # vs)" and env: "honest_sink env"
    and e: "emit_bytes env b (base + span_len us) w = (res, w')"
  shows "pw_inv base w' (us @ (b, if res = Inr () then Written else Reserved) # vs)"
proof -
  obtain ok f where wr: "sk_write env (wr_sink w) b (base + span_len us) = (ok, f)" by fastforce
  then have w': "w' = w\<lparr>wr_sink := f\<rparr>" "ok \<longleftrightarrow> res = Inr ()"
    using e by (auto simp: emit_bytes_def Let_def split: if_splits)
  note keep = honest_write [OF env wr]
  have fl: "in_file base us (wr_sink w)" "in_file (base + (span_len us + length b)) vs (wr_sink w)"
    using inv by (auto simp: pw_inv_def Let_def in_file_append add.assoc)
  have "in_file base us f" "in_file (base + (span_len us + length b)) vs f"
    using in_file_kept [OF keep(1) fl(1)] in_file_kept [OF keep(1) fl(2)] by simp_all
  moreover have "ok \<Longrightarrow> take (length b) (drop (base + span_len us) f) = b"
    using keep(2) write_at_span by simp
  ultimately have "in_file base (us @ (b, if res = Inr () then Written else Reserved) # vs) f"
    using w'(2) by (auto simp: in_file_append add.assoc)
  then show ?thesis using inv
    by (simp add: pw_inv_def Let_def w'(1) takeWhile_first dropWhile_first
        pending_map_state [of Written Reserved])
qed

lemma pw_inv_commit:
  assumes inv: "pw_inv base w (us @ (b, Written) # vs)"
  shows "pw_inv base (commit_pwrite (base + span_len us) (length b) w) (us @ (b, Committed) # vs)"
proof -
  let ?P = "takeWhile committed us"
  define R where "R = dropWhile committed us"
  define p where "p = base + span_len ?P"
  let ?t = "base + span_len us"
  have us: "?P @ R = us" "span_len us = span_len ?P + span_len R"
    using span_len_split [of committed us] by (simp_all add: R_def)
  have facts: "wr_position w = p" "map_of (wr_completed w) = pending_map p (R @ (b, Written) # vs)"
    "b \<noteq> []" "nonempty_spans us" "nonempty_spans vs" "nonempty_spans R"
    "sat64 (?t + length b) = ?t + length b"
    using inv nonempty_spans_split
    by (auto simp: pw_inv_def Let_def takeWhile_first dropWhile_first p_def sat64_def R_def)
  have rest: "wr_reserved_to w = ?t + length b + span_len vs" "?t + length b + span_len vs < 2 ^ 64"
    "in_file base (us @ (b, Committed) # vs) (wr_sink w)"
    using inv by (auto simp: pw_inv_def Let_def in_file_append)
  have t: "?t = p + span_len R" using us(2) by (simp add: p_def)
  let ?xs = "R @ (b, Committed) # vs"
  have xs: "nonempty_spans ?xs" using facts by simp
  have tw: "takeWhile committed (us @ (b, Committed) # vs) = ?P @ takeWhile committed ?xs"
    and dw: "dropWhile committed (us @ (b, Committed) # vs) = dropWhile committed ?xs"
    unfolding R_def by (induction us) auto
  have "\<exists>c'. commit_pwrite ?t (length b) w =
      w\<lparr>wr_position := p + span_len (takeWhile committed ?xs), wr_completed := c'\<rparr> \<and>
    map_of c' = pending_map (p + span_len (takeWhile committed ?xs)) (dropWhile committed ?xs)"
  proof (cases "R = []")
    case True
    have "map_of (wr_completed w) = pending_map (p + length b) vs" using facts(2) True by simp
    from follow_completed_spans [OF this facts(5)] True t facts(1,3,7) show ?thesis
      by (auto simp: commit_pwrite_def batch_is_empty_def Let_def add.assoc)
  next
    case False
    then have lt: "p < ?t" using span_len_pos [OF facts(6)] t by simp
    have "map_of (AList.update ?t (?t + length b) (wr_completed w)) = pending_map p ?xs"
      using pending_map_commit [OF facts(6), of Written p b vs] facts(2) t by (simp add: update_conv')
    from follow_completed_spans [OF this xs] lt facts(1,3,7) show ?thesis
      by (auto simp: commit_pwrite_def batch_is_empty_def Let_def)
  qed
  with rest facts show ?thesis
    by (auto simp: pw_inv_def Let_def tw dw p_def add.assoc)
qed

lemma pw_run_inv:
  assumes "pw_run env base w sp" "honest_sink env"
  shows "pw_inv base w sp"
  using assms(1)
proof induction
  case (pw_open pos pw f)
  then show ?case by (simp add: pw_inv_def writer_new_def)
next
  case (pw_reserve w sp b)
  then show ?case by (intro pw_inv_reserve(2))
next
  case (pw_write w us b vs w')
  with pw_inv_write [OF pw_write.IH assms(2) pw_write.hyps(2)] show ?case by simp
next
  case (pw_write_fails w us b vs e w')
  with pw_inv_write [OF pw_write_fails.IH assms(2) pw_write_fails.hyps(2)] show ?case by simp
next
  case (pw_commit w us b vs)
  then show ?case by (intro pw_inv_commit)
qed

text \<open>A write under the lock is such a reservation, write and commit in one go.\<close>

lemma pw_write_owned:
  assumes "pw_run env base w sp" "honest_sink env" "b \<noteq> []" "base + span_len sp + length b < 2 ^ 64"
    and "write_owned env b w = (Inr (), w')"
  shows "pw_run env base w' (sp @ [(b, Committed)])"
proof -
  let ?t = "base + span_len sp"
  define w1 where "w1 = snd (reserve_pending (length b) w)"
  have t: "reserve_pending (length b) w = (?t, w1)"
    unfolding w1_def by (rule pw_inv_reserve(1) [OF pw_run_inv [OF assms(1,2)] assms(3,4)])
  obtain res w2 where e: "emit_bytes env b ?t w1 = (res, w2)" by fastforce
  have res: "res = Inr ()" "w' = commit_pwrite ?t (length b) w2"
    using assms(3,5) t e by (auto simp: write_owned_def batch_is_empty_def split: sum.splits)
  have "pw_run env base w1 (sp @ (b, Reserved) # [])" 
    unfolding w1_def by (rule pw_reserve [OF assms(1,3,4)])
  from pw_commit [OF pw_write [OF this e [unfolded res(1)]]] show ?thesis by (simp add: res(2))
qed

section \<open>Groups of records as frames\<close>

text \<open>Every group is framed under the lock, in reservation order.\<close>

fun group_frames :: "crc_append \<Rightarrow> nat \<Rightarrow> bytes list list \<Rightarrow> bytes list option" where
  "group_frames app bo [] = Some []"
| "group_frames app bo (ds # dss) =
     Option.bind (fragment_records app ds [] bo) (\<lambda>(frame, bo).
       Option.bind (group_frames app bo dss) (\<lambda>frames. Some (frame # frames)))"

lemma log_image_append:
  "log_image app bo (xs @ ys) =
     (fst (log_image app bo xs) @ fst (log_image app (snd (log_image app bo xs)) ys),
      snd (log_image app (snd (log_image app bo xs)) ys))"
  by (induction xs arbitrary: bo) (simp_all add: prod_eq_iff)

lemma log_image_bound: "bo \<le> BLOCK_SIZE \<Longrightarrow> snd (log_image app bo ds) \<le> BLOCK_SIZE"
  by (induction ds arbitrary: bo) (simp_all add: frame_image_aligned)

lemma log_ok_append: "log_ok app bo (xs @ ys) \<Longrightarrow> log_ok app bo xs"
  by (induction xs arbitrary: bo) simp_all

lemma group_frames_prefix:
  assumes "group_frames app bo dss = Some frames" "bo \<le> BLOCK_SIZE"
  shows "concat (take k frames) = fst (log_image app bo (concat (take k dss)))"
  using assms
proof (induction dss arbitrary: bo frames k)
  case (Cons ds dss)
  let ?bo = "snd (log_image app bo ds)"
  from Cons.prems obtain fs where fs: "group_frames app ?bo dss = Some fs"
    "frames = fst (log_image app bo ds) # fs"
    by (auto simp: fragment_records_image bind_eq_Some_conv split_beta)
  show ?case
  proof (cases k)
    case (Suc j)
    with Cons.IH [OF fs(1) log_image_bound [OF Cons.prems(2)], of j] fs(2) show ?thesis
      by (simp add: log_image_append)
  qed simp
qed simp

lemma takeWhile_all: "list_all P (takeWhile P xs)"
  by (induction xs) auto

lemma pw_run_prefix:
  assumes "pw_run env base w sp" "honest_sink env"
  shows "wr_position w = base + span_len (takeWhile committed sp)"
    and "take (span_len (takeWhile committed sp)) (drop base (wr_sink w)) =
      concat (map fst (takeWhile committed sp))"
proof -
  note inv = pw_run_inv [OF assms]
  show "wr_position w = base + span_len (takeWhile committed sp)"
    using inv by (simp add: pw_inv_def Let_def)
  have "in_file base (takeWhile committed sp @ dropWhile committed sp) (wr_sink w)"
    using inv by (simp add: pw_inv_def Let_def)
  then have "in_file base (takeWhile committed sp) (wr_sink w)"
    unfolding in_file_append by simp
  from in_file_prefix [OF this takeWhile_all]
  show "take (span_len (takeWhile committed sp)) (drop base (wr_sink w)) =
      concat (map fst (takeWhile committed sp))" .
qed

section \<open>Sequential use\<close>

text \<open>Nothing outstanding and nothing staged: the writer stands at the end of its file.\<close>

definition quiescent :: "wal_writer \<Rightarrow> bool" where
  "quiescent w \<longleftrightarrow>
     wr_position w = length (wr_sink w) \<and> wr_reserved_to w = length (wr_sink w) \<and>
     wr_completed w = [] \<and> wr_block_offset w \<le> BLOCK_SIZE \<and>
     wr_block_offset w mod BLOCK_SIZE = length (wr_sink w) mod BLOCK_SIZE \<and>
     (case wr_staged w of None \<Rightarrow> True | Some st \<Rightarrow> st_buf st = [])"

lemma drain_quiescent: "quiescent w \<Longrightarrow> drain_staged env w = (Inr (), w)"
  by (simp add: quiescent_def drain_staged_def split: option.splits)

lemma commit_at_position:
  assumes "wr_completed w = []" "b \<noteq> []" "wr_position w + length b < 2 ^ 64"
  shows "commit_pwrite (wr_position w) (length b) w = w\<lparr>wr_position := wr_position w + length b\<rparr>"
  using assms
  by (simp add: commit_pwrite_def batch_is_empty_def sat64_def Let_def follow_completed.simps)

lemma write_at_end: "write_at f b (length f) = f @ b"
  by (simp add: write_at_def)

lemma write_owned_end:
  assumes "wr_position w = length (wr_sink w)" "wr_reserved_to w = length (wr_sink w)"
    "wr_completed w = []" "honest_sink env" "b \<noteq> []" "length (wr_sink w) + length b < 2 ^ 64"
    and "fst (sk_write env (wr_sink w) b (length (wr_sink w)))"
  shows "write_owned env b w = (Inr (), w\<lparr>wr_sink := wr_sink w @ b,
    wr_position := length (wr_sink w) + length b, wr_reserved_to := length (wr_sink w) + length b\<rparr>)"
proof -
  have "sk_write env (wr_sink w) b (length (wr_sink w)) = (True, wr_sink w @ b)"
    using honest_write(2) [OF assms(4)] assms(7) by (metis prod.collapse write_at_end)
  with assms show ?thesis
    using commit_at_position [of "w\<lparr>wr_reserved_to := length (wr_sink w) + length b,
      wr_sink := wr_sink w @ b\<rparr>" b]
    by (simp add: write_owned_def batch_is_empty_def reserve_pending_def reserve_frame_def sat64_def
        emit_bytes_def)
qed

lemma log_image_nonempty: "ds \<noteq> [] \<Longrightarrow> fst (log_image app bo ds) \<noteq> []"
proof (cases ds)
  case (Cons d ds')
  have "fst (frame_image app bo d True) \<noteq> []"
    using frame_image_length [of d app bo True] by (auto simp: HEADER_SIZE_def)
  with Cons show ?thesis by simp
qed simp

lemma log_image_aligned:
  "bo \<le> BLOCK_SIZE \<Longrightarrow>
   snd (log_image app bo ds) mod BLOCK_SIZE = (bo + length (fst (log_image app bo ds))) mod BLOCK_SIZE"
proof (induction ds arbitrary: bo)
  case (Cons d ds)
  let ?i = "frame_image app bo d True"
  have al: "snd ?i \<le> BLOCK_SIZE" "(bo + length (fst ?i)) mod BLOCK_SIZE = snd ?i mod BLOCK_SIZE"
    using frame_image_aligned [OF Cons.prems, of app d True] by simp_all
  have "(snd ?i + length (fst (log_image app (snd ?i) ds))) mod BLOCK_SIZE =
      ((bo + length (fst ?i)) + length (fst (log_image app (snd ?i) ds))) mod BLOCK_SIZE"
    using al(2) by (metis mod_add_left_eq)
  with Cons.IH [OF al(1)] show ?case by (simp add: add.assoc)
qed simp

section \<open>Properties\<close>

text \<open>C10. The watermark never covers a hole: however reserved spans are written and committed,
  in any order and with any failed writes in between, the position is exactly the end of
  the longest committed prefix of the reservations, the file between the opening position and
  the watermark is the concatenation of those frames in reservation order, and the
  reservation frontier is never behind the watermark.\<close>

theorem watermark_covers_committed_prefix:
  assumes "pw_run env base w sp" "honest_sink env"
  shows "wr_position w = base + span_len (takeWhile committed sp) \<and>
    take (wr_position w - base) (drop base (wr_sink w)) = concat (map fst (takeWhile committed sp)) \<and>
    wr_position w \<le> wr_reserved_to w"
  using pw_run_prefix [OF assms] pw_run_inv [OF assms] span_len_split [of committed sp]
  by (simp add: pw_inv_def Let_def)

text \<open>A file that never fails, for the examples.\<close>

definition mem_sink :: sink_env where
  "mem_sink = \<lparr>sk_write = (\<lambda>f b at. (True, write_at f b at)),
     sk_write_all = (\<lambda>f b at. (True, write_at f b at)), sk_flush = (\<lambda>f. True),
     sk_set_len = (\<lambda>f n. (True, take n f @ replicate (n - length f) 0))\<rparr>"

lemma mem_sink_honest: "honest_sink mem_sink"
  by (simp add: honest_sink_def mem_sink_def)

text \<open>Two spans reserved in order, the second written and committed first.\<close>

definition swapped_run :: "bool \<Rightarrow> wal_writer" where
  "swapped_run finish =
     (let w = writer_new True True [] 0;
          w = snd (reserve_pending 2 w);
          w = snd (reserve_pending 3 w);
          w = commit_pwrite 2 3 (snd (emit_bytes mem_sink [3, 4, 5] 2 w))
      in if finish then commit_pwrite 0 2 (snd (emit_bytes mem_sink [1, 2] 0 w)) else w)"

lemma swapped_run_reachable:
  "pw_run mem_sink 0 (swapped_run False) [([1, 2], Reserved), ([3, 4, 5], Committed)]"
  "pw_run mem_sink 0 (swapped_run True) [([1, 2], Committed), ([3, 4, 5], Committed)]"
proof -
  let ?a = "[1, 2] :: bytes" and ?b = "[3, 4, 5] :: bytes"
  let ?w0 = "writer_new True True [] 0"
  let ?w1 = "snd (reserve_pending (length ?a) ?w0)"
  let ?w2 = "snd (reserve_pending (length ?b) ?w1)"
  have ok: "emit_bytes mem_sink b at w = (Inr (), snd (emit_bytes mem_sink b at w))" for b at w
    by (simp add: emit_bytes_def mem_sink_def)
  have "pw_run mem_sink 0 ?w1 ([] @ [(?a, Reserved)])"
    by (rule pw_reserve [OF pw_open]) simp_all
  then have "pw_run mem_sink 0 ?w2 ([(?a, Reserved)] @ (?b, Reserved) # [])"
    using pw_reserve [of mem_sink 0 ?w1 "[(?a, Reserved)]" ?b] by simp
  from pw_commit [OF pw_write [OF this ok]]
  show half: "pw_run mem_sink 0 (swapped_run False) [(?a, Reserved), (?b, Committed)]"
    by (simp add: swapped_run_def Let_def eval_nat_numeral)
  have "pw_run mem_sink 0 (swapped_run False) ([] @ (?a, Reserved) # [(?b, Committed)])"
    using half by simp
  from pw_commit [OF pw_write [OF this ok]]
  show "pw_run mem_sink 0 (swapped_run True) [(?a, Committed), (?b, Committed)]"
    by (simp add: swapped_run_def Let_def eval_nat_numeral)
qed

theorem watermark_covers_committed_prefix_witness:
  "wr_position (swapped_run False) = 0 \<and> wr_position (swapped_run True) = 5 \<and>
   take (wr_position (swapped_run True)) (wr_sink (swapped_run True)) = [1, 2, 3, 4, 5]"
  using watermark_covers_committed_prefix [OF swapped_run_reachable(1) mem_sink_honest]
    watermark_covers_committed_prefix [OF swapped_run_reachable(2) mem_sink_honest]
  by auto

text \<open>C11. No span is forgotten: once every reserved span is committed, in whatever order that
  happened, the watermark has reached the reservation frontier, no completion is left
  waiting, and the file holds all frames in reservation order.\<close>

theorem watermark_reaches_frontier:
  assumes "pw_run env base w sp" "honest_sink env" "list_all committed sp"
  shows "wr_position w = wr_reserved_to w \<and> wr_completed w = [] \<and>
    take (wr_position w - base) (drop base (wr_sink w)) = concat (map fst sp)"
proof -
  have all: "takeWhile committed sp = sp" "dropWhile committed sp = []"
    using assms(3) by (simp_all add: takeWhile_eq_all_conv dropWhile_eq_Nil_conv list_all_iff)
  have "map_of (wr_completed w) = Map.empty"
    using pw_run_inv [OF assms(1,2)] by (simp add: pw_inv_def all)
  then have "wr_completed w = []" by (simp add: map_of_eq_empty_iff)
  then show ?thesis using pw_run_prefix [OF assms(1,2)] pw_run_inv [OF assms(1,2)]
    by (simp add: pw_inv_def all)
qed

theorem watermark_reaches_frontier_witness:
  "wr_position (swapped_run True) = wr_reserved_to (swapped_run True) \<and>
   wr_completed (swapped_run True) = []"
  using watermark_reaches_frontier [OF swapped_run_reachable(2) mem_sink_honest] by simp


lemma mem_write_owned: "fst (write_owned mem_sink b w) = Inr ()"
  by (simp add: write_owned_def emit_bytes_def mem_sink_def split_beta Let_def)


text \<open>C17. Sequential appends: from a writer with nothing outstanding, appending a group of
  records to a healthy file succeeds, adds exactly the frames of the records at the end of the
  file, and leaves the writer with nothing outstanding again, its block offset aligned with
  the new end of the file; when the write fails, the error is returned, the watermark does not
  move, and the log below it is unchanged.\<close>

theorem add_records_appends:
  assumes "quiescent w" "honest_sink env" "ds \<noteq> []"
    and "img = fst (log_image app (wr_block_offset w) ds)"
    and "length (wr_sink w) + length img < 2 ^ 64"
  shows "case add_records app env ds w of (res, w') \<Rightarrow>
    (if fst (sk_write env (wr_sink w) img (length (wr_sink w)))
     then res = Inr () \<and> wr_sink w' = wr_sink w @ img \<and> quiescent w'
     else res = Inl SinkError \<and> wr_position w' = wr_position w \<and>
       take (wr_position w') (wr_sink w') = wr_sink w)"
proof -
  let ?n = "length (wr_sink w)" and ?bo = "snd (log_image app (wr_block_offset w) ds)"
  let ?w = "w\<lparr>wr_frame := [], wr_block_offset := ?bo\<rparr>"
  have w: "wr_position w = ?n" "wr_reserved_to w = ?n" "wr_completed w = []"
    "wr_block_offset w \<le> BLOCK_SIZE" "wr_block_offset w mod BLOCK_SIZE = ?n mod BLOCK_SIZE"
    using assms(1) by (simp_all add: quiescent_def)
  have ne: "img \<noteq> []" using log_image_nonempty [OF assms(3)] assms(4) by simp
  have drain: "drain_staged env ?w = (Inr (), ?w)"
    using assms(1) by (simp add: quiescent_def drain_staged_def split: option.splits)
  have run: "add_records app env ds w = (case write_owned env img ?w of
      (Inl e, w) \<Rightarrow> (Inl e, w) | (Inr _, w) \<Rightarrow> (Inr (), w\<lparr>wr_frame := []\<rparr>))"
    using assms(3,4) w(4) drain
    by (simp add: add_records_def batch_is_empty_def fragment_records_image write_framed_def
        del: prod.collapse)
  obtain ok f where f: "sk_write env (wr_sink w) img ?n = (ok, f)" by fastforce
  show ?thesis
  proof (cases ok)
    case True
    have "?bo \<le> BLOCK_SIZE" "?bo mod BLOCK_SIZE = (?n + length img) mod BLOCK_SIZE"
      using log_image_bound [OF w(4)] log_image_aligned [OF w(4), of app ds] w(5) assms(4)
      by (simp_all) (metis mod_add_left_eq)
    then show ?thesis
      using write_owned_end [of ?w env img] assms(1,2,5) ne f True w
      by (auto simp: run quiescent_def split: option.splits)
  next
    case False
    note keep = honest_write(1) [OF assms(2) f, unfolded outside_kept_def]
    have "take ?n f = take ?n (wr_sink w @ replicate (length f - ?n) 0)" using keep by blast
    then have "take ?n f = wr_sink w" by simp
    then show ?thesis using f False w ne
      by (simp add: run write_owned_def batch_is_empty_def reserve_pending_def reserve_frame_def
          emit_bytes_def Let_def)
  qed
qed

theorem add_records_appends_witness:
  "let w = snd (add_records zero_crc mem_sink [[1, 2], [3]] (writer_new True True [] 0))
   in wr_sink w = fst (log_image zero_crc 0 [[1, 2], [3]]) \<and> quiescent w"
proof -
  let ?w = "writer_new True True [] 0" and ?img = "fst (log_image zero_crc 0 [[1, 2], [3]])"
  have "quiescent ?w" by (simp add: quiescent_def writer_new_def)
  moreover have "?img = fst (log_image zero_crc (wr_block_offset ?w) [[1, 2], [3]])"
    by (simp add: writer_new_def)
  moreover have "length (wr_sink ?w) + length ?img < 2 ^ 64"
    by (simp add: writer_new_def frame_ok_fits BLOCK_SIZE_def HEADER_SIZE_def)
  ultimately show ?thesis
    using add_records_appends [of ?w mem_sink "[[1, 2], [3]]" ?img zero_crc] mem_sink_honest
    by (simp add: mem_sink_def writer_new_def split_beta Let_def)
qed

text \<open>C30. Staging and off-lock tickets do not mix: when a frame is staged, a span is then
  reserved for an off-lock write, and a second frame is staged behind it, the staged bytes no
  longer occupy consecutive places.  Draining them writes the second frame over the bytes of
  the off-lock frame, nothing is ever written to the second frame's own span, and although
  every write succeeded and was committed the watermark stays behind the frontier.\<close>

theorem staged_drain_overwrites_ticket:
  assumes "a \<noteq> []" "b \<noteq> []" "length c = length b" "length a + 2 * length b < m" "m < 2 ^ 64"
  shows "let w = enable_staging m (writer_new True True [] 0);
      (r1, w) = write_frame mem_sink a w;
      (ticket, w) = reserve_pending (length b) w;
      (r2, w) = write_frame mem_sink c w;
      (r3, w) = emit_bytes mem_sink b ticket w;
      w = commit_pwrite ticket (length b) w;
      (r4, w) = drain_staged mem_sink w
    in [r1, r2, r3, r4] = replicate 4 (Inr ()) \<and> ticket = length a \<and> wr_sink w = a @ c \<and>
       wr_position w = length a + length b \<and> wr_reserved_to w = length a + 2 * length b"
proof -
  have c: "c \<noteq> []" using assms(2,3) by auto
  have sat: "sat64 (length a) = length a" "sat64 (length a + length b) = length a + length b"
    "sat64 (length a + (length b + length b)) = length a + (length b + length b)"
    using assms(4,5) by (simp_all add: sat64_def)
  define W where "W = (\<lambda>st f pos res com. \<lparr>wr_shared = True, wr_sink = f, wr_block_offset = 0,
    wr_position = pos, wr_frame = [], wr_staged = Some \<lparr>st_buf = st, st_start = 0, st_max = m\<rparr>,
    wr_reserved_to = res, wr_completed = com\<rparr>)"
  let ?la = "length a" and ?lb = "length b"
  note defs = W_def write_frame_def reserve_pending_def reserve_frame_def batch_is_empty_def
    should_flush_def emit_bytes_def mem_sink_def Let_def
  have nz: "0 < ?la" "0 < ?lb" using assms(1,2) by simp_all
  have s0: "enable_staging m (writer_new True True [] 0) = W [] [] 0 0 []"
    by (simp add: enable_staging_def writer_new_def W_def)
  have s1: "write_frame mem_sink a (W [] [] 0 0 []) = (Inr (), W a [] 0 ?la [])"
    using assms sat by (simp add: defs)
  have s2: "reserve_pending ?lb (W a [] 0 ?la []) = (?la, W a [] 0 (?la + ?lb) [])"
    using assms sat by (simp add: defs)
  have s3: "write_frame mem_sink c (W a [] 0 (?la + ?lb) []) =
      (Inr (), W (a @ c) [] 0 (?la + (?lb + ?lb)) [])"
    using assms sat c by (simp add: defs add.assoc)
  have s4: "emit_bytes mem_sink b ?la (W (a @ c) [] 0 n []) =
      (Inr (), W (a @ c) (replicate ?la 0 @ b) 0 n [])" for n
    by (simp add: defs write_at_def)
  have s5: "commit_pwrite ?la ?lb (W (a @ c) f 0 n []) = W (a @ c) f 0 n [(?la, ?la + ?lb)]" for f n
    using nz sat assms
    by (simp add: commit_pwrite_def batch_is_empty_def W_def Let_def follow_completed.simps [of 0])
  have s6: "drain_staged mem_sink (W (a @ c) (replicate ?la 0 @ b) 0 n [(?la, ?la + ?lb)]) =
      (Inr (), W [] (a @ c) (?la + ?lb) n [(?la, ?la + ?lb)])" for n
    using nz sat assms
    by (simp add: drain_staged_def emit_bytes_def mem_sink_def commit_pwrite_def batch_is_empty_def W_def
        write_at_def Let_def follow_completed.simps [of "?la + ?lb"])
  show ?thesis
    unfolding s0 Let_def prod.case s1 s2 s3 s4 s5 s6
    by (simp add: W_def eval_nat_numeral)
qed

theorem staged_drain_overwrites_ticket_witness:
  "let w = enable_staging 64 (writer_new True True [] 0);
      (r1, w) = write_frame mem_sink [1] w;
      (ticket, w) = reserve_pending (length [2 :: byte]) w;
      (r2, w) = write_frame mem_sink [3] w;
      (r3, w) = emit_bytes mem_sink [2] ticket w;
      w = commit_pwrite ticket (length [2 :: byte]) w;
      (r4, w) = drain_staged mem_sink w
    in [r1, r2, r3, r4] = replicate 4 (Inr ()) \<and> ticket = length [1 :: byte] \<and> wr_sink w = [1] @ [3] \<and>
       wr_position w = length [1 :: byte] + length [2 :: byte] \<and>
       wr_reserved_to w = length [1 :: byte] + 2 * length [2 :: byte]"
  by (rule staged_drain_overwrites_ticket) simp_all

end
