(* ===== verification/Wal_File.thy ===== *)
theory Wal_File
  imports Wal_Writer
begin

text \<open>
  The file-backed log (\<open>Wal\<close> and \<open>PwriteJob\<close> in \<open>wal/mod_kernel.rs\<close>): reservation of
  storage ahead of the append point, the append operations, the pending frame of group
  commit with its locked and off-lock writes, barriers, and the recovery entry points.  The
  environment variables that choose staging and off-lock writes are arguments; the
  extent reservation of the file system may fail at any point.
\<close>

section \<open>State\<close>

definition WAL_PREALLOC_CHUNK :: nat where
  "WAL_PREALLOC_CHUNK = 64 * 1024 * 1024"

record wal =
  wl_writer :: wal_writer
  wl_logical :: bytes
  wl_prealloc_to :: nat
  wl_full_fsync :: bool
  wl_pwrite :: bool
  wl_inflight :: nat

record pwrite_job =
  pj_buf :: bytes
  pj_ticket :: nat
  pj_done :: bool

text \<open>The file's environment: the sink of the writer, the outcome of an extent reservation when
  the covered frontier is at a given offset, and the outcomes of the barriers.\<close>

record wal_env =
  we_sink :: sink_env
  we_prealloc :: "nat \<Rightarrow> bool"
  we_sync_data :: "bool \<Rightarrow> bytes \<Rightarrow> bool"
  we_sync_all :: "bytes \<Rightarrow> bool"

type_synonym 'a wal_op = "wal \<Rightarrow> (writer_error, 'a) result \<times> wal"

text \<open>An operation of the writer, run on the writer inside the log.\<close>

definition on_writer :: "'a writer_op \<Rightarrow> 'a wal_op" where
  "on_writer f l = (case f (wl_writer l) of (r, w) \<Rightarrow> (r, l\<lparr>wl_writer := w\<rparr>))"

definition and_then :: "'a wal_op \<Rightarrow> 'b wal_op \<Rightarrow> 'b wal_op" where
  "and_then f g l = (case f l of (Inl e, l) \<Rightarrow> (Inl e, l) | (Inr _, l) \<Rightarrow> g l)"

section \<open>Reservation of storage\<close>

text \<open>\<open>need\<close> is a \<open>u64\<close>.\<close>

function reserve_loop :: "(nat \<Rightarrow> bool) \<Rightarrow> nat \<Rightarrow> nat \<Rightarrow> nat" where
  "reserve_loop prealloc need prealloc_to =
     (if prealloc_to < need \<and> need < 2 ^ 64 then
        if \<not> prealloc prealloc_to then prealloc_to
        else reserve_loop prealloc need (sat64 (prealloc_to + WAL_PREALLOC_CHUNK))
      else prealloc_to)"
  by pat_completeness auto
termination
  by (relation "measure (\<lambda>(prealloc, need, p). need - p)") (auto simp: WAL_PREALLOC_CHUNK_def sat64_def)

declare reserve_loop.simps [simp del]

definition reserve_space :: "wal_env \<Rightarrow> nat \<Rightarrow> wal \<Rightarrow> wal" where
  "reserve_space env upcoming l =
     (let pos = wr_reserved_to (wl_writer l);
          p = max (wl_prealloc_to l) pos;
          need = sat64 (sat64 (pos + upcoming) + WAL_PREALLOC_CHUNK)
      in l\<lparr>wl_prealloc_to := reserve_loop (we_prealloc env) need p\<rparr>)"

section \<open>Opening\<close>

definition wal_create_on :: "wal_env \<Rightarrow> bool \<Rightarrow> bool \<Rightarrow> nat \<Rightarrow> bytes \<Rightarrow> nat \<Rightarrow> wal" where
  "wal_create_on env positional_writes pwrite_enabled staged_max file raw_pos =
     (let writer = writer_new positional_writes pwrite_enabled file raw_pos;
          writer = (if 0 < staged_max then enable_staging staged_max writer else writer)
      in reserve_space env 1
           \<lparr>wl_writer = writer, wl_logical = [], wl_prealloc_to = 0, wl_full_fsync = False,
            wl_pwrite = pwrite_enabled, wl_inflight = 0\<rparr>)"

section \<open>Appending\<close>

definition append_record :: "crc_append \<Rightarrow> wal_env \<Rightarrow> bytes \<Rightarrow> unit wal_op" where
  "append_record app env d l =
     on_writer (add_record app (we_sink env) d) (reserve_space env (length d + 2 * HEADER_SIZE) l)"

definition append_write_ops :: "crc_append \<Rightarrow> wal_env \<Rightarrow> write_op list \<Rightarrow> nat wal_op" where
  "append_write_ops app env ops l =
     (case encode_ops ops [] of
        None \<Rightarrow> (Inl FramingPanic, l\<lparr>wl_logical := []\<rparr>)
      | Some logical \<Rightarrow>
          (let n = length logical;
               l = reserve_space env (n + 2 * HEADER_SIZE) (l\<lparr>wl_logical := logical\<rparr>)
           in case on_writer (add_record app (we_sink env) logical) l of
                (Inl e, l) \<Rightarrow> (Inl e, l)
              | (Inr _, l) \<Rightarrow> (Inr n, l)))"

definition append_records :: "crc_append \<Rightarrow> wal_env \<Rightarrow> bytes list \<Rightarrow> unit wal_op" where
  "append_records app env ds l =
     on_writer (add_records app (we_sink env) ds)
       (reserve_space env (sum_list (map length ds) + 2 * HEADER_SIZE) l)"

section \<open>The pending frame\<close>

fun encode_batches ::
  "crc_append \<Rightarrow> write_op list list \<Rightarrow> nat \<Rightarrow> bytes \<Rightarrow> nat \<Rightarrow> (nat \<times> bytes \<times> nat) option" where
  "encode_batches app [] n b bo = Some (n, b, bo)"
| "encode_batches app (ops # batches) n b bo =
     Option.bind (fragment_encoded_len app ops b bo) (\<lambda>(k, b, bo).
       encode_batches app batches (sat64 (n + k)) b bo)"

definition encode_write_op_batches :: "crc_append \<Rightarrow> write_op list list \<Rightarrow> nat wal_op" where
  "encode_write_op_batches app batches l =
     (if batch_is_empty (length batches) then (Inr 0, l)
      else let w = wl_writer l in
        case encode_batches app batches 0 (wr_frame w) (wr_block_offset w) of
          None \<Rightarrow> (Inl FramingPanic, l)
        | Some (n, frame, bo) \<Rightarrow>
            (Inr n, l\<lparr>wl_writer := w\<lparr>wr_frame := frame, wr_block_offset := bo\<rparr>\<rparr>))"

definition write_pending_inner :: "wal_env \<Rightarrow> bool \<Rightarrow> unit wal_op" where
  "write_pending_inner env lone_writer l =
     (let frame = wr_frame (wl_writer l) in
      if batch_is_empty (length frame) then (Inr (), l)
      else let l = l\<lparr>wl_writer := (wl_writer l)\<lparr>wr_frame := []\<rparr>\<rparr>;
               l = reserve_space env (length frame) l
        in case on_writer ((if lone_writer then write_lone_frame else write_frame)
                 (we_sink env) frame) l of
             (r, l) \<Rightarrow> (r, l\<lparr>wl_writer := (wl_writer l)\<lparr>wr_frame := []\<rparr>\<rparr>))"

definition new_job :: "wal_env \<Rightarrow> bytes \<Rightarrow> wal \<Rightarrow> pwrite_job \<times> wal" where
  "new_job env frame l =
     (let l = reserve_space env (length frame) l;
          (ticket, w) = reserve_pending (length frame) (wl_writer l)
      in (\<lparr>pj_buf = frame, pj_ticket = ticket, pj_done = False\<rparr>,
          l\<lparr>wl_writer := w, wl_inflight := wl_inflight l + 1\<rparr>))"

definition take_pwrite_job :: "wal_env \<Rightarrow> bool \<Rightarrow> pwrite_job option wal_op" where
  "take_pwrite_job env positional l =
     (let frame = wr_frame (wl_writer l) in
      if \<not> pwrite_off_lock (wl_pwrite l) (positional \<or> wr_shared (wl_writer l)) then (Inr None, l)
      else if batch_is_empty (length frame) then (Inr None, l)
      else let l = l\<lparr>wl_writer := (wl_writer l)\<lparr>wr_frame := []\<rparr>\<rparr> in
        if \<not> wr_shared (wl_writer l) then
          let l = reserve_space env (length frame) l;
              (ticket, w) = reserve_pending (length frame) (wl_writer l)
          in case on_writer (write_all_at (we_sink env) frame ticket) (l\<lparr>wl_writer := w\<rparr>) of
               (Inl e, l) \<Rightarrow> (Inl e, l\<lparr>wl_writer := (wl_writer l)\<lparr>wr_frame := frame\<rparr>\<rparr>)
             | (Inr _, l) \<Rightarrow>
                 (Inr None, l\<lparr>wl_writer := commit_pwrite ticket (length frame) (wl_writer l)\<rparr>)
        else case new_job env frame l of (job, l) \<Rightarrow> (Inr (Some job), l))"

definition take_preframed_pwrite_job ::
  "wal_env \<Rightarrow> bool \<Rightarrow> bytes \<Rightarrow> pwrite_job option wal_op" where
  "take_preframed_pwrite_job env positional frame l =
     (if batch_is_empty (length frame) then (Inr None, l)
      else if \<not> pwrite_off_lock (wl_pwrite l) (positional \<or> wr_shared (wl_writer l)) then (Inr None, l)
      else if \<not> wr_shared (wl_writer l) then (Inr None, l)
      else case take_preframed_layout (length frame) (wr_block_offset (wl_writer l)) of
          None \<Rightarrow> (Inr None, l)
        | Some (pad, bo) \<Rightarrow>
            (case new_job env (replicate pad 0 @ frame)
                    (l\<lparr>wl_writer := (wl_writer l)\<lparr>wr_block_offset := bo\<rparr>\<rparr>) of
               (job, l) \<Rightarrow> (Inr (Some job), l)))"

text \<open>A job runs on the shared file, or is dropped and then writes its bytes anyway.\<close>

definition drop_inflight :: "pwrite_job \<Rightarrow> wal \<Rightarrow> pwrite_job \<times> wal" where
  "drop_inflight j l =
     (if pj_done j then (j, l)
      else (j\<lparr>pj_done := True\<rparr>, l\<lparr>wl_inflight := wl_inflight l - 1\<rparr>))"

definition job_run :: "wal_env \<Rightarrow> pwrite_job \<Rightarrow> (nat \<times> nat) wal_op" where
  "job_run env j l =
     (case on_writer (emit_bytes (we_sink env) (pj_buf j) (pj_ticket j)) l of
        (r, l) \<Rightarrow>
          (let l = snd (drop_inflight j l) in
           case r of Inl e \<Rightarrow> (Inl e, l) | Inr _ \<Rightarrow> (Inr (pj_ticket j, length (pj_buf j)), l)))"

definition job_drop :: "wal_env \<Rightarrow> pwrite_job \<Rightarrow> wal \<Rightarrow> wal" where
  "job_drop env j l =
     (let l = (if pj_done j then l
               else snd (on_writer (emit_bytes (we_sink env) (pj_buf j) (pj_ticket j)) l))
      in snd (drop_inflight j l))"

definition finish_pwrite :: "nat \<Rightarrow> nat \<Rightarrow> wal \<Rightarrow> wal" where
  "finish_pwrite ticket len l =
     (if batch_is_empty len then l
      else l\<lparr>wl_writer := commit_pwrite ticket len (wl_writer l)\<rparr>)"

section \<open>Barriers\<close>

text \<open>\<open>sync_data\<close> first waits until no off-lock write is in flight; while one is, the
  barrier does not return (\<^const>\<open>None\<close>).\<close>

text \<open>The barrier on the sink, after everything logical has been handed to it.\<close>

definition sink_barrier :: "(bytes \<Rightarrow> bool) \<Rightarrow> unit wal_op" where
  "sink_barrier sync l =
     (if sync (wr_sink (wl_writer l)) then (Inr (), l) else (Inl SinkError, l))"

definition wait_inflight :: "wal \<Rightarrow> bool" where
  "wait_inflight l = (wl_inflight l = 0)"

definition sync_data_inner :: "wal_env \<Rightarrow> wal \<Rightarrow> ((writer_error, unit) result \<times> wal) option" where
  "sync_data_inner env l =
     (if \<not> wait_inflight l then None
      else Some (and_then (write_pending_inner env False)
        (and_then (on_writer (writer_flush (we_sink env)))
          (\<lambda>l. sink_barrier (we_sync_data env (wl_full_fsync l)) l)) l))"

definition sync_all :: "wal_env \<Rightarrow> unit wal_op" where
  "sync_all env =
     and_then (write_pending_inner env False)
       (and_then (on_writer (writer_flush (we_sink env))) (sink_barrier (we_sync_all env)))"

definition wal_flush :: "wal_env \<Rightarrow> unit wal_op" where
  "wal_flush env =
     and_then (write_pending_inner env False)
       (and_then (on_writer (drain_staged (we_sink env))) (on_writer (writer_flush (we_sink env))))"

definition wal_close :: "wal_env \<Rightarrow> unit wal_op" where
  "wal_close env = and_then (wal_flush env) (on_writer (truncate_to_logical (we_sink env)))"

section \<open>Recovery entry points\<close>

definition recover_on :: "crc_append \<Rightarrow> bytes \<Rightarrow> bool \<Rightarrow> (wal_error, bytes list) result" where
  "recover_on app file fault = fst (collect_all app (reader_new file fault))"

definition recover_span_on ::
  "crc_append \<Rightarrow> bytes \<Rightarrow> bool \<Rightarrow> (wal_error, bytes list \<times> nat \<times> nat option) result" where
  "recover_span_on app file fault =
     (case collect_all app (reader_new file fault) of
        (Inl e, r) \<Rightarrow> Inl e
      | (Inr records, r) \<Rightarrow> Inr (records, rd_last_good r, rd_resync_origin r))"

definition recover_prefix_span_on ::
  "crc_append \<Rightarrow> bytes \<Rightarrow> bool \<Rightarrow> bytes list \<times> nat \<times> wal_error option \<times> nat option" where
  "recover_prefix_span_on app file fault =
     (case collect_prefix_all app (reader_new file fault) of
        ((records, err), r) \<Rightarrow> (records, rd_last_good r, err, rd_resync_origin r))"

definition recover_from_offset_on ::
  "crc_append \<Rightarrow> bytes \<Rightarrow> bool \<Rightarrow> nat \<Rightarrow> (wal_error, bytes list) result" where
  "recover_from_offset_on app file fault offset =
     bind_r (reader_from_offset file fault offset) (\<lambda>r. fst (collect_all app r))"

section \<open>Reservation covers the next write\<close>

lemma reserve_loop_bounds:
  assumes "need < 2 ^ 64" "p < 2 ^ 64"
  shows "p \<le> reserve_loop prealloc need p \<and> reserve_loop prealloc need p < 2 ^ 64 \<and>
    (need \<le> reserve_loop prealloc need p \<or> \<not> prealloc (reserve_loop prealloc need p))"
  using assms
proof (induction prealloc need p rule: reserve_loop.induct)
  case (1 prealloc need p)
  let ?p = "sat64 (p + WAL_PREALLOC_CHUNK)"
  have "p \<le> ?p" "?p < 2 ^ 64" using "1.prems" by (auto simp: sat64_def)
  then show ?case
    using "1.IH" "1.prems" by (auto simp: reserve_loop.simps [of prealloc need p])
qed

lemma reserve_space_writer [simp]: "wl_writer (reserve_space env n l) = wl_writer l"
  "wl_inflight (reserve_space env n l) = wl_inflight l" "wl_pwrite (reserve_space env n l) = wl_pwrite l"
  "wl_full_fsync (reserve_space env n l) = wl_full_fsync l"
  by (simp_all add: reserve_space_def Let_def)

lemma on_writer_writer [simp]:
  "wl_writer (snd (on_writer f l)) = snd (f (wl_writer l))" "fst (on_writer f l) = fst (f (wl_writer l))"
  by (simp_all add: on_writer_def split_beta)

section \<open>Batches and records\<close>

lemma encode_batches_image:
  assumes "bo \<le> BLOCK_SIZE"
  shows "\<exists>n'. encode_batches app batches n b bo =
    Some (n', b @ fst (log_image app bo (map record_image batches)),
          snd (log_image app bo (map record_image batches)))"
  using assms
proof (induction batches arbitrary: n b bo)
  case (Cons ops batches)
  let ?i = "frame_image app bo (record_image ops) True"
  have "snd ?i \<le> BLOCK_SIZE" using frame_image_aligned [OF Cons.prems] by simp
  from Cons.IH [OF this, of "sat64 (n + encoded_len ops)" "b @ fst ?i"] show ?case
    using Cons.prems by (auto simp: fragment_encoded_len_image)
qed simp

lemma write_framed_lone:
  assumes "b \<noteq> []"
  shows "write_framed env b w = (case write_lone_frame env b w of (r, w') \<Rightarrow>
    (r, if r = Inr () then w'\<lparr>wr_frame := []\<rparr> else w'))"
  using assms
  by (auto simp: write_framed_def write_lone_frame_def batch_is_empty_def split: prod.splits sum.splits)

lemma commit_pwrite_frame [simp]:
  "wr_frame (commit_pwrite t n w) = wr_frame w" "wr_block_offset (commit_pwrite t n w) = wr_block_offset w"
  "wr_staged (commit_pwrite t n w) = wr_staged w" "wr_sink (commit_pwrite t n w) = wr_sink w"
  "wr_reserved_to (commit_pwrite t n w) = wr_reserved_to w" "wr_shared (commit_pwrite t n w) = wr_shared w"
  by (simp_all add: commit_pwrite_def Let_def split_beta)

lemma emit_bytes_frame [simp]:
  "wr_frame (snd (emit_bytes env b t w)) = wr_frame w"
  "wr_staged (snd (emit_bytes env b t w)) = wr_staged w"
  by (simp_all add: emit_bytes_def split_beta Let_def)

lemma reserve_pending_frame [simp]:
  "wr_frame (snd (reserve_pending n w)) = wr_frame w"
  "wr_staged (snd (reserve_pending n w)) = wr_staged w"
  by (simp_all add: reserve_pending_def split_beta)

lemma write_owned_frame [simp]: "wr_frame (snd (write_owned env b w)) = wr_frame w"
  using emit_bytes_frame(1) [of env b "fst (reserve_pending (length b) w)" "snd (reserve_pending (length b) w)"]
  by (auto simp: write_owned_def split_beta Let_def simp del: emit_bytes_frame
      split: sum.split)

lemma drain_staged_frame [simp]: "wr_frame (snd (drain_staged env w)) = wr_frame w"
  by (simp add: drain_staged_def split_beta Let_def split: option.split sum.split)

lemma write_lone_frame_frame [simp]: "wr_frame (snd (write_lone_frame env b w)) = wr_frame w"
  using drain_staged_frame [of env w]
  by (auto simp: write_lone_frame_def split_beta simp del: drain_staged_frame split: sum.split)

section \<open>The log as a sequence of records\<close>

text \<open>With locked writes only, the bytes in the file, the staged bytes behind them and the
  pending frame behind those are together the log of the records appended so far.\<close>

definition staged_bytes :: "wal_writer \<Rightarrow> bytes" where
  "staged_bytes w = (case wr_staged w of None \<Rightarrow> [] | Some st \<Rightarrow> st_buf st)"

definition seq_inv :: "crc_append \<Rightarrow> wal_writer \<Rightarrow> bytes list \<Rightarrow> bool" where
  "seq_inv app w recs \<longleftrightarrow>
     wr_sink w @ staged_bytes w @ wr_frame w = fst (log_image app 0 recs) \<and>
     wr_block_offset w = snd (log_image app 0 recs) \<and>
     wr_position w = length (wr_sink w) \<and>
     wr_reserved_to w = length (wr_sink w) + length (staged_bytes w) \<and> wr_completed w = [] \<and>
     (case wr_staged w of None \<Rightarrow> True
      | Some st \<Rightarrow> st_buf st \<noteq> [] \<longrightarrow> st_start st = length (wr_sink w)) \<and>
     length (fst (log_image app 0 recs)) < 2 ^ 64"

definition healthy :: "sink_env \<Rightarrow> bool" where
  "healthy env \<longleftrightarrow> (\<forall>f b at. sk_write env f b at = (True, write_at f b at))"

lemma healthy_emit: "healthy env \<Longrightarrow> emit_bytes env b at w = (Inr (), w\<lparr>wr_sink := write_at (wr_sink w) b at\<rparr>)"
  by (simp add: healthy_def emit_bytes_def)

lemma healthy_honest: "healthy env \<Longrightarrow> honest_sink env"
  by (simp add: healthy_def honest_sink_def)

lemma mem_sink_healthy: "healthy mem_sink"
  by (simp add: healthy_def mem_sink_def)

lemma seq_inv_len:
  assumes "seq_inv app w recs"
  shows "length (wr_sink w) + (length (staged_bytes w) + length (wr_frame w)) < 2 ^ 64"
proof -
  have "length (wr_sink w @ staged_bytes w @ wr_frame w) < 2 ^ 64"
    using assms unfolding seq_inv_def by metis
  then show ?thesis by simp
qed

lemma drain_seq:
  assumes "seq_inv app w recs" "healthy env"
  shows "\<exists>w'. drain_staged env w = (Inr (), w') \<and> seq_inv app w' recs \<and> staged_bytes w' = [] \<and>
    wr_frame w' = wr_frame w \<and> wr_sink w' = wr_sink w @ staged_bytes w"
proof (cases "staged_bytes w = []")
  case True
  then have "drain_staged env w = (Inr (), w)"
    by (simp add: staged_bytes_def drain_staged_def split: option.splits)
  with assms True show ?thesis by simp
next
  case False
  then obtain st where st: "wr_staged w = Some st" "st_buf st \<noteq> []" "staged_bytes w = st_buf st"
    by (auto simp: staged_bytes_def split: option.splits)
  let ?w = "w\<lparr>wr_staged := Some (st\<lparr>st_buf := []\<rparr>), wr_sink := wr_sink w @ st_buf st\<rparr>"
  have start: "st_start st = length (wr_sink w)" "wr_position w = length (wr_sink w)" "wr_completed w = []"
    and bound: "length (wr_sink w) + length (st_buf st) < 2 ^ 64"
    using assms(1) st seq_inv_len [OF assms(1)] by (auto simp: seq_inv_def)
  have "drain_staged env w = (Inr (), ?w\<lparr>wr_position := length (wr_sink w) + length (st_buf st)\<rparr>)"
    using st start bound commit_at_position [of ?w "st_buf st"]
    by (simp add: drain_staged_def healthy_emit [OF assms(2)] write_at_end Let_def)
  with assms(1) st show ?thesis by (auto simp: seq_inv_def staged_bytes_def)
qed

text \<open>Handing the whole pending frame to the file, or to the staging buffer.\<close>

lemma lone_frame_seq:
  assumes "seq_inv app w recs" "healthy env" "wr_frame w = b" "b \<noteq> []"
  shows "\<exists>w'. write_lone_frame env b (w\<lparr>wr_frame := []\<rparr>) = (Inr (), w') \<and>
    seq_inv app w' recs \<and> staged_bytes w' = [] \<and> wr_frame w' = []"
proof -
  have "\<exists>w1. drain_staged env (w\<lparr>wr_frame := []\<rparr>) = (Inr (), w1\<lparr>wr_frame := []\<rparr>) \<and>
      seq_inv app w1 recs \<and> staged_bytes w1 = [] \<and> wr_frame w1 = b"
  proof -
    obtain w1 where w1: "drain_staged env w = (Inr (), w1)" "seq_inv app w1 recs" "staged_bytes w1 = []"
      "wr_frame w1 = b"
      using drain_seq [OF assms(1,2)] assms(3) by auto
    have "drain_staged env (w\<lparr>wr_frame := []\<rparr>) = (Inr (), w1\<lparr>wr_frame := []\<rparr>)"
      using w1(1) healthy_emit [OF assms(2)]
      by (auto simp: drain_staged_def Let_def commit_pwrite_def split_beta split: option.splits if_splits)
    with w1 show ?thesis by blast
  qed
  then obtain w1 where w1: "drain_staged env (w\<lparr>wr_frame := []\<rparr>) = (Inr (), w1\<lparr>wr_frame := []\<rparr>)"
    "seq_inv app w1 recs" "staged_bytes w1 = []" "wr_frame w1 = b" by blast
  have img: "wr_sink w1 @ b = fst (log_image app 0 recs)" using w1 by (simp add: seq_inv_def)
  then have len: "length (wr_sink w1) + length b = length (fst (log_image app 0 recs))"
    by (metis length_append)
  let ?w = "w1\<lparr>wr_frame := []\<rparr>"
  have "write_owned env b ?w = (Inr (), ?w\<lparr>wr_sink := wr_sink w1 @ b,
      wr_position := length (wr_sink w1) + length b, wr_reserved_to := length (wr_sink w1) + length b\<rparr>)"
    using write_owned_end [of ?w env b] w1(2,3) assms(2,4) healthy_honest len
    by (simp add: seq_inv_def healthy_def)
  with w1 assms(4) img len show ?thesis
    by (auto simp: write_lone_frame_def batch_is_empty_def seq_inv_def staged_bytes_def
        split: option.splits)
qed

lemma frame_seq:
  assumes "seq_inv app w recs" "healthy env" "wr_frame w = b" "b \<noteq> []"
  shows "\<exists>w'. write_frame env b (w\<lparr>wr_frame := []\<rparr>) = (Inr (), w') \<and> seq_inv app w' recs \<and> wr_frame w' = []"
proof (cases "wr_staged w")
  case None
  then have "write_frame env b (w\<lparr>wr_frame := []\<rparr>) = write_lone_frame env b (w\<lparr>wr_frame := []\<rparr>)"
    by (simp add: write_frame_def write_lone_frame_def drain_staged_def)
  with lone_frame_seq [OF assms] show ?thesis by auto
next
  case (Some st)
  let ?st = "(if st_buf st = [] then st\<lparr>st_start := wr_reserved_to w\<rparr> else st)\<lparr>st_buf := st_buf st @ b\<rparr>"
  let ?w = "w\<lparr>wr_frame := [], wr_reserved_to := wr_reserved_to w + length b, wr_staged := Some ?st\<rparr>"
  have bound: "wr_reserved_to w + length b < 2 ^ 64"
    using assms(1,3) seq_inv_len [OF assms(1)] by (simp add: seq_inv_def)
  have run: "write_frame env b (w\<lparr>wr_frame := []\<rparr>) =
      (if should_flush (length (st_buf ?st)) (st_max ?st) then drain_staged env ?w else (Inr (), ?w))"
    using Some assms(4) bound
    by (simp add: write_frame_def batch_is_empty_def reserve_pending_def reserve_frame_def sat64_def Let_def)
  have inv: "seq_inv app ?w recs" "wr_frame ?w = []"
    using assms(1,3) Some by (auto simp: seq_inv_def staged_bytes_def)
  then show ?thesis using run drain_seq [OF inv(1) assms(2)] by auto
qed

text \<open>Histories of a log with locked writes: what has been appended, in order.\<close>

inductive wal_history :: "crc_append \<Rightarrow> wal_env \<Rightarrow> wal \<Rightarrow> bytes list \<Rightarrow> bool" for app env where
  hist_create: "wal_history app env (wal_create_on env positional pwrite_enabled staged_max [] 0) []"
| hist_encode: "\<lbrakk>wal_history app env l recs;
    encode_write_op_batches app batches l = (Inr n, l');
    length (fst (log_image app 0 (recs @ map record_image batches))) < 2 ^ 64\<rbrakk> \<Longrightarrow>
    wal_history app env l' (recs @ map record_image batches)"
| hist_write: "\<lbrakk>wal_history app env l recs; write_pending_inner env lone l = (r, l')\<rbrakk> \<Longrightarrow>
    wal_history app env l' recs"
| hist_append: "\<lbrakk>wal_history app env l recs; wr_frame (wl_writer l) = [];
    append_records app env ds l = (r, l');
    length (fst (log_image app 0 (recs @ ds))) < 2 ^ 64\<rbrakk> \<Longrightarrow>
    wal_history app env l' (recs @ ds)"
| hist_sync: "\<lbrakk>wal_history app env l recs; sync_data_inner env l = Some (r, l')\<rbrakk> \<Longrightarrow>
    wal_history app env l' recs"
| hist_flush: "\<lbrakk>wal_history app env l recs; wal_flush env l = (r, l')\<rbrakk> \<Longrightarrow>
    wal_history app env l' recs"

lemma seq_inv_bound: "seq_inv app w recs \<Longrightarrow> wr_block_offset w \<le> BLOCK_SIZE"
  by (simp add: seq_inv_def log_image_bound)

lemma seq_inv_add_frame:
  assumes "seq_inv app w recs" "length (fst (log_image app 0 (recs @ ds))) < 2 ^ 64"
  shows "seq_inv app (w\<lparr>wr_frame := wr_frame w @ fst (log_image app (wr_block_offset w) ds),
    wr_block_offset := snd (log_image app (wr_block_offset w) ds)\<rparr>) (recs @ ds)"
  using assms
  by (auto simp: seq_inv_def staged_bytes_def log_image_append simp flip: append_assoc split: option.splits)

lemma encode_seq:
  assumes "seq_inv app (wl_writer l) recs" "encode_write_op_batches app batches l = (Inr n, l')"
    and "length (fst (log_image app 0 (recs @ map record_image batches))) < 2 ^ 64"
  shows "seq_inv app (wl_writer l') (recs @ map record_image batches)"
proof -
  obtain n' where "encode_batches app batches 0 (wr_frame (wl_writer l)) (wr_block_offset (wl_writer l)) =
      Some (n', wr_frame (wl_writer l) @
        fst (log_image app (wr_block_offset (wl_writer l)) (map record_image batches)),
        snd (log_image app (wr_block_offset (wl_writer l)) (map record_image batches)))"
    using encode_batches_image [OF seq_inv_bound [OF assms(1)]] by blast
  then have "batches \<noteq> [] \<Longrightarrow> l' = l\<lparr>wl_writer := (wl_writer l)\<lparr>wr_frame := wr_frame (wl_writer l) @
      fst (log_image app (wr_block_offset (wl_writer l)) (map record_image batches)),
      wr_block_offset := snd (log_image app (wr_block_offset (wl_writer l)) (map record_image batches))\<rparr>\<rparr>"
    using assms(2) by (simp add: encode_write_op_batches_def batch_is_empty_def Let_def)
  with seq_inv_add_frame [OF assms(1,3)] assms(1,2) show ?thesis
    by (cases "batches = []") (auto simp: encode_write_op_batches_def batch_is_empty_def)
qed

lemma frame_taken: "wr_frame w = [] \<Longrightarrow> w\<lparr>wr_frame := []\<rparr> = w"
  by (cases w) simp

lemma write_pending_seq:
  assumes "seq_inv app (wl_writer l) recs" "healthy (we_sink env)" "write_pending_inner env lone l = (r, l')"
  shows "r = Inr () \<and> seq_inv app (wl_writer l') recs \<and> wr_frame (wl_writer l') = [] \<and>
    wl_inflight l' = wl_inflight l \<and> wl_full_fsync l' = wl_full_fsync l"
proof (cases "wr_frame (wl_writer l) = []")
  case True
  with assms show ?thesis by (simp add: write_pending_inner_def batch_is_empty_def)
next
  case False
  let ?w = "(wl_writer l)\<lparr>wr_frame := []\<rparr>"
  obtain w' where w': "(if lone then write_lone_frame else write_frame) (we_sink env)
      (wr_frame (wl_writer l)) ?w = (Inr (), w')" "seq_inv app w' recs" "wr_frame w' = []"
    using lone_frame_seq [OF assms(1,2) refl False] frame_seq [OF assms(1,2) refl False]
    by (cases lone) auto
  show ?thesis using assms(3) False w'
    by (auto simp: write_pending_inner_def batch_is_empty_def on_writer_def Let_def frame_taken)
qed

lemma flush_seq:
  assumes "seq_inv app w recs" "healthy env" "writer_flush env w = (r, w')"
  shows "seq_inv app w' recs \<and> wr_frame w' = wr_frame w \<and> staged_bytes w' = []"
  using drain_seq [OF assms(1,2)] assms(3) by (auto simp: writer_flush_def split: if_splits)

lemma append_records_seq:
  assumes "seq_inv app (wl_writer l) recs" "healthy (we_sink env)" "wr_frame (wl_writer l) = []"
    and "append_records app env ds l = (r, l')"
    and "length (fst (log_image app 0 (recs @ ds))) < 2 ^ 64"
  shows "r = Inr () \<and> seq_inv app (wl_writer l') (recs @ ds)"
proof (cases "ds = []")
  case True
  with assms show ?thesis
    by (simp add: append_records_def on_writer_def add_records_def batch_is_empty_def)
      (auto simp: reserve_space_def Let_def)
next
  case False
  let ?w = "wl_writer l" and ?bo = "wr_block_offset (wl_writer l)"
  define b where "b = fst (log_image app ?bo ds)"
  let ?w1 = "?w\<lparr>wr_frame := b, wr_block_offset := snd (log_image app ?bo ds)\<rparr>"
  have b: "b \<noteq> []" using log_image_nonempty [OF False] by (simp add: b_def)
  have inv1: "seq_inv app ?w1 (recs @ ds)"
    using seq_inv_add_frame [OF assms(1,5)] assms(3) by (simp add: b_def)
  obtain w' where w': "write_lone_frame (we_sink env) b (?w1\<lparr>wr_frame := []\<rparr>) = (Inr (), w')"
    "seq_inv app w' (recs @ ds)" "wr_frame w' = []"
    using lone_frame_seq [OF inv1 assms(2) _ b] by auto
  have "?w1\<lparr>wr_frame := []\<rparr> = ?w\<lparr>wr_frame := [], wr_block_offset := snd (log_image app ?bo ds)\<rparr>" by simp
  with w'(1) have "write_framed (we_sink env) b (?w\<lparr>wr_frame := [],
      wr_block_offset := snd (log_image app ?bo ds)\<rparr>) = (Inr (), w')"
    by (simp add: write_framed_lone [OF b] frame_taken [OF w'(3)])
  then have "add_records app (we_sink env) ds ?w = (Inr (), w')"
    using False seq_inv_bound [OF assms(1)]
    by (simp add: add_records_def batch_is_empty_def fragment_records_image b_def [symmetric]
        del: prod.collapse)
  with assms(4) w' show ?thesis
    by (auto simp: append_records_def on_writer_def)
qed

lemma sync_seq:
  assumes "seq_inv app (wl_writer l) recs" "healthy (we_sink env)" "sync_data_inner env l = Some (r, l')"
  shows "seq_inv app (wl_writer l') recs \<and>
    (r = Inr () \<longrightarrow> wr_frame (wl_writer l') = [] \<and> staged_bytes (wl_writer l') = [] \<and>
       wl_inflight l = 0 \<and> we_sync_data env (wl_full_fsync l) (wr_sink (wl_writer l')))"
proof -
  obtain r1 l1 where p: "write_pending_inner env False l = (r1, l1)" by fastforce
  note s1 = write_pending_seq [OF assms(1,2) p]
  obtain r2 w2 where f: "writer_flush (we_sink env) (wl_writer l1) = (r2, w2)" by fastforce
  note s2 = flush_seq [OF _ assms(2) f, of app recs]
  show ?thesis
    using assms(3) s1 s2 p f
    by (auto simp: sync_data_inner_def wait_inflight_def and_then_def on_writer_def sink_barrier_def
        split: if_splits sum.splits)
qed

lemma wal_flush_seq:
  assumes "seq_inv app (wl_writer l) recs" "healthy (we_sink env)" "wal_flush env l = (r, l')"
  shows "seq_inv app (wl_writer l') recs"
proof -
  obtain r1 l1 where p: "write_pending_inner env False l = (r1, l1)" by fastforce
  note s1 = write_pending_seq [OF assms(1,2) p]
  then obtain w2 where d: "drain_staged (we_sink env) (wl_writer l1) = (Inr (), w2)" "seq_inv app w2 recs"
    using drain_seq [OF _ assms(2)] by blast
  obtain r3 w3 where f: "writer_flush (we_sink env) w2 = (r3, w3)" by fastforce
  show ?thesis
    using assms(3) s1 p d f flush_seq [OF d(2) assms(2) f]
    by (auto simp: wal_flush_def and_then_def on_writer_def split: sum.splits)
qed

lemma create_seq: "seq_inv app (wl_writer (wal_create_on env positional pw staged_max [] 0)) []"
  by (simp add: wal_create_on_def Let_def seq_inv_def staged_bytes_def enable_staging_def writer_new_def)

lemma history_seq:
  assumes "wal_history app env l recs" "healthy (we_sink env)"
  shows "seq_inv app (wl_writer l) recs"
  using assms(1)
proof induction
  case hist_create
  then show ?case by (rule create_seq)
next
  case (hist_encode l recs batches n l')
  then show ?case by (intro encode_seq)
next
  case (hist_write l recs lone r l')
  then show ?case using write_pending_seq [OF _ assms(2)] by blast
next
  case (hist_append l recs ds r l')
  then show ?case using append_records_seq [OF _ assms(2)] by blast
next
  case (hist_sync l recs r l')
  then show ?case using sync_seq [OF _ assms(2)] by blast
next
  case (hist_flush l recs r l')
  then show ?case using wal_flush_seq [OF _ assms(2)] by blast
qed

section \<open>Properties\<close>


definition mem_env :: wal_env where
  "mem_env = \<lparr>we_sink = mem_sink, we_prealloc = (\<lambda>_. True), we_sync_data = (\<lambda>_ _. True),
     we_sync_all = (\<lambda>_. True)\<rparr>"




lemma pw_inv_frame [simp]:
  "pw_inv base (w\<lparr>wr_frame := b\<rparr>) sp = pw_inv base w sp"
  by (simp add: pw_inv_def)



text \<open>C31. Storage is reserved ahead of every write: the reservation loop ends, never gives back
  covered space, and afterwards either the upcoming bytes and one more chunk behind the
  reservation frontier are covered, or the file system refused an extent at exactly the point
  where it stopped; the writer itself is untouched.\<close>

theorem reserve_space_covers:
  assumes "wr_reserved_to (wl_writer l) < 2 ^ 64" "wl_prealloc_to l < 2 ^ 64"
  shows "let l' = reserve_space env upcoming l; p = wl_prealloc_to l' in
    wl_prealloc_to l \<le> p \<and> wr_reserved_to (wl_writer l) \<le> p \<and> p < 2 ^ 64 \<and> wl_writer l' = wl_writer l \<and>
    (min (wr_reserved_to (wl_writer l) + upcoming + WAL_PREALLOC_CHUNK) (2 ^ 64 - 1) \<le> p \<or>
     \<not> we_prealloc env p)"
proof -
  let ?p = "max (wl_prealloc_to l) (wr_reserved_to (wl_writer l))"
  let ?need = "sat64 (sat64 (wr_reserved_to (wl_writer l) + upcoming) + WAL_PREALLOC_CHUNK)"
  have "?need < 2 ^ 64" "?p < 2 ^ 64"
    "?need = min (wr_reserved_to (wl_writer l) + upcoming + WAL_PREALLOC_CHUNK) (2 ^ 64 - 1)"
    using assms by (auto simp: sat64_def)
  with reserve_loop_bounds [of ?need ?p "we_prealloc env"] show ?thesis
    by (simp add: reserve_space_def Let_def)
qed

theorem reserve_space_covers_witness:
  "let l = reserve_space mem_env 100 (wal_create_on mem_env True True 0 [] 0)
   in 100 + WAL_PREALLOC_CHUNK \<le> wl_prealloc_to l"
proof -
  let ?la = "wal_create_on mem_env True True 0 [] 0"
  have w: "wr_reserved_to (wl_writer ?la) = 0" by (simp add: wal_create_on_def writer_new_def)
  have "wl_prealloc_to ?la < 2 ^ 64"
    using reserve_loop_bounds [of "sat64 (sat64 1 + WAL_PREALLOC_CHUNK)" 0 "\<lambda>_. True"]
    by (simp add: wal_create_on_def reserve_space_def writer_new_def mem_env_def sat64_def Let_def)
  with reserve_space_covers [of ?la mem_env 100] w show ?thesis
    by (simp add: mem_env_def WAL_PREALLOC_CHUNK_def Let_def)
qed


end
