(* ===== verification/Visibility.thy ===== *)
theory Visibility
  imports Keys
begin

text \<open>
  Reading versions at a snapshot (the batch part of \<open>merge_kernel.rs\<close>): the decisions on
  range tombstones and liveness, and \<open>visible_range_limited\<close>, which sorts all versions in
  an ordered map and walks it once per user key.  The walk is shown to compute the
  declarative meaning of a snapshot read, \<open>visible_spec\<close>.
\<close>

type_synonym entry = "internal_key \<times> bytes"

section \<open>Ordered maps\<close>

text \<open>A \<open>BTreeMap\<close> as its sorted sequence of pairs.\<close>

fun btree_insert :: "'k::linorder \<Rightarrow> 'v \<Rightarrow> ('k \<times> 'v) list \<Rightarrow> ('k \<times> 'v) list" where
  "btree_insert k v [] = [(k, v)]"
| "btree_insert k v ((k', v') # xs) =
     (if k < k' then (k, v) # (k', v') # xs
      else if k = k' then (k, v) # xs
      else (k', v') # btree_insert k v xs)"

definition btree_ok :: "('k::linorder \<times> 'v) list \<Rightarrow> bool" where
  "btree_ok xs \<longleftrightarrow> sorted_wrt (<) (map fst xs)"

lemma set_btree_insert:
  assumes "btree_ok xs"
  shows "set (btree_insert k v xs) = insert (k, v) {x \<in> set xs. fst x \<noteq> k}"
  using assms
proof (induction k v xs rule: btree_insert.induct)
  case (2 k v k' v' xs)
  then show ?case by (auto simp: btree_ok_def)
qed simp

lemma btree_insert_ok: "btree_ok xs \<Longrightarrow> btree_ok (btree_insert k v xs)"
proof (induction k v xs rule: btree_insert.induct)
  case (2 k v k' v' xs)
  then have "btree_ok xs" by (simp add: btree_ok_def)
  then have "\<forall>x \<in> set (btree_insert k v xs). fst x = k \<or> x \<in> set xs"
    by (auto simp: set_btree_insert)
  with 2 show ?case by (fastforce simp: btree_ok_def)
qed (simp add: btree_ok_def)

definition btree_extend :: "('k::linorder \<times> 'v) list \<Rightarrow> ('k \<times> 'v) list \<Rightarrow> ('k \<times> 'v) list" where
  "btree_extend m xs = fold (\<lambda>(k, v). btree_insert k v) xs m"

lemma btree_extend_simps [simp]:
  "btree_extend m [] = m"
  "btree_extend m ((k, v) # xs) = btree_extend (btree_insert k v m) xs"
  by (simp_all add: btree_extend_def)

text \<open>Inserting rows whose keys determine their values collects exactly those rows.\<close>

lemma btree_extend_rows:
  assumes "inj_on fst (set m \<union> set xs)" "btree_ok m"
  shows "btree_ok (btree_extend m xs) \<and> set (btree_extend m xs) = set m \<union> set xs"
  using assms
proof (induction xs arbitrary: m)
  case (Cons x xs)
  obtain k v where x: "x = (k, v)" by fastforce
  have "\<forall>y \<in> set m. fst y = k \<longrightarrow> y = x" using Cons.prems(1) by (auto simp: inj_on_def x)
  then have "set (btree_insert k v m) = insert x (set m)"
    using set_btree_insert [OF Cons.prems(2), of k v] x by auto
  then show ?case
    using Cons.IH [OF _ btree_insert_ok [OF Cons.prems(2), of k v]] Cons.prems(1) x by simp
qed simp

lemma btree_ok_unique:
  assumes "btree_ok xs" "btree_ok ys" "set xs = set ys"
  shows "xs = ys"
proof -
  have keys: "sorted (map fst xs) \<and> distinct (map fst xs)" "sorted (map fst ys) \<and> distinct (map fst ys)"
    using assms(1,2) by (simp_all add: btree_ok_def strict_sorted_iff)
  have "set (map fst xs) = set (map fst ys)" using assms(3) by simp
  with keys have "map fst xs = map fst ys" using sorted_distinct_set_unique by blast
  moreover have "inj_on fst (set xs \<union> set ys)"
    using keys(1) by (simp add: distinct_map assms(3) [symmetric])
  ultimately show ?thesis by (rule map_inj_on)
qed

section \<open>Decisions\<close>

record range_tombstone =
  rt_start :: bytes
  rt_end :: bytes
  rt_sequence :: u64

record visible_kv =
  vk_key :: bytes
  vk_value :: bytes

datatype key_bound = Unbounded | Included bytes | Excluded bytes

definition range_tombstone_covers :: "bytes \<Rightarrow> bytes \<Rightarrow> bytes \<Rightarrow> bool" where
  "range_tombstone_covers start end' key = (start \<le> key \<and> key < end')"

fun write_op_covers_key :: "value_type \<Rightarrow> bytes \<Rightarrow> bytes \<Rightarrow> bytes \<Rightarrow> bool" where
  "write_op_covers_key RangeDeletion start end' key = range_tombstone_covers start end' key"
| "write_op_covers_key _ start end' key = (start = key)"

fun write_op_range_end :: "value_type \<Rightarrow> bytes \<Rightarrow> bytes option" where
  "write_op_range_end RangeDeletion v = Some v"
| "write_op_range_end _ v = None"

fun visible_at :: "value_type \<Rightarrow> bool \<Rightarrow> bool" where
  "visible_at Value range_hidden = (\<not> range_hidden)"
| "visible_at _ range_hidden = False"

function get_live_loop :: "value_type list \<Rightarrow> bool list \<Rightarrow> nat \<Rightarrow> nat \<Rightarrow> bool \<Rightarrow> bool \<Rightarrow> bool" where
  "get_live_loop kinds hiddens n i live decided =
     (if i < n then
        get_live_loop kinds hiddens n (i + 1)
          (if \<not> decided then visible_at (kinds ! i) (hiddens ! i) else live) True
      else live)"
  by pat_completeness auto
termination by (relation "measure (\<lambda>(kinds, hiddens, n, i, live, decided). n - i)") auto

declare get_live_loop.simps [simp del]

definition get_live :: "value_type list \<Rightarrow> bool list \<Rightarrow> bool" where
  "get_live kinds hiddens =
     get_live_loop kinds hiddens (min (length kinds) (length hiddens)) 0 False False"

definition iter_window_keep :: "bool \<Rightarrow> bool" where
  "iter_window_keep snapshot_live = snapshot_live"

definition rt_covers :: "range_tombstone \<Rightarrow> bytes \<Rightarrow> bool" where
  "rt_covers t u = range_tombstone_covers (rt_start t) (rt_end t) u"

fun after_start :: "bytes \<Rightarrow> key_bound \<Rightarrow> bool" where
  "after_start u Unbounded = True"
| "after_start u (Included s) = (s \<le> u)"
| "after_start u (Excluded s) = (s < u)"

fun before_end :: "bytes \<Rightarrow> key_bound \<Rightarrow> bool" where
  "before_end u Unbounded = True"
| "before_end u (Included e) = (u \<le> e)"
| "before_end u (Excluded e) = (u < e)"

definition user_key_in_range :: "bytes \<Rightarrow> key_bound \<Rightarrow> key_bound \<Rightarrow> bool" where
  "user_key_in_range u start end' = (after_start u start \<and> before_end u end')"

fun past_end :: "bytes \<Rightarrow> key_bound \<Rightarrow> bool" where
  "past_end u Unbounded = False"
| "past_end u (Included e) = (e < u)"
| "past_end u (Excluded e) = (e \<le> u)"

definition to_tombstone :: "entry \<Rightarrow> range_tombstone" where
  "to_tombstone x = \<lparr>rt_start = user_key (fst x), rt_end = snd x, rt_sequence = sequence (fst x)\<rparr>"

fun collect_range_tombstones :: "entry list \<Rightarrow> u64 \<Rightarrow> range_tombstone list" where
  "collect_range_tombstones [] snapshot = []"
| "collect_range_tombstones ((ikey, v) # xs) snapshot =
     (if kind ikey \<noteq> RangeDeletion \<or> snapshot < sequence ikey
      then collect_range_tombstones xs snapshot
      else to_tombstone (ikey, v) # collect_range_tombstones xs snapshot)"

definition range_deleted :: "bytes \<Rightarrow> u64 \<Rightarrow> range_tombstone list \<Rightarrow> bool" where
  "range_deleted u point_seq tombs = list_ex (\<lambda>t. rt_covers t u \<and> point_seq < rt_sequence t) tombs"

section \<open>The batch read\<close>

fun visible_gather ::
  "u64 \<Rightarrow> key_bound \<Rightarrow> key_bound \<Rightarrow> entry list \<Rightarrow> entry list \<times> range_tombstone list \<Rightarrow>
   entry list \<times> range_tombstone list" where
  "visible_gather snapshot start end' [] acc = acc"
| "visible_gather snapshot start end' ((ikey, v) # xs) (m, dels) =
     visible_gather snapshot start end' xs
       (if snapshot < sequence ikey then (m, dels)
        else if kind ikey = RangeDeletion then (m, dels @ [to_tombstone (ikey, v)])
        else if \<not> user_key_in_range (user_key ikey) start end' then (m, dels)
        else (btree_insert ikey v m, dels))"

definition row_live :: "range_tombstone list \<Rightarrow> internal_key \<Rightarrow> bool" where
  "row_live dels ikey =
     get_live [kind ikey] [range_deleted (user_key ikey) (sequence ikey) dels]"

function visible_walk ::
  "range_tombstone list \<Rightarrow> nat option \<Rightarrow> entry list \<Rightarrow> visible_kv list \<Rightarrow> visible_kv list" where
  "visible_walk dels limit xs out =
     (case xs of
        [] \<Rightarrow> out
      | (ikey, v) # rest \<Rightarrow>
          if (case limit of Some m \<Rightarrow> m \<le> length out | None \<Rightarrow> False) then out
          else visible_walk dels limit
            (dropWhile (\<lambda>x. user_key (fst x) = user_key ikey) rest)
            (if iter_window_keep (row_live dels ikey)
             then out @ [\<lparr>vk_key = user_key ikey, vk_value = v\<rparr>] else out))"
  by pat_completeness auto
termination
  by (relation "measure (\<lambda>(dels, limit, xs, out). length xs)")
    (auto simp: less_Suc_eq_le length_dropWhile_le)

declare visible_walk.simps [simp del]

definition visible_range_limited ::
  "entry list \<Rightarrow> u64 \<Rightarrow> key_bound \<Rightarrow> key_bound \<Rightarrow> nat option \<Rightarrow> visible_kv list" where
  "visible_range_limited entries snapshot start end' limit =
     (let (m, dels) = visible_gather snapshot start end' entries ([], [])
      in visible_walk dels limit m [])"

definition visible_range ::
  "entry list \<Rightarrow> u64 \<Rightarrow> key_bound \<Rightarrow> key_bound \<Rightarrow> visible_kv list" where
  "visible_range entries snapshot start end' =
     visible_range_limited entries snapshot start end' None"

section \<open>What a snapshot read means\<close>

text \<open>A version the snapshot may see, and the newest of them.\<close>

definition candidate :: "entry set \<Rightarrow> u64 \<Rightarrow> bytes \<Rightarrow> entry \<Rightarrow> bool" where
  "candidate es snapshot u x \<longleftrightarrow>
     x \<in> es \<and> user_key (fst x) = u \<and> sequence (fst x) \<le> snapshot \<and> kind (fst x) \<noteq> RangeDeletion"

definition newest :: "entry set \<Rightarrow> u64 \<Rightarrow> bytes \<Rightarrow> entry \<Rightarrow> bool" where
  "newest es snapshot u x \<longleftrightarrow>
     candidate es snapshot u x \<and> (\<forall>y. candidate es snapshot u y \<longrightarrow> fst x \<le> fst y)"

definition hidden :: "entry set \<Rightarrow> u64 \<Rightarrow> bytes \<Rightarrow> u64 \<Rightarrow> bool" where
  "hidden es snapshot u s \<longleftrightarrow>
     (\<exists>t \<in> es. kind (fst t) = RangeDeletion \<and> s < sequence (fst t) \<and> sequence (fst t) \<le> snapshot \<and>
        user_key (fst t) \<le> u \<and> u < snd t)"

definition visible_spec :: "entry set \<Rightarrow> u64 \<Rightarrow> bytes \<Rightarrow> bytes \<Rightarrow> bool" where
  "visible_spec es snapshot u v \<longleftrightarrow>
     (\<exists>ik. newest es snapshot u (ik, v) \<and> kind ik = Value \<and> \<not> hidden es snapshot u (sequence ik))"

text \<open>Equal internal keys carry equal values (a version may be stored more than once).\<close>

definition consistent :: "entry set \<Rightarrow> bool" where
  "consistent es \<longleftrightarrow> inj_on fst es"

lemma get_live_decided: "get_live_loop kinds hiddens n i live True = live"
  by (induction "n - i" arbitrary: i) (simp_all add: get_live_loop.simps [of _ _ _ _ live])

lemma get_live_single: "get_live [k] [h] = visible_at k h"
  by (simp add: get_live_def get_live_loop.simps [of _ _ _ 0] get_live_decided)

lemma past_end_not_in_range: "past_end u e \<Longrightarrow> \<not> user_key_in_range u s e"
  by (cases e) (auto simp: user_key_in_range_def)

lemma past_end_mono: "past_end u e \<Longrightarrow> u \<le> w \<Longrightarrow> past_end w e"
  by (cases e) auto

lemma row_live_iff:
  "row_live dels ikey \<longleftrightarrow> kind ikey = Value \<and> \<not> range_deleted (user_key ikey) (sequence ikey) dels"
  by (cases "kind ikey") (simp_all add: row_live_def get_live_single)

section \<open>The batch read computes the specification\<close>

text \<open>The rows the walk works on and the tombstones that hide them.\<close>

definition relevant :: "u64 \<Rightarrow> key_bound \<Rightarrow> key_bound \<Rightarrow> entry \<Rightarrow> bool" where
  "relevant snapshot start end' x \<longleftrightarrow>
     sequence (fst x) \<le> snapshot \<and> kind (fst x) \<noteq> RangeDeletion \<and>
     user_key_in_range (user_key (fst x)) start end'"

lemma consistent_subset: "consistent es \<Longrightarrow> fs \<subseteq> es \<Longrightarrow> consistent fs"
  by (auto simp: consistent_def intro: inj_on_subset)

lemma visible_gather_eq:
  "visible_gather snapshot start end' es (m, dels) =
     (btree_extend m (filter (relevant snapshot start end') es), dels @ collect_range_tombstones es snapshot)"
  by (induction es arbitrary: m dels) (auto simp: relevant_def not_less)

lemma visible_gather_rows:
  assumes "consistent (set es)" "visible_gather snapshot start end' es ([], []) = (m, dels)"
  shows "btree_ok m \<and> set m = {x \<in> set es. relevant snapshot start end' x} \<and>
    dels = collect_range_tombstones es snapshot"
  using btree_extend_rows [of "[]" "filter (relevant snapshot start end') es"] assms(2)
    consistent_subset [OF assms(1), of "{x \<in> set es. relevant snapshot start end' x}"]
  by (auto simp: visible_gather_eq consistent_def btree_ok_def)

lemma set_collect_range_tombstones:
  "set (collect_range_tombstones es snapshot) =
     to_tombstone ` {t \<in> set es. kind (fst t) = RangeDeletion \<and> sequence (fst t) \<le> snapshot}"
  by (induction es snapshot rule: collect_range_tombstones.induct) (auto simp: not_less)

lemma range_deleted_iff:
  "range_deleted u s (collect_range_tombstones es snapshot) \<longleftrightarrow> hidden (set es) snapshot u s"
  by (force simp: range_deleted_def hidden_def list_ex_iff set_collect_range_tombstones to_tombstone_def
      rt_covers_def range_tombstone_covers_def)

text \<open>On a sorted list of rows, dropping the rest of a user key's run leaves exactly the
  larger user keys.\<close>

lemma dropWhile_user:
  assumes "btree_ok ((ik, v) # xs)"
  shows "set (dropWhile (\<lambda>x. user_key (fst x) = user_key ik) xs) =
      {x \<in> set xs. user_key ik < user_key (fst x)} \<and>
    btree_ok (dropWhile (\<lambda>x. user_key (fst x) = user_key ik) xs)"
  using assms
proof (induction xs)
  case (Cons x xs)
  note sort = Cons.prems [unfolded btree_ok_def]
  have tail: "btree_ok ((ik, v) # xs)" using sort by (auto simp: btree_ok_def)
  have le: "user_key ik \<le> user_key (fst x)"
    using sort by (auto intro!: ikey_le_user_key)
  have "user_key (fst x) \<le> user_key (fst y)" if "y \<in> set xs" for y
    using sort that by (auto intro!: ikey_le_user_key)
  then have "user_key ik < user_key (fst x) \<Longrightarrow> y \<in> set xs \<Longrightarrow> user_key ik < user_key (fst y)" for y
    by (blast intro: less_le_trans)
  then show ?case using Cons.IH [OF tail] le sort by (auto simp: btree_ok_def)
qed (simp add: btree_ok_def)

text \<open>The rows the walk emits: the live first rows of the runs of equal user keys.\<close>

definition run_head :: "entry list \<Rightarrow> entry \<Rightarrow> bool" where
  "run_head xs x \<longleftrightarrow> x \<in> set xs \<and> (\<forall>y \<in> set xs. user_key (fst y) = user_key (fst x) \<longrightarrow> fst x \<le> fst y)"

lemma run_head_Cons:
  assumes "btree_ok ((ik, v) # xs)"
  shows "run_head ((ik, v) # xs) x \<longleftrightarrow>
    x = (ik, v) \<or> run_head (dropWhile (\<lambda>x. user_key (fst x) = user_key ik) xs) x"
proof -
  have less: "\<forall>y \<in> set xs. ik < fst y" using assms by (simp add: btree_ok_def)
  then have le: "\<forall>y \<in> set xs. user_key ik \<le> user_key (fst y)" by (auto intro: ikey_le_user_key less_imp_le)
  show ?thesis
    using less le conjunct1 [OF dropWhile_user [OF assms]]
    by (fastforce simp: run_head_def order.strict_iff_order)
qed

function emitted_rows :: "range_tombstone list \<Rightarrow> entry list \<Rightarrow> entry list" where
  "emitted_rows dels [] = []"
| "emitted_rows dels (x # xs) =
     (if row_live dels (fst x) then [x] else []) @
     emitted_rows dels (dropWhile (\<lambda>y. user_key (fst y) = user_key (fst x)) xs)"
  by pat_completeness auto
termination
  by (relation "measure (\<lambda>(dels, xs). length xs)") (auto simp: less_Suc_eq_le length_dropWhile_le)

definition row_kv :: "entry \<Rightarrow> visible_kv" where
  "row_kv x = \<lparr>vk_key = user_key (fst x), vk_value = snd x\<rparr>"

lemma visible_walk_emitted:
  "visible_walk dels limit xs out =
     out @ map row_kv (case limit of None \<Rightarrow> emitted_rows dels xs
                                   | Some m \<Rightarrow> take (m - length out) (emitted_rows dels xs))"
proof (induction dels xs arbitrary: out rule: emitted_rows.induct)
  case (1 dels)
  then show ?case by (simp add: visible_walk.simps split: option.split)
next
  case (2 dels x xs)
  then show ?case
    by (cases "\<exists>m. limit = Some m \<and> m \<le> length out")
      (auto simp: visible_walk.simps [of _ _ "_ # _"] iter_window_keep_def row_kv_def take_Cons' 
        split: option.splits prod.splits)
qed

lemma emitted_rows_meet:
  assumes "btree_ok xs"
  shows "set (emitted_rows dels xs) = {x. run_head xs x \<and> row_live dels (fst x)} \<and>
    sorted_wrt (<) (map (user_key \<circ> fst) (emitted_rows dels xs))"
  using assms
proof (induction dels xs rule: emitted_rows.induct)
  case (2 dels x xs)
  obtain ik v where x: "x = (ik, v)" by fastforce
  note ok = 2(2) [unfolded x]
  let ?rest = "dropWhile (\<lambda>y. user_key (fst y) = user_key (fst x)) xs"
  have rest: "set ?rest = {y \<in> set xs. user_key ik < user_key (fst y)}" "btree_ok ?rest"
    using dropWhile_user [OF ok] x by simp_all
  have "\<forall>y. run_head ?rest y \<longrightarrow> user_key ik < user_key (fst y)"
    using rest(1) by (auto simp: run_head_def)
  then show ?case using 2(1) [OF rest(2)] run_head_Cons [OF ok] x by auto
qed (simp add: run_head_def)

text \<open>Over the rows gathered from all versions, a live run head is the version the snapshot
  read is specified to return.\<close>

lemma run_head_newest:
  assumes rows: "set m = {x \<in> set es. relevant snapshot start end' x}"
    and dels: "dels = collect_range_tombstones es snapshot"
  shows "run_head m (ik, v) \<and> row_live dels ik \<longleftrightarrow>
    user_key_in_range (user_key ik) start end' \<and> newest (set es) snapshot (user_key ik) (ik, v) \<and>
    kind ik = Value \<and> \<not> hidden (set es) snapshot (user_key ik) (sequence ik)"
  unfolding dels row_live_iff range_deleted_iff
  by (auto simp: run_head_def rows relevant_def newest_def candidate_def)

text \<open>C5. A snapshot range read returns the live rows of the snapshot: in strictly
  increasing key order, it contains a key with a value exactly when the key lies in the
  requested bounds and the newest version the snapshot sees is that value, with no newer
  range tombstone of the snapshot covering it; and a limited read returns the first rows of
  the unlimited one.\<close>

theorem visible_range_meets_spec:
  assumes "consistent (set es)"
  shows "sorted_wrt (<) (map vk_key (visible_range es snapshot start end')) \<and>
    (\<forall>u v. \<lparr>vk_key = u, vk_value = v\<rparr> \<in> set (visible_range es snapshot start end') \<longleftrightarrow>
      user_key_in_range u start end' \<and> visible_spec (set es) snapshot u v) \<and>
    visible_range_limited es snapshot start end' (Some n) = take n (visible_range es snapshot start end')"
proof -
  obtain m dels where g: "visible_gather snapshot start end' es ([], []) = (m, dels)" by fastforce
  have ok: "btree_ok m" and rows: "set m = {x \<in> set es. relevant snapshot start end' x}"
    and dels: "dels = collect_range_tombstones es snapshot"
    using visible_gather_rows [OF assms g] by simp_all
  have range: "visible_range es snapshot start end' = map row_kv (emitted_rows dels m)"
    by (simp add: visible_range_def visible_range_limited_def g visible_walk_emitted)
  have sorted: "sorted_wrt (<) (map vk_key (visible_range es snapshot start end'))"
    using emitted_rows_meet [OF ok, of dels] by (simp add: range row_kv_def comp_def)
  have limited: "visible_range_limited es snapshot start end' (Some n) =
      take n (visible_range es snapshot start end')"
    by (simp add: range visible_range_limited_def g visible_walk_emitted take_map)
  have "\<lparr>vk_key = u, vk_value = v\<rparr> \<in> set (visible_range es snapshot start end') \<longleftrightarrow>
      user_key_in_range u start end' \<and> visible_spec (set es) snapshot u v" for u v
  proof -
    have "\<lparr>vk_key = u, vk_value = v\<rparr> \<in> set (visible_range es snapshot start end') \<longleftrightarrow>
        (\<exists>ik. user_key ik = u \<and> run_head m (ik, v) \<and> row_live dels ik)"
      using emitted_rows_meet [OF ok, of dels] by (force simp: range row_kv_def)
    also have "\<dots> \<longleftrightarrow> user_key_in_range u start end' \<and> visible_spec (set es) snapshot u v"
      unfolding run_head_newest [OF rows dels] visible_spec_def
      by (auto simp: newest_def candidate_def)
    finally show ?thesis .
  qed
  with sorted limited show ?thesis by blast
qed

definition sample_versions :: "entry list" where
  "sample_versions =
     [(InternalKey [2] 3 Value, [9]), (InternalKey [1] 2 Value, [8]), (InternalKey [2] 1 Value, [7]),
      (InternalKey [1] 4 RangeDeletion, [2]), (InternalKey [3] 5 Deletion, [])]"

lemma visible_range_meets_spec_witness:
  "consistent (set sample_versions) \<and>
   (\<lparr>vk_key = [2], vk_value = [9]\<rparr> \<in> set (visible_range sample_versions 9 Unbounded Unbounded) \<longleftrightarrow>
     user_key_in_range [2] Unbounded Unbounded \<and> visible_spec (set sample_versions) 9 [2] [9]) \<and>
   visible_range sample_versions 9 Unbounded Unbounded = [\<lparr>vk_key = [2], vk_value = [9]\<rparr>]"
proof -
  have c: "consistent (set sample_versions)"
    by (simp add: consistent_def sample_versions_def)
  have "visible_range sample_versions 9 Unbounded Unbounded = [\<lparr>vk_key = [2], vk_value = [9]\<rparr>]"
    by code_simp
  then show ?thesis using visible_range_meets_spec [OF c, of 9 Unbounded Unbounded 1] c by blast
qed

end
