(* ===== verification/Compaction.thy ===== *)
theory Compaction
  imports Visibility Batch
begin

text \<open>
  Version garbage collection of a compaction: the decisions of \<open>compact_kernel.rs\<close> and the
  batch rewrite \<open>gc_compact_entries\<close> of \<open>merge_kernel.rs\<close>.  A rewrite is shown to change no
  read: at every snapshot at or above the watermark, with any files beside the rewritten
  ones, the visible rows are those of the input.
\<close>

section \<open>Decisions\<close>

definition COMPACT_TARGET_FILE_BYTES :: u64 where
  "COMPACT_TARGET_FILE_BYTES = 256 * 1024 * 1024"

definition compact_should_split_at :: "u64 \<Rightarrow> u64 \<Rightarrow> bool" where
  "compact_should_split_at written_bytes target = (target \<le> written_bytes)"

definition compact_should_split :: "u64 \<Rightarrow> bool" where
  "compact_should_split written_bytes = compact_should_split_at written_bytes COMPACT_TARGET_FILE_BYTES"

datatype compact_plan = Merge (merge_from: u32) (merge_to: u32) | GcRewriteMax | NoOp

fun compact_pick :: "u32 option \<Rightarrow> bool \<Rightarrow> bool \<Rightarrow> u32 \<Rightarrow> compact_plan" where
  "compact_pick (Some l) files_at_max_level gc_requested max_level = Merge l (l + 1)"
| "compact_pick None files_at_max_level gc_requested max_level =
     (if gc_requested \<and> files_at_max_level then GcRewriteMax else NoOp)"

datatype version_fate = Keep | Drop

definition point_version_fate :: "u64 \<Rightarrow> u64 option \<Rightarrow> u64 \<Rightarrow> version_fate" where
  "point_version_fate this_seq newer_kept_seq oldest_snapshot =
     (if oldest_snapshot \<le> this_seq then Keep
      else case newer_kept_seq of
        None \<Rightarrow> Keep
      | Some newer_seq \<Rightarrow> if newer_seq \<le> oldest_snapshot then Drop else Keep)"

definition lone_tombstone_fate :: "bool \<Rightarrow> bool \<Rightarrow> version_fate" where
  "lone_tombstone_fate bottommost lone_newest_tombstone =
     (if bottommost \<and> lone_newest_tombstone then Drop else Keep)"

definition gc_oldest_from_pin :: "u64 option \<Rightarrow> u64 \<Rightarrow> u64 \<Rightarrow> u64" where
  "gc_oldest_from_pin oldest_pin last_seq visible_seq =
     (case oldest_pin of Some p \<Rightarrow> p | None \<Rightarrow> min last_seq visible_seq)"

definition DEFAULT_LETHE_TOMBSTONE_THRESHOLD_PCT :: u64 where
  "DEFAULT_LETHE_TOMBSTONE_THRESHOLD_PCT = 20"

definition sat_mul64 :: "u64 \<Rightarrow> u64 \<Rightarrow> u64" where
  "sat_mul64 a b = (if unat a * unat b < 2 ^ 64 then a * b else - 1)"

definition tombstone_compaction_due :: "u64 \<Rightarrow> u64 \<Rightarrow> u64 \<Rightarrow> bool" where
  "tombstone_compaction_due tombstone_count total_keys threshold_pct =
     (0 < total_keys \<and> sat_mul64 total_keys threshold_pct \<le> sat_mul64 tombstone_count 100)"

record compact_gc_options =
  min_sequence :: u64
  keep_only_latest :: bool
  oldest_snapshot :: "u64 option"
  bottommost :: bool

definition latest_only :: compact_gc_options where
  "latest_only = \<lparr>min_sequence = 0, keep_only_latest = True, oldest_snapshot = None, bottommost = False\<rparr>"

definition for_oldest_snapshot :: "u64 \<Rightarrow> compact_gc_options" where
  "for_oldest_snapshot oldest =
     \<lparr>min_sequence = 0, keep_only_latest = False, oldest_snapshot = Some oldest, bottommost = False\<rparr>"

definition requests_gc :: "compact_gc_options \<Rightarrow> bool" where
  "requests_gc gc \<longleftrightarrow> keep_only_latest gc \<or> 0 < min_sequence gc \<or> oldest_snapshot gc \<noteq> None"

section \<open>The batch rewrite\<close>

text \<open>The walks below split the sorted rows at \<open>iter.peek()\<close> into the run of one user key
  and the rest.\<close>

fun snapshot_keep :: "u64 \<Rightarrow> entry list \<Rightarrow> entry list \<Rightarrow> entry list" where
  "snapshot_keep oldest keep [] = keep"
| "snapshot_keep oldest keep ((ikey, v) # versions) =
     snapshot_keep oldest
       (if batch_is_empty (length keep) then keep @ [(ikey, v)]
        else if point_version_fate (sequence ikey) (Some (sequence (fst (last keep)))) oldest = Drop
        then keep
        else keep @ [(ikey, v)]) versions"

definition gc_snapshot_run :: "u64 \<Rightarrow> bool \<Rightarrow> entry list \<Rightarrow> entry list" where
  "gc_snapshot_run oldest bottom versions =
     (let keep = snapshot_keep oldest [] versions;
          lone_tombstone = length keep = 1 \<and> kind (fst (hd keep)) = Deletion
      in if lone_tombstone_fate bottom lone_tombstone = Drop then [] else keep)"

function gc_snapshot_walk :: "u64 \<Rightarrow> bool \<Rightarrow> entry list \<Rightarrow> entry list \<Rightarrow> entry list" where
  "gc_snapshot_walk oldest bottom [] out = out"
| "gc_snapshot_walk oldest bottom (x # rest) out =
     gc_snapshot_walk oldest bottom (dropWhile (\<lambda>y. user_key (fst y) = user_key (fst x)) rest)
       (out @ gc_snapshot_run oldest bottom
          (x # takeWhile (\<lambda>y. user_key (fst y) = user_key (fst x)) rest))"
  by pat_completeness auto
termination
  by (relation "measure (\<lambda>(oldest, bottom, xs, out). length xs)")
    (auto simp: less_Suc_eq_le length_dropWhile_le)

definition gc_snapshot_safe ::
  "entry list \<Rightarrow> entry list \<Rightarrow> u64 \<Rightarrow> bool \<Rightarrow> entry list" where
  "gc_snapshot_safe m range_dels oldest bottom =
     sort_key fst (gc_snapshot_walk oldest bottom m [] @ range_dels)"

fun latest_keep :: "bool \<Rightarrow> range_tombstone list \<Rightarrow> entry \<Rightarrow> entry list" where
  "latest_keep bottom tombs (ikey, v) =
     (case kind ikey of
        Value \<Rightarrow> if get_live [Value] [range_deleted (user_key ikey) (sequence ikey) tombs]
                 then [(ikey, v)] else []
      | Deletion \<Rightarrow> if \<not> bottom then [(ikey, v)] else []
      | RangeDeletion \<Rightarrow> [])"

function gc_latest_walk ::
  "bool \<Rightarrow> range_tombstone list \<Rightarrow> entry list \<Rightarrow> entry list \<Rightarrow> entry list" where
  "gc_latest_walk bottom tombs [] out = out"
| "gc_latest_walk bottom tombs (x # rest) out =
     gc_latest_walk bottom tombs (dropWhile (\<lambda>y. user_key (fst y) = user_key (fst x)) rest)
       (out @ latest_keep bottom tombs x)"
  by pat_completeness auto
termination
  by (relation "measure (\<lambda>(bottom, tombs, xs, out). length xs)")
    (auto simp: less_Suc_eq_le length_dropWhile_le)

fun gc_gather :: "u64 \<Rightarrow> entry list \<Rightarrow> entry list \<times> entry list \<Rightarrow> entry list \<times> entry list" where
  "gc_gather floor_seq [] acc = acc"
| "gc_gather floor_seq ((ikey, v) # xs) (m, range_dels) =
     gc_gather floor_seq xs
       (if sequence ikey < floor_seq then (m, range_dels)
        else if kind ikey = RangeDeletion then (m, range_dels @ [(ikey, v)])
        else (btree_insert ikey v m, range_dels))"

definition gc_compact_entries :: "entry list \<Rightarrow> compact_gc_options \<Rightarrow> entry list" where
  "gc_compact_entries entries gc =
     (let (m, range_dels) = gc_gather (min_sequence gc) entries ([], [])
      in case oldest_snapshot gc of
           Some oldest \<Rightarrow> gc_snapshot_safe m range_dels oldest (bottommost gc)
         | None \<Rightarrow>
             if \<not> keep_only_latest gc then sort_key fst (m @ range_dels)
             else
               let tombs = map to_tombstone range_dels;
                   out = gc_latest_walk (bottommost gc) tombs m []
               in if bottommost gc then out else sort_key fst (out @ range_dels))"

section \<open>Runs of one user key\<close>

text \<open>Both walks apply a decision to each run of equal user keys.\<close>

function runs :: "entry list \<Rightarrow> entry list list" where
  "runs [] = []"
| "runs (x # xs) =
     (x # takeWhile (\<lambda>y. user_key (fst y) = user_key (fst x)) xs) #
     runs (dropWhile (\<lambda>y. user_key (fst y) = user_key (fst x)) xs)"
  by pat_completeness auto
termination by (relation "measure length") (auto simp: less_Suc_eq_le length_dropWhile_le)

lemma gc_snapshot_walk_runs:
  "gc_snapshot_walk oldest bottom xs out = out @ concat (map (gc_snapshot_run oldest bottom) (runs xs))"
  by (induction oldest bottom xs out rule: gc_snapshot_walk.induct) simp_all

lemma gc_latest_walk_runs:
  "gc_latest_walk bottom tombs xs out = out @ concat (map (\<lambda>r. latest_keep bottom tombs (hd r)) (runs xs))"
  by (induction bottom tombs xs out rule: gc_latest_walk.induct) simp_all

lemma takeWhile_user:
  assumes "sorted (map (\<lambda>y. user_key (fst y)) (x # xs))"
  shows "takeWhile (\<lambda>y. user_key (fst y) = user_key (fst x)) xs =
    filter (\<lambda>y. user_key (fst y) = user_key (fst x)) xs"
  using assms by (induction xs) (force simp: filter_empty_conv eq_commute [of "[]"])+

text \<open>Sorted rows: the rows of one user key in the output are the decision on the rows of
  that key in the input.\<close>

lemma runs_filter:
  assumes "sorted (map (\<lambda>y. user_key (fst y)) xs)"
    and f: "\<And>r. set (f r) \<subseteq> set r" "f [] = []"
  shows "filter (\<lambda>y. user_key (fst y) = u) (concat (map f (runs xs))) =
    f (filter (\<lambda>y. user_key (fst y) = u) xs)"
  using assms(1)
proof (induction xs rule: runs.induct)
  case (2 x xs)
  let ?same = "\<lambda>y. user_key (fst y) = user_key (fst x)"
  have split: "xs = filter ?same xs @ dropWhile ?same xs"
    using takeWhile_user [OF 2(2)] takeWhile_dropWhile_id [of ?same xs] by simp
  have rest: "filter (\<lambda>y. user_key (fst y) = u) xs =
      filter (\<lambda>y. user_key (fst y) = u) (filter ?same xs) @
      filter (\<lambda>y. user_key (fst y) = u) (dropWhile ?same xs)" for u
    unfolding filter_append [symmetric] split [symmetric] ..
  have "sorted (map (\<lambda>y. user_key (fst y)) (filter ?same xs @ dropWhile ?same xs))"
    unfolding split [symmetric] using 2(2) by simp
  then have "sorted (map (\<lambda>y. user_key (fst y)) (dropWhile ?same xs))" by (simp add: sorted_append)
  note IH = 2(1) [OF this]
  have run: "\<forall>y \<in> set (f (x # filter ?same xs)). user_key (fst y) = user_key (fst x)"
    using f(1) [of "x # filter ?same xs"] by auto
  show ?case
  proof (cases "user_key (fst x) = u")
    case True
    then have u: "u = user_key (fst x)" by (rule sym)
    have "filter ?same (dropWhile ?same xs) = []"
      using rest [of "user_key (fst x)"] by (simp only: filter_filter conj_absorb self_append_conv)
    then have "filter ?same (concat (map f (runs (dropWhile ?same xs)))) = []"
      using IH by (simp only: u f(2))
    moreover have "filter ?same (f (x # filter ?same xs)) = f (x # filter ?same xs)"
      using run by (blast intro: filter_True)
    ultimately show ?thesis unfolding u runs.simps takeWhile_user [OF 2(2)] by simp
  next
    case False
    have "filter (\<lambda>y. user_key (fst y) = u) (filter ?same xs) = []"
      using False by (auto simp: filter_empty_conv)
    then have "filter (\<lambda>y. user_key (fst y) = u) xs =
        filter (\<lambda>y. user_key (fst y) = u) (dropWhile ?same xs)"
      using rest [of u] by (simp only: append_Nil)
    moreover have "filter (\<lambda>y. user_key (fst y) = u) (f (x # filter ?same xs)) = []"
      using False run unfolding filter_empty_conv by metis
    ultimately show ?thesis using False IH takeWhile_user [OF 2(2)] by simp
  qed
qed (simp add: f)

section \<open>What a rewrite may drop\<close>

text \<open>Retention among the versions of a user key: what is dropped has a kept newer sibling
  that every snapshot from the watermark on sees.\<close>

definition retains :: "u64 \<Rightarrow> entry set \<Rightarrow> entry set \<Rightarrow> bool" where
  "retains S K V \<longleftrightarrow> K \<subseteq> V \<and>
     (\<forall>x \<in> V. x \<notin> K \<longrightarrow> (\<exists>z \<in> K. fst z < fst x \<and> sequence (fst z) \<le> S))"

lemma retains_mono: "retains oldest K V \<Longrightarrow> oldest \<le> S \<Longrightarrow> retains S K V"
  unfolding retains_def by (meson order_trans)

lemma retains_insert:
  "\<lbrakk>retains S K V; z \<in> K; fst z < fst x; sequence (fst z) \<le> S\<rbrakk> \<Longrightarrow> retains S K (insert x V)"
  unfolding retains_def by blast

lemma snapshot_keep_retains:
  assumes "sorted_wrt (<) (map fst (keep @ vs))"
  shows "set keep \<subseteq> set (snapshot_keep oldest keep vs) \<and>
    retains oldest (set (snapshot_keep oldest keep vs)) (set keep \<union> set vs)"
  using assms
proof (induction oldest keep vs rule: snapshot_keep.induct)
  case (1 oldest keep)
  then show ?case by (simp add: retains_def)
next
  case (2 oldest keep ik v vs)
  let ?keep = "if batch_is_empty (length keep) then keep @ [(ik, v)]
    else if point_version_fate (sequence ik) (Some (sequence (fst (last keep)))) oldest = Drop
    then keep else keep @ [(ik, v)]"
  show ?case
  proof (cases "keep \<noteq> [] \<and> point_version_fate (sequence ik) (Some (sequence (fst (last keep)))) oldest = Drop")
    case True
    then have last: "sequence (fst (last keep)) \<le> oldest" "last keep \<in> set keep"
      by (auto simp: point_version_fate_def split: if_splits)
    with 2(2) have newer: "fst (last keep) < ik" by (simp add: sorted_wrt_append)
    from True have keep: "?keep = keep" by (simp add: batch_is_empty_def)
    have "sorted_wrt (<) (map fst (keep @ vs))" using 2(2) by (simp add: sorted_wrt_append)
    then have IH: "set keep \<subseteq> set (snapshot_keep oldest keep vs)"
        "retains oldest (set (snapshot_keep oldest keep vs)) (set keep \<union> set vs)"
      using 2(1) unfolding keep by blast+
    have "last keep \<in> set (snapshot_keep oldest keep vs)" using IH(1) last(2) by blast
    from retains_insert [OF IH(2) this, of "(ik, v)"] show ?thesis
      unfolding snapshot_keep.simps keep using IH(1) last(1) newer by simp
  next
    case False
    then have keep: "?keep = keep @ [(ik, v)]" by (auto simp: batch_is_empty_def)
    have "sorted_wrt (<) (map fst ((keep @ [(ik, v)]) @ vs))" using 2(2) by simp
    then show ?thesis using 2(1) unfolding snapshot_keep.simps keep by simp
  qed
qed

lemma snapshot_keep_hd:
  "vs \<noteq> [] \<Longrightarrow> \<exists>ks. snapshot_keep oldest [] vs = hd vs # ks"
proof -
  have "\<exists>ks. snapshot_keep oldest (k # keep) vs = k # ks" for k keep vs
    by (induction vs arbitrary: keep) (auto simp: batch_is_empty_def)
  then show "vs \<noteq> [] \<Longrightarrow> \<exists>ks. snapshot_keep oldest [] vs = hd vs # ks"
    by (cases vs) (auto simp: batch_is_empty_def)
qed

text \<open>A rewrite of the versions of one user key is safe for a snapshot when it keeps the
  version the snapshot reads, or when that version is a tombstone and nothing is left.\<close>

definition newest_of :: "entry set \<Rightarrow> u64 \<Rightarrow> entry \<Rightarrow> bool" where
  "newest_of V S x \<longleftrightarrow> x \<in> V \<and> sequence (fst x) \<le> S \<and> (\<forall>y \<in> V. sequence (fst y) \<le> S \<longrightarrow> fst x \<le> fst y)"

lemma gc_snapshot_run_meets:
  assumes "sorted_wrt (<) (map fst vs)" "oldest \<le> S"
  shows "retains S (set (gc_snapshot_run oldest bottom vs)) (set vs) \<or>
     bottom \<and> gc_snapshot_run oldest bottom vs = [] \<and>
       (\<forall>x. newest_of (set vs) S x \<longrightarrow> kind (fst x) = Deletion)"
proof (cases "vs = []")
  case False
  let ?k = "snapshot_keep oldest [] vs"
  obtain ks where ks: "?k = hd vs # ks" using snapshot_keep_hd [OF False] by blast
  have "retains oldest (set ?k) (set vs)"
    using snapshot_keep_retains [of "[]" vs oldest] assms(1) by simp
  then have meets: "retains S (set ?k) (set vs)" using assms(2) by (rule retains_mono)
  show ?thesis
  proof (cases "bottom \<and> length ?k = 1 \<and> kind (fst (hd ?k)) = Deletion")
    case True
    then have k: "?k = [hd vs]" using ks by (cases ks) auto
    have "x = hd vs" if x: "newest_of (set vs) S x" for x
    proof (rule ccontr)
      assume "x \<noteq> hd vs"
      with x meets k have "fst (hd vs) < fst x" "sequence (fst (hd vs)) \<le> S"
        by (auto simp: newest_of_def retains_def)
      with x show False using hd_in_set [OF False] by (auto simp: newest_of_def)
    qed
    with True k show ?thesis
      by (auto simp: gc_snapshot_run_def lone_tombstone_fate_def)
  next
    case nondrop: False
    have "gc_snapshot_run oldest bottom vs = ?k"
      using nondrop by (auto simp: gc_snapshot_run_def lone_tombstone_fate_def Let_def)
    then show ?thesis using meets by simp
  qed
qed (simp add: gc_snapshot_run_def lone_tombstone_fate_def retains_def)

lemma gc_gather_eq:
  "gc_gather floor_seq es (m, dels) =
     (btree_extend m (filter (\<lambda>x. floor_seq \<le> sequence (fst x) \<and> kind (fst x) \<noteq> RangeDeletion) es),
      dels @ filter (\<lambda>x. floor_seq \<le> sequence (fst x) \<and> kind (fst x) = RangeDeletion) es)"
  by (induction es arbitrary: m dels) (auto simp: not_less)

section \<open>Reads are unchanged\<close>

lemma newest_retained:
  assumes sub: "\<And>x. candidate E' S u x \<Longrightarrow> candidate E S u x"
    and newer: "\<And>x. candidate E S u x \<Longrightarrow> \<not> candidate E' S u x \<Longrightarrow>
      \<exists>z. candidate E' S u z \<and> fst z < fst x"
  shows "newest E' S u x \<longleftrightarrow> newest E S u x"
proof
  assume n: "newest E' S u x"
  have "fst x \<le> fst y" if y: "candidate E S u y" for y
  proof (cases "candidate E' S u y")
    case False
    with newer [OF y] obtain z where "candidate E' S u z" "fst z < fst y" by blast
    moreover from this n have "fst x \<le> fst z" unfolding newest_def by blast
    ultimately show ?thesis by simp
  next
    case True
    with n show ?thesis unfolding newest_def by blast
  qed
  with n sub show "newest E S u x" by (simp add: newest_def)
next
  assume n: "newest E S u x"
  have "candidate E' S u x"
  proof (rule ccontr)
    assume "\<not> candidate E' S u x"
    with newer n obtain z where "candidate E' S u z" "fst z < fst x" unfolding newest_def by blast
    with n sub show False unfolding newest_def by (meson leD)
  qed
  with n sub show "newest E' S u x" unfolding newest_def by blast
qed

text \<open>Two sets of versions read alike at a snapshot when one arises from the other by
  retention on the versions of the user key, or by clearing a key whose newest version is
  a deletion, with only newer versions elsewhere.\<close>

lemma visible_retained:
  assumes old: "\<And>x. candidate E S u x \<longleftrightarrow> x \<in> V \<and> sequence (fst x) \<le> S \<or> x \<in> C"
    and new: "\<And>x. candidate E' S u x \<longleftrightarrow> x \<in> K \<and> sequence (fst x) \<le> S \<or> x \<in> C"
    and hidden: "\<And>s. hidden E' S u s = hidden E S u s"
    and keep: "retains S K V \<or> K = {} \<and> (\<forall>x. newest_of V S x \<longrightarrow> kind (fst x) = Deletion) \<and>
      (\<forall>b \<in> C. \<forall>a \<in> V. fst b < fst a)"
  shows "visible_spec E' S u v \<longleftrightarrow> visible_spec E S u v"
proof (cases "retains S K V \<or> C \<noteq> {}")
  case True
  have "newest E' S u x \<longleftrightarrow> newest E S u x" for x
  proof (rule newest_retained, unfold old new)
    show "y \<in> V \<and> sequence (fst y) \<le> S \<or> y \<in> C" if "y \<in> K \<and> sequence (fst y) \<le> S \<or> y \<in> C" for y
      using that keep unfolding retains_def by blast
    show "\<exists>z. (z \<in> K \<and> sequence (fst z) \<le> S \<or> z \<in> C) \<and> fst z < fst y"
      if "y \<in> V \<and> sequence (fst y) \<le> S \<or> y \<in> C" "\<not> (y \<in> K \<and> sequence (fst y) \<le> S \<or> y \<in> C)" for y
      using that keep True unfolding retains_def by blast
  qed
  then show ?thesis by (simp add: visible_spec_def hidden)
next
  case False
  with keep have "newest E S u x \<longleftrightarrow> newest_of V S x" "\<not> newest E' S u x" for x
    by (auto simp: newest_def old new newest_of_def)
  with keep False show ?thesis by (auto simp: visible_spec_def)
qed

text \<open>The point rows and the tombstones of the output of a snapshot-safe rewrite.\<close>

lemma gc_rows:
  assumes "consistent (set es)"
    and g: "gc_gather floor_seq es ([], []) = (m, dels)"
  shows "btree_ok m \<and>
    set m = {x \<in> set es. floor_seq \<le> sequence (fst x) \<and> kind (fst x) \<noteq> RangeDeletion} \<and>
    dels = filter (\<lambda>x. floor_seq \<le> sequence (fst x) \<and> kind (fst x) = RangeDeletion) es"
proof -
  let ?P = "\<lambda>x. floor_seq \<le> sequence (fst x) \<and> kind (fst x) \<noteq> RangeDeletion"
  have "inj_on fst (set (filter ?P es))"
    using assms(1) unfolding consistent_def by (rule inj_on_subset) auto
  then show ?thesis using btree_extend_rows [of "[]" "filter ?P es"] g
    by (auto simp: gc_gather_eq btree_ok_def)
qed

lemma btree_ok_user_sorted: "btree_ok m \<Longrightarrow> sorted (map (\<lambda>y. user_key (fst y)) m)"
  unfolding btree_ok_def sorted_map sorted_wrt_map
  by (erule sorted_wrt_mono_rel [rotated]) (auto intro: ikey_le_user_key less_imp_le)

lemma gc_snapshot_run_subset: "set (gc_snapshot_run oldest bottom vs) \<subseteq> set vs"
proof -
  have "set (snapshot_keep oldest keep vs) \<subseteq> set keep \<union> set vs" for keep
    by (induction oldest keep vs rule: snapshot_keep.induct) (auto split: if_splits)
  from this [of "[]"] show ?thesis by (simp add: gc_snapshot_run_def Let_def)
qed

lemma gc_snapshot_rows:
  assumes "btree_ok m"
  shows "x \<in> set (gc_snapshot_walk oldest bottom m []) \<longleftrightarrow>
    x \<in> set (gc_snapshot_run oldest bottom (filter (\<lambda>y. user_key (fst y) = user_key (fst x)) m))"
proof -
  have "filter (\<lambda>y. user_key (fst y) = user_key (fst x)) (gc_snapshot_walk oldest bottom m []) =
      gc_snapshot_run oldest bottom (filter (\<lambda>y. user_key (fst y) = user_key (fst x)) m)"
    unfolding gc_snapshot_walk_runs append_Nil
    using btree_ok_user_sorted [OF assms] gc_snapshot_run_subset
    by (rule runs_filter) (simp add: gc_snapshot_run_def lone_tombstone_fate_def)
  from arg_cong [OF this, of set] show ?thesis by auto
qed

text \<open>C2. A snapshot-safe rewrite changes no read.  For every snapshot at or above the
  watermark and whatever other versions \<open>B\<close> live beside the rewritten files, a key reads the
  same value before and after the rewrite.  For a bottommost rewrite, which also drops lone
  tombstones, the point versions beside it are the newer ones (no file lies below).\<close>

theorem snapshot_gc_keeps_reads:
  assumes "consistent (set A)" "oldest \<le> S"
    and "bottom \<longrightarrow> (\<forall>a \<in> set A. \<forall>b \<in> B. user_key (fst b) = user_key (fst a) \<longrightarrow>
      kind (fst b) \<noteq> RangeDeletion \<longrightarrow> sequence (fst a) < sequence (fst b))"
  shows "visible_spec (set (gc_compact_entries A (for_oldest_snapshot oldest\<lparr>bottommost := bottom\<rparr>)) \<union> B) S u v
    \<longleftrightarrow> visible_spec (set A \<union> B) S u v"
proof -
  obtain m dels where g: "gc_gather 0 A ([], []) = (m, dels)" by fastforce
  note rows = gc_rows [OF assms(1) g]
  let ?out = "gc_compact_entries A (for_oldest_snapshot oldest\<lparr>bottommost := bottom\<rparr>)"
  let ?V = "filter (\<lambda>y. user_key (fst y) = u) m"
  let ?K = "gc_snapshot_run oldest bottom ?V"
  let ?C = "{x. candidate B S u x}"
  have out: "set ?out = set (gc_snapshot_walk oldest bottom m []) \<union> set dels"
    by (simp add: gc_compact_entries_def for_oldest_snapshot_def g gc_snapshot_safe_def)
  have sorted: "sorted_wrt (<) (map fst ?V)"
    using rows by (simp add: btree_ok_def sorted_wrt_map sorted_wrt_filter)
  have walk: "x \<in> set (gc_snapshot_walk oldest bottom m []) \<Longrightarrow> kind (fst x) \<noteq> RangeDeletion" for x
    using rows gc_snapshot_rows [of m x oldest bottom] gc_snapshot_run_subset by fastforce
  have below: "fst b < fst a" if "bottom" "b \<in> ?C" "a \<in> set ?V" for a b
  proof -
    have "user_key (fst b) = user_key (fst a)" "sequence (fst a) < sequence (fst b)"
      using that assms(3) rows by (auto simp: candidate_def)
    then show ?thesis by (simp add: ikey_less_iff)
  qed
  show ?thesis
  proof (rule visible_retained [where V = "set ?V" and K = "set ?K" and C = ?C])
    show "candidate (set A \<union> B) S u x \<longleftrightarrow> x \<in> set ?V \<and> sequence (fst x) \<le> S \<or> x \<in> ?C" for x
      using rows by (auto simp: candidate_def)
    show "candidate (set ?out \<union> B) S u x \<longleftrightarrow> x \<in> set ?K \<and> sequence (fst x) \<le> S \<or> x \<in> ?C" for x
      using rows walk gc_snapshot_rows [of m x oldest bottom] gc_snapshot_run_subset [of oldest bottom ?V]
      by (auto simp: candidate_def out)
    show "hidden (set ?out \<union> B) S u s = hidden (set A \<union> B) S u s" for s
      using rows walk unfolding hidden_def out by auto
    show "retains S (set ?K) (set ?V) \<or> set ?K = {} \<and>
        (\<forall>x. newest_of (set ?V) S x \<longrightarrow> kind (fst x) = Deletion) \<and> (\<forall>b \<in> ?C. \<forall>a \<in> set ?V. fst b < fst a)"
      using gc_snapshot_run_meets [OF sorted assms(2), of bottom] below set_empty by blast
  qed
qed

lemma snapshot_gc_keeps_reads_witness:
  "consistent (set sample_versions) \<and> (3 :: u64) \<le> 4 \<and>
   gc_compact_entries sample_versions (for_oldest_snapshot 3\<lparr>bottommost := True\<rparr>) \<noteq> sample_versions \<and>
   (visible_spec (set (gc_compact_entries sample_versions (for_oldest_snapshot 3\<lparr>bottommost := True\<rparr>)) \<union>
      {(InternalKey [2] 9 Value, [5])}) 4 [2] [9] \<longleftrightarrow>
    visible_spec (set sample_versions \<union> {(InternalKey [2] 9 Value, [5])}) 4 [2] [9])"
proof -
  have c: "consistent (set sample_versions)"
    by (simp add: consistent_def sample_versions_def)
  have "gc_compact_entries sample_versions (for_oldest_snapshot 3\<lparr>bottommost := True\<rparr>) \<noteq> sample_versions"
    by code_simp
  moreover have b: "True \<longrightarrow> (\<forall>a \<in> set sample_versions. \<forall>b \<in> {(InternalKey [2] 9 Value, [5 :: byte])}.
      user_key (fst b) = user_key (fst a) \<longrightarrow>
      kind (fst b) \<noteq> RangeDeletion \<longrightarrow> sequence (fst a) < sequence (fst b))"
    by (simp add: sample_versions_def)
  ultimately show ?thesis using snapshot_gc_keeps_reads [OF c _ b, of 3 4 "[2]" "[9]"] c by simp
qed

section \<open>The latest-only rewrite\<close>

lemma gc_latest_rows:
  assumes "btree_ok m"
  shows "x \<in> set (gc_latest_walk bottom tombs m []) \<longleftrightarrow> run_head m x \<and> x \<in> set (latest_keep bottom tombs x)"
proof -
  have "x \<in> set (concat (map (\<lambda>r. latest_keep bottom tombs (hd r)) (runs m))) \<longleftrightarrow>
      run_head m x \<and> x \<in> set (latest_keep bottom tombs x)"
    using assms
  proof (induction m rule: runs.induct)
    case (2 y m)
    obtain ik v where y: "y = (ik, v)" by fastforce
    note ok = 2(2) [unfolded y]
    have keep: "x \<in> set (latest_keep bottom tombs y) \<longleftrightarrow> x = y \<and> x \<in> set (latest_keep bottom tombs x)"
      by (cases x; cases y) (auto split: value_type.splits if_splits)
    show ?case using 2(1) dropWhile_user [OF ok] run_head_Cons [OF ok, of x] keep by (auto simp: y)
  qed (simp add: run_head_def)
  then show ?thesis by (simp add: gc_latest_walk_runs)
qed

lemma newest_exists:
  assumes "finite es" "candidate es S u y"
  shows "\<exists>h. newest es S u h \<and> fst h \<le> fst y"
proof -
  let ?K = "fst ` {x. candidate es S u x}"
  have fin: "finite ?K"
    by (rule finite_imageI, rule finite_subset [OF _ assms(1)]) (auto simp: candidate_def)
  have "Min ?K \<in> ?K" using fin assms(2) by (intro Min_in) blast+
  then obtain h where "candidate es S u h" "fst h = Min ?K" by auto
  moreover have "Min ?K \<le> fst x" if "candidate es S u x" for x
    using fin that by (intro Min_le) auto
  ultimately show ?thesis using assms(2) unfolding newest_def by metis
qed

lemma hidden_mono: "hidden es S u s \<Longrightarrow> s' \<le> s \<Longrightarrow> hidden es S u s'"
  unfolding hidden_def by (meson le_less_trans)

lemma hidden_Un: "hidden (X \<union> Y) S u s \<longleftrightarrow> hidden X S u s \<or> hidden Y S u s"
  unfolding hidden_def by blast

text \<open>The point row a latest-only rewrite keeps for a key: the newest one, if it is a live
  value, or a deletion that is not at the bottom.\<close>

lemma latest_gc_candidates:
  fixes A :: "entry list" and bottom :: bool
  assumes "consistent (set A)" "\<forall>a \<in> set A. sequence (fst a) \<le> S"
  defines "out \<equiv> gc_compact_entries A (latest_only\<lparr>bottommost := bottom\<rparr>)"
  shows "candidate (set out) S u x \<longleftrightarrow> newest (set A) S u x \<and>
      (kind (fst x) = Value \<and> \<not> hidden (set A) S u (sequence (fst x)) \<or> kind (fst x) = Deletion \<and> \<not> bottom)"
    and "hidden (set out) S u s \<longleftrightarrow> \<not> bottom \<and> hidden (set A) S u s"
proof -
  obtain m dels where g: "gc_gather 0 A ([], []) = (m, dels)" by fastforce
  note rows = gc_rows [OF assms(1) g, simplified]
  let ?tombs = "map to_tombstone dels"
  have tombs: "set ?tombs = set (collect_range_tombstones A S)"
    using rows assms(2) by (auto simp: set_collect_range_tombstones)
  have out: "set out = set (gc_latest_walk bottom ?tombs m []) \<union> (if bottom then {} else set dels)"
    by (simp add: out_def gc_compact_entries_def latest_only_def g)
  have del: "range_deleted w s ?tombs \<longleftrightarrow> hidden (set A) S w s" for w s
    using tombs by (simp add: range_deleted_iff [symmetric]) (simp add: range_deleted_def list_ex_iff)
  have head: "run_head m x \<and> user_key (fst x) = u \<longleftrightarrow> newest (set A) S u x" for x
    using assms(2) unfolding run_head_def newest_def candidate_def conjunct1 [OF conjunct2 [OF rows]]
    by (auto simp del: split_paired_All)
  have walk: "x \<in> set (gc_latest_walk bottom ?tombs m []) \<longleftrightarrow> run_head m x \<and>
      (kind (fst x) = Value \<and> \<not> hidden (set A) S (user_key (fst x)) (sequence (fst x)) \<or>
       kind (fst x) = Deletion \<and> \<not> bottom)" for x
    unfolding gc_latest_rows [OF conjunct1 [OF rows]]
    by (cases x) (auto simp: get_live_single del split: value_type.splits)
  have mem: "x \<in> set out \<longleftrightarrow> (run_head m x \<and>
      (kind (fst x) = Value \<and> \<not> hidden (set A) S (user_key (fst x)) (sequence (fst x)) \<or>
       kind (fst x) = Deletion \<and> \<not> bottom)) \<or> \<not> bottom \<and> x \<in> set A \<and> kind (fst x) = RangeDeletion" for x
    using rows unfolding out Un_iff walk by auto
  have point: "run_head m x \<Longrightarrow> x \<in> set A \<and> kind (fst x) \<noteq> RangeDeletion" for x
    using rows by (simp add: run_head_def)
  show "candidate (set out) S u x \<longleftrightarrow> newest (set A) S u x \<and>
      (kind (fst x) = Value \<and> \<not> hidden (set A) S u (sequence (fst x)) \<or> kind (fst x) = Deletion \<and> \<not> bottom)"
    using assms(2) point unfolding head [symmetric] candidate_def mem by blast
  show "hidden (set out) S u s \<longleftrightarrow> \<not> bottom \<and> hidden (set A) S u s"
    using point mem unfolding hidden_def by blast
qed

lemma candidate_Un: "candidate (X \<union> Y) S u x \<longleftrightarrow> candidate X S u x \<or> candidate Y S u x"
  unfolding candidate_def by blast

lemma candidates_ordered:
  assumes "candidate X S u a" "candidate Y S u b"
  shows "fst b < fst a \<or> sequence (fst b) \<le> sequence (fst a)"
  using assms by (auto simp: candidate_def ikey_less_iff not_less)

text \<open>A live row after the rewrite stands before every rewritten point version.\<close>

lemma latest_gc_below:
  assumes "consistent (set A)" "\<forall>a \<in> set A. sequence (fst a) \<le> S"
    and "bottom \<longrightarrow> (\<forall>a \<in> set A. \<forall>b \<in> B. sequence (fst a) < sequence (fst b))"
  defines "out \<equiv> set (gc_compact_entries A (latest_only\<lparr>bottommost := bottom\<rparr>)) \<union> B"
  assumes x: "newest out S u x" "\<not> hidden out S u (sequence (fst x))"
    and y: "candidate (set A) S u y"
  shows "fst x \<le> fst y"
proof -
  let ?kept = "\<lambda>x. newest (set A) S u x \<and>
      (kind (fst x) = Value \<and> \<not> hidden (set A) S u (sequence (fst x)) \<or> kind (fst x) = Deletion \<and> \<not> bottom)"
  note kept = latest_gc_candidates [OF assms(1,2), of bottom u]
  have cand: "candidate out S u z \<longleftrightarrow> ?kept z \<or> candidate B S u z" for z
    unfolding out_def candidate_Un kept ..
  obtain h where h: "newest (set A) S u h" "fst h \<le> fst y"
    using newest_exists [OF finite_set y] by blast
  then have hA: "candidate (set A) S u h" by (simp add: newest_def)
  consider "?kept x" | "?kept h" | "candidate B S u x" "\<not> ?kept h"
    using x(1) cand unfolding newest_def [of out] by blast
  then show ?thesis
  proof cases
    case 1
    then show ?thesis using y unfolding newest_def by blast
  next
    case 2
    then have "fst x \<le> fst h" using x(1) cand unfolding newest_def [of out] by blast
    then show ?thesis using h(2) by simp
  next
    case 3
    have "kind (fst h) \<noteq> RangeDeletion" using hA by (simp add: candidate_def)
    then have "bottom \<or> hidden (set A) S u (sequence (fst h))"
      using 3(2) h(1) by (cases "kind (fst h)") auto
    moreover have "bottom \<Longrightarrow> fst x < fst h"
      using hA 3(1) assms(3) by (auto simp: candidate_def ikey_less_iff simp del: split_paired_All)
    ultimately have "fst x < fst h"
      using candidates_ordered [OF hA 3(1)] x(2) hidden_mono unfolding out_def hidden_Un kept by blast
    then show ?thesis using h(2) by simp
  qed
qed

text \<open>C15. A latest-only rewrite changes no read at a snapshot that sees every rewritten
  version.  Beside a partial rewrite any versions may live; beside a bottommost rewrite,
  which drops deletions and range tombstones, all versions are newer.\<close>

theorem latest_gc_keeps_reads:
  assumes "consistent (set A)" "\<forall>a \<in> set A. sequence (fst a) \<le> S"
    and "bottom \<longrightarrow> (\<forall>a \<in> set A. \<forall>b \<in> B. sequence (fst a) < sequence (fst b))"
  shows "visible_spec (set (gc_compact_entries A (latest_only\<lparr>bottommost := bottom\<rparr>)) \<union> B) S u v
    \<longleftrightarrow> visible_spec (set A \<union> B) S u v"
proof -
  let ?out = "gc_compact_entries A (latest_only\<lparr>bottommost := bottom\<rparr>)"
  note kept = latest_gc_candidates [OF assms(1,2), of bottom u]
  have above: "\<not> hidden (set A) S u (sequence (fst b))" if bottom "candidate B S u b" for b
    using that assms(3) unfolding hidden_def candidate_def by (meson less_asym)
  have "newest (set ?out \<union> B) S u x \<and> kind (fst x) = Value \<and> \<not> hidden (set ?out \<union> B) S u (sequence (fst x)) \<longleftrightarrow>
      newest (set A \<union> B) S u x \<and> kind (fst x) = Value \<and> \<not> hidden (set A \<union> B) S u (sequence (fst x))"
    (is "?new x \<longleftrightarrow> ?old x") for x
  proof
    assume n: "?new x"
    then have "\<not> hidden (set A) S u (sequence (fst x))"
      using above unfolding newest_def candidate_Un kept hidden_Un by (metis value_type.distinct(1))
    with n latest_gc_below [OF assms, of u x] show "?old x"
      unfolding newest_def candidate_Un kept hidden_Un by blast
  next
    assume "?old x"
    then show "?new x" unfolding newest_def candidate_Un kept hidden_Un by blast
  qed
  from this [of "(_, v)"] show ?thesis by (simp add: visible_spec_def)
qed

lemma latest_gc_keeps_reads_witness:
  "consistent (set sample_versions) \<and> list_all (\<lambda>a. sequence (fst a) \<le> 7) sample_versions \<and>
   length (gc_compact_entries sample_versions (latest_only\<lparr>bottommost := True\<rparr>)) = 1 \<and>
   (visible_spec (set (gc_compact_entries sample_versions (latest_only\<lparr>bottommost := True\<rparr>)) \<union>
      {(InternalKey [4] 6 Value, [5])}) 7 [2] [9] \<longleftrightarrow>
    visible_spec (set sample_versions \<union> {(InternalKey [4] 6 Value, [5])}) 7 [2] [9])"
proof -
  have c: "consistent (set sample_versions)" and s: "\<forall>a \<in> set sample_versions. sequence (fst a) \<le> 7"
    by (simp_all add: consistent_def sample_versions_def)
  have "length (gc_compact_entries sample_versions (latest_only\<lparr>bottommost := True\<rparr>)) = 1"
    by code_simp
  moreover have b: "True \<longrightarrow> (\<forall>a \<in> set sample_versions. \<forall>b \<in> {(InternalKey [4] 6 Value, [5 :: byte])}.
      sequence (fst a) < sequence (fst b))"
    by (simp add: sample_versions_def)
  ultimately show ?thesis using latest_gc_keeps_reads [OF c s b, of "[2]" "[9]"] c s by (simp add: list_all_iff)
qed

end
