(* ===== verification/Compact_Merge.thy ===== *)
theory Compact_Merge
  imports Compaction "HOL-Library.Multiset"
begin

text \<open>
  The streaming compaction of \<open>merge_kernel.rs\<close>: the k-way merge of sorted sources with its
  binary heap of heads, and the version collector that closes one user key's run at a time.
  A source is the list of the outcomes of its \<open>next_entry\<close>, errors included.  Draining the
  collector is shown to terminate, not to panic, and to produce the rows of the batch rewrite,
  copies of a row in several sources included.
\<close>

section \<open>Sources and the k-way merge\<close>

type_synonym 'e source = "('e, entry) result list"

fun source_next :: "'e source \<Rightarrow> ('e, entry option) result \<times> 'e source" where
  "source_next [] = (Inr None, [])"
| "source_next (Inl e # s) = (Inl e, s)"
| "source_next (Inr x # s) = (Inr (Some x), s)"

record merge_head =
  mh_key :: internal_key
  mh_value :: bytes
  mh_src :: nat

text \<open>The reversed order of \<open>Ord for MergeHead\<close>: the greatest head has the least key, ties
  broken by the least source.\<close>

definition merge_head_cmp :: "merge_head \<Rightarrow> merge_head \<Rightarrow> ordering" where
  "merge_head_cmp a b =
     (case ikey_cmp (mh_key b) (mh_key a) of
        Equal \<Rightarrow> cmp_ord (mh_src b) (mh_src a)
      | c \<Rightarrow> c)"

text \<open>\<open>BinaryHeap::pop\<close> removes the greatest element.\<close>

fun heap_pop_max :: "merge_head list \<Rightarrow> (merge_head \<times> merge_head list) option" where
  "heap_pop_max [] = None"
| "heap_pop_max (h # hs) =
     (case heap_pop_max hs of
        None \<Rightarrow> Some (h, [])
      | Some (g, gs) \<Rightarrow> if merge_head_cmp h g = Less then Some (g, h # gs) else Some (h, hs))"

record 'e kway =
  kw_streams :: "'e source list"
  kw_heap :: "merge_head list"
  kw_last :: "internal_key option"

fun seed_heads ::
  "nat \<Rightarrow> 'e source list \<Rightarrow> ('e, merge_head list \<times> 'e source list) result" where
  "seed_heads src [] = Inr ([], [])"
| "seed_heads src (s # ss) =
     (case source_next s of
        (Inl e, s') \<Rightarrow> Inl e
      | (Inr None, s') \<Rightarrow> bind_r (seed_heads (src + 1) ss) (\<lambda>(hs, ss'). Inr (hs, s' # ss'))
      | (Inr (Some (k, v)), s') \<Rightarrow>
          bind_r (seed_heads (src + 1) ss)
            (\<lambda>(hs, ss'). Inr (\<lparr>mh_key = k, mh_value = v, mh_src = src\<rparr> # hs, s' # ss')))"

definition from_streams :: "'e source list \<Rightarrow> ('e, 'e kway) result" where
  "from_streams streams =
     bind_r (seed_heads 0 streams)
       (\<lambda>(hs, ss). Inr \<lparr>kw_streams = ss, kw_heap = hs, kw_last = None\<rparr>)"

definition kw_measure :: "'e kway \<Rightarrow> nat" where
  "kw_measure k = sum_list (map length (kw_streams k)) + length (kw_heap k)"

lemma heap_pop_max_None [simp]: "heap_pop_max hs = None \<longleftrightarrow> hs = []"
  by (induction hs) (auto split: option.splits)

lemma heap_pop_max_length: "heap_pop_max hs = Some (g, gs) \<Longrightarrow> length hs = Suc (length gs)"
  by (induction hs arbitrary: g gs) (auto split: option.splits if_splits)

lemma source_next_length:
  "source_next s = (Inr (Some x), s') \<Longrightarrow> length s = Suc (length s')"
  "source_next s = (Inr None, s') \<Longrightarrow> s = [] \<and> s' = []"
  "source_next s = (Inl e, s') \<Longrightarrow> length s = Suc (length s')"
  by (induction s rule: source_next.induct) auto

text \<open>The state after a head has been replaced by the next entry of its source.  Indexing a
  source that does not exist panics.\<close>

definition kw_advance :: "'e kway \<Rightarrow> merge_head \<Rightarrow> merge_head list \<Rightarrow> (('e, 'e kway) result \<times> 'e kway) option" where
  "kw_advance k head hs =
     (if mh_src head < length (kw_streams k) then
        let (r, s') = source_next (kw_streams k ! mh_src head);
            k' = k\<lparr>kw_heap := hs, kw_streams := (kw_streams k)[mh_src head := s']\<rparr>
        in case r of
             Inl e \<Rightarrow> Some (Inl e, k')
           | Inr None \<Rightarrow> Some (Inr k', k')
           | Inr (Some (key, v)) \<Rightarrow>
               let k'' = k'\<lparr>kw_heap := \<lparr>mh_key = key, mh_value = v, mh_src = mh_src head\<rparr> # hs\<rparr>
               in Some (Inr k'', k'')
      else None)"

lemma kw_advance_measure:
  assumes "heap_pop_max (kw_heap k) = Some (head, hs)" "kw_advance k head hs = Some (Inr k', k'')"
  shows "kw_measure k' < kw_measure k"
proof -
  obtain r s' where s: "source_next (kw_streams k ! mh_src head) = (r, s')" by fastforce
  have "mh_src head < length (kw_streams k)" using assms(2) by (auto simp: kw_advance_def split: if_splits)
  from sum_length_update [OF this, of s'] show ?thesis
    using assms(2) heap_pop_max_length [OF assms(1)] s
    by (auto simp: kw_advance_def kw_measure_def Let_def dest!: source_next_length
        split: if_splits sum.splits option.splits)
qed

function kway_next :: "'e kway \<Rightarrow> (('e, entry option) result \<times> 'e kway) option" where
  "kway_next k =
     (case heap_pop_max (kw_heap k) of
        None \<Rightarrow> Some (Inr None, k)
      | Some (head, hs) \<Rightarrow>
          (case kw_advance k head hs of
             None \<Rightarrow> None
           | Some (Inl e, k') \<Rightarrow> Some (Inl e, k')
           | Some (Inr k', _) \<Rightarrow>
               if kw_last k' = Some (mh_key head) then kway_next k'
               else Some (Inr (Some (mh_key head, mh_value head)), k'\<lparr>kw_last := Some (mh_key head)\<rparr>)))"
  by pat_completeness auto
termination by (relation "measure kw_measure") (auto dest: kw_advance_measure)

declare kway_next.simps [simp del]

lemma kway_next_measure:
  "kway_next k = Some (Inr x, k') \<Longrightarrow>
     (x \<noteq> None \<longrightarrow> kw_measure k' < kw_measure k) \<and> kw_measure k' \<le> kw_measure k"
proof (induction k rule: kway_next.induct)
  case (1 k)
  show ?case
  proof (cases "heap_pop_max (kw_heap k)")
    case None
    with 1(2) show ?thesis by (simp add: kway_next.simps [of k])
  next
    case (Some p)
    obtain head hs where p: "p = (head, hs)" by fastforce
    obtain k1 k2 where a: "kw_advance k head hs = Some (Inr k1, k2)"
      using 1(2) Some p by (auto simp: kway_next.simps [of k] split: option.splits sum.splits prod.splits)
    note m = kw_advance_measure [OF Some [unfolded p] a]
    show ?thesis
    proof (cases "kw_last k1 = Some (mh_key head)")
      case True
      then have "kway_next k1 = Some (Inr x, k')" using 1(2) Some p a by (simp add: kway_next.simps [of k])
      from 1(1) [OF Some p [symmetric] a refl refl True this] m show ?thesis by auto
    next
      case False
      then show ?thesis using 1(2) Some p a m by (auto simp: kway_next.simps [of k] kw_measure_def)
    qed
  qed
qed

section \<open>The merge yields its rows in key order\<close>

definition head_row :: "merge_head \<Rightarrow> entry" where
  "head_row h = (mh_key h, mh_value h)"

lemma heap_pop_max_mset: "heap_pop_max hs = Some (g, gs) \<Longrightarrow> mset hs = add_mset g (mset gs)"
  by (induction hs arbitrary: g gs) (auto split: option.splits if_splits)

lemma merge_head_cmp_Less: "merge_head_cmp h g = Less \<Longrightarrow> mh_key g \<le> mh_key h"
  and merge_head_cmp_not_Less: "merge_head_cmp h g \<noteq> Less \<Longrightarrow> mh_key h \<le> mh_key g"
  by (auto simp: merge_head_cmp_def ikey_cmp_Equal ikey_cmp_Greater less_internal_key_def [symmetric]
      split: ordering.splits)

lemma heap_pop_max_least: "heap_pop_max hs = Some (g, gs) \<Longrightarrow> h \<in> set hs \<Longrightarrow> mh_key g \<le> mh_key h"
proof (induction hs arbitrary: g gs)
  case (Cons a hs)
  show ?case
  proof (cases "heap_pop_max hs")
    case None
    with Cons.prems show ?thesis by auto
  next
    case (Some p)
    obtain g' gs' where p: "p = (g', gs')" by fastforce
    note IH = Cons.IH [OF Some [unfolded p]]
    show ?thesis
      using Cons.prems Some p IH merge_head_cmp_Less [of a g'] merge_head_cmp_not_Less [of a g']
      by (auto split: if_splits intro: order_trans)
  qed
qed simp

text \<open>A merge over error-free sources: every head belongs to its own source and precedes that
  source's remaining rows, and a source without a head is exhausted.\<close>

definition kw_shape :: "'e kway \<Rightarrow> entry list list \<Rightarrow> bool" where
  "kw_shape k rows \<longleftrightarrow>
     kw_streams k = map (map Inr) rows \<and>
     (\<forall>h \<in> set (kw_heap k). mh_src h < length rows \<and>
        sorted_wrt (\<le>) (mh_key h # map fst (rows ! mh_src h))) \<and>
     (\<forall>i < length rows. rows ! i \<noteq> [] \<longrightarrow> i \<in> mh_src ` set (kw_heap k)) \<and>
     distinct (map mh_src (kw_heap k))"

definition kw_held :: "'e kway \<Rightarrow> entry list list \<Rightarrow> entry set" where
  "kw_held k rows = head_row ` set (kw_heap k) \<union> set (concat rows)"

text \<open>The rows a merge has yet to yield, in key order and each once: a held row is skipped when
  its internal key was the last one yielded.\<close>

definition kw_at :: "'e kway \<Rightarrow> entry list list \<Rightarrow> entry list \<Rightarrow> bool" where
  "kw_at k rows xs \<longleftrightarrow>
     kw_shape k rows \<and> consistent (kw_held k rows) \<and> btree_ok xs \<and>
     set xs = {x \<in> kw_held k rows. kw_last k \<noteq> Some (fst x)} \<and>
     (\<forall>l. kw_last k = Some l \<longrightarrow> (\<forall>x \<in> kw_held k rows. l \<le> fst x))"

lemma kw_least:
  assumes at: "kw_shape k rows" and pop: "heap_pop_max (kw_heap k) = Some (g, gs)"
    and x: "x \<in> kw_held k rows"
  shows "mh_key g \<le> fst x"
proof (cases "x \<in> head_row ` set (kw_heap k)")
  case True
  then show ?thesis using heap_pop_max_least [OF pop] by (auto simp: head_row_def)
next
  case False
  with x obtain i where i: "i < length rows" "x \<in> set (rows ! i)"
    by (auto simp: kw_held_def in_set_conv_nth [of _ rows])
  then obtain h where h: "h \<in> set (kw_heap k)" "mh_src h = i"
    using at by (force simp: kw_shape_def)
  then have "mh_key h \<le> fst x" using at i by (auto simp: kw_shape_def)
  then show ?thesis using heap_pop_max_least [OF pop h(1)] by simp
qed

lemma mset_concat_update:
  "i < length rows \<Longrightarrow> mset (concat (rows[i := r])) + mset (rows ! i) = mset (concat rows) + mset r"
proof (induction rows arbitrary: i)
  case (Cons a rows)
  then show ?case by (cases i) (auto simp: ac_simps)
qed simp

definition next_heads :: "nat \<Rightarrow> entry list \<Rightarrow> merge_head list" where
  "next_heads i r = (case r of [] \<Rightarrow> [] | y # _ \<Rightarrow> [\<lparr>mh_key = fst y, mh_value = snd y, mh_src = i\<rparr>])"

lemma next_heads_iff: "h \<in> set (next_heads i r) \<longleftrightarrow> mh_src h = i \<and> r \<noteq> [] \<and> head_row h = hd r"
  by (cases r) (auto simp: next_heads_def head_row_def)

lemma kw_advance_rows:
  assumes "kw_streams k = map (map Inr) rows" "mh_src g < length rows"
  shows "\<exists>k''. kw_advance k g gs =
    Some (Inr (k\<lparr>kw_heap := next_heads (mh_src g) (rows ! mh_src g) @ gs,
      kw_streams := map (map Inr) (rows[mh_src g := tl (rows ! mh_src g)])\<rparr>), k'')"
  using assms by (cases "rows ! mh_src g") (auto simp: kw_advance_def next_heads_def map_update Let_def)

text \<open>The state after a head was replaced by the next row of its source.\<close>

definition kw_popped :: "'e kway \<Rightarrow> entry list list \<Rightarrow> merge_head \<Rightarrow> merge_head list \<Rightarrow> 'e kway" where
  "kw_popped k rows g gs = k\<lparr>kw_heap := next_heads (mh_src g) (rows ! mh_src g) @ gs,
     kw_streams := map (map Inr) (rows[mh_src g := tl (rows ! mh_src g)])\<rparr>"

lemma kw_popped_shape:
  assumes at: "kw_shape k rows" and pop: "heap_pop_max (kw_heap k) = Some (g, gs)"
  defines "rows' \<equiv> rows[mh_src g := tl (rows ! mh_src g)]"
  shows "kw_shape (kw_popped k rows g gs) rows'"
    and "kw_held k rows = insert (head_row g) (kw_held (kw_popped k rows g gs) rows')"
    and "\<exists>k''. kw_advance k g gs = Some (Inr (kw_popped k rows g gs), k'')"
proof -
  let ?i = "mh_src g"
  note heap = heap_pop_max_mset [OF pop]
  then have heap_set: "set (kw_heap k) = insert g (set gs)" by (metis set_mset_add_mset_insert set_mset_mset)
  have i: "?i < length rows" "sorted_wrt (\<le>) (map fst (rows ! ?i))"
    using at heap_set by (auto simp: kw_shape_def)
  have "mset (map mh_src (kw_heap k)) = mset (map mh_src (g # gs))" using heap by simp
  then have "distinct (map mh_src (kw_heap k)) \<longleftrightarrow> distinct (map mh_src (g # gs))"
    by (rule mset_eq_imp_distinct_iff)
  then have dist: "?i \<notin> mh_src ` set gs" "distinct (map mh_src gs)"
    using at by (auto simp: kw_shape_def)
  show "kw_shape (kw_popped k rows g gs) rows'"
    using at dist i heap_set
    unfolding kw_shape_def rows'_def kw_popped_def
    by (cases "rows ! ?i") (auto simp: next_heads_def nth_list_update)
  have "mset (concat rows') + mset (rows ! ?i) = mset (concat rows) + mset (tl (rows ! ?i))"
    unfolding rows'_def using mset_concat_update [OF i(1)] .
  then have "mset (concat rows) = mset (concat rows') + mset (take 1 (rows ! ?i))"
    by (cases "rows ! ?i") auto
  then have "set (concat rows) = set (concat rows') \<union> set (take 1 (rows ! ?i))"
    by (metis set_mset_mset set_mset_union)
  then show "kw_held k rows = insert (head_row g) (kw_held (kw_popped k rows g gs) rows')"
    unfolding kw_held_def kw_popped_def heap_set
    by (cases "rows ! ?i") (auto simp: next_heads_def head_row_def)
  show "\<exists>k''. kw_advance k g gs = Some (Inr (kw_popped k rows g gs), k'')"
    using kw_advance_rows [OF _ i(1)] at unfolding kw_popped_def kw_shape_def by blast
qed

lemma kw_at_empty: "kw_at k rows xs \<Longrightarrow> kw_heap k = [] \<Longrightarrow> xs = []"
proof -
  assume at: "kw_at k rows xs" and empty: "kw_heap k = []"
  then have "rows ! i = []" if "i < length rows" for i using that by (auto simp: kw_at_def kw_shape_def)
  then have "concat rows = []" by (auto simp: in_set_conv_nth)
  with at empty show ?thesis by (simp add: kw_at_def kw_held_def)
qed

lemma kw_at_skip:
  assumes at: "kw_at k rows xs" and pop: "heap_pop_max (kw_heap k) = Some (g, gs)"
    and last: "kw_last k = Some (mh_key g)"
  shows "kw_at (kw_popped k rows g gs) (rows[mh_src g := tl (rows ! mh_src g)]) xs"
proof -
  have "kw_shape k rows" using at by (simp add: kw_at_def)
  note step = kw_popped_shape [OF this pop]
  have "kw_last (kw_popped k rows g gs) = kw_last k" by (simp add: kw_popped_def)
  then show ?thesis
    using at step(1) last unfolding kw_at_def step(2)
    by (auto simp: head_row_def consistent_def)
qed

lemma kw_at_emit:
  assumes at: "kw_at k rows xs" and pop: "heap_pop_max (kw_heap k) = Some (g, gs)"
    and last: "kw_last k \<noteq> Some (mh_key g)"
  shows "\<exists>ys. xs = head_row g # ys \<and>
    kw_at (kw_popped k rows g gs\<lparr>kw_last := Some (mh_key g)\<rparr>) (rows[mh_src g := tl (rows ! mh_src g)]) ys"
proof -
  let ?k = "kw_popped k rows g gs\<lparr>kw_last := Some (mh_key g)\<rparr>" and ?rows = "rows[mh_src g := tl (rows ! mh_src g)]"
  have shape: "kw_shape k rows" using at by (simp add: kw_at_def)
  note step = kw_popped_shape [OF shape pop] and least = kw_least [OF shape pop]
  have held: "kw_held ?k ?rows = kw_held (kw_popped k rows g gs) ?rows" by (simp add: kw_held_def)
  have g: "head_row g \<in> kw_held k rows" by (simp add: step(2))
  have "kw_last k \<noteq> Some (fst x)" if "x \<in> kw_held k rows" for x
  proof
    assume l: "kw_last k = Some (fst x)"
    then have "fst x \<le> mh_key g" using at g by (fastforce simp: kw_at_def head_row_def)
    with least [OF that] l last show False by simp
  qed
  then have set_xs: "set xs = kw_held k rows" using at by (auto simp: kw_at_def)
  have ok: "btree_ok xs" using at by (simp add: kw_at_def)
  have "head_row g \<in> set xs" "\<forall>x \<in> set xs. mh_key g \<le> fst x" using g least set_xs by auto
  with ok obtain ys where ys: "xs = head_row g # ys"
    by (cases xs) (fastforce simp: btree_ok_def head_row_def)+
  have after: "\<forall>x \<in> set ys. mh_key g < fst x" "btree_ok ys" using ok ys by (auto simp: btree_ok_def head_row_def)
  have con: "consistent (kw_held k rows)" using at by (simp add: kw_at_def)
  have "set ys = {x \<in> insert (head_row g) (set ys). fst x \<noteq> mh_key g}"
    using after(1) by (auto simp: head_row_def)
  then have "set ys = {x \<in> kw_held k rows. fst x \<noteq> mh_key g}"
    unfolding set_xs [symmetric] ys list.set .
  moreover have "{x \<in> insert (head_row g) H. fst x \<noteq> mh_key g} = {x \<in> H. Some (mh_key g) \<noteq> Some (fst x)}" for H
    by (auto simp: head_row_def)
  ultimately have "set ys = {x \<in> kw_held (kw_popped k rows g gs) ?rows. Some (mh_key g) \<noteq> Some (fst x)}"
    unfolding step(2) by (rule trans)
  moreover have "kw_shape ?k ?rows" using step(1) by (simp add: kw_shape_def)
  moreover have "consistent (kw_held (kw_popped k rows g gs) ?rows)"
    using con unfolding step(2) consistent_def by simp
  ultimately have "kw_at ?k ?rows ys"
    using after(2) least unfolding kw_at_def held step(2) by simp
  with ys show ?thesis by blast
qed

lemma kw_at_next:
  "kw_at k rows xs \<Longrightarrow>
     \<exists>k' rows'. kw_at k' rows' (tl xs) \<and>
       kway_next k = Some (Inr (case xs of [] \<Rightarrow> None | x # _ \<Rightarrow> Some x), k')"
proof (induction "kw_measure k" arbitrary: k rows rule: less_induct)
  case less
  show ?case
  proof (cases "heap_pop_max (kw_heap k)")
    case None
    then have "xs = []" using kw_at_empty [OF less(2)] by simp
    with None less(2) show ?thesis by (auto simp: kway_next.simps [of k])
  next
    case (Some p)
    obtain g gs where p: "p = (g, gs)" by fastforce
    note pop = Some [unfolded p]
    let ?k = "kw_popped k rows g gs"
    have "kw_shape k rows" using less(2) by (simp add: kw_at_def)
    from kw_popped_shape(3) [OF this pop] obtain k'' where adv: "kw_advance k g gs = Some (Inr ?k, k'')" ..
    have last: "kw_last ?k = kw_last k" by (simp add: kw_popped_def)
    show ?thesis
    proof (cases "kw_last k = Some (mh_key g)")
      case True
      then have "kway_next k = kway_next ?k" using pop adv last by (simp add: kway_next.simps [of k])
      with less(1) [OF kw_advance_measure [OF pop adv] kw_at_skip [OF less(2) pop True]] show ?thesis by simp
    next
      case False
      then have "kway_next k = Some (Inr (Some (head_row g)), ?k\<lparr>kw_last := Some (mh_key g)\<rparr>)"
        using pop adv last by (simp add: kway_next.simps [of k] head_row_def)
      with kw_at_emit [OF less(2) pop False] show ?thesis by auto
    qed
  qed
qed

lemma kw_at_Nil:
  assumes "kw_at k rows []"
  shows "\<exists>k' rows'. kway_next k = Some (Inr None, k') \<and> kw_at k' rows' []"
  using kw_at_next [OF assms] by auto

lemma kw_at_Cons:
  assumes at: "kw_at k rows (x # xs)"
  shows "\<exists>k' rows'. kway_next k = Some (Inr (Some x), k') \<and> kw_at k' rows' xs"
  using kw_at_next [OF assms] by auto

definition first_heads :: "nat \<Rightarrow> entry list list \<Rightarrow> merge_head list" where
  "first_heads n rows = concat (map (\<lambda>(i, r). next_heads i r) (enumerate n rows))"

lemma first_heads_simps [simp]:
  "first_heads n [] = []"
  "first_heads n (r # rows) = next_heads n r @ first_heads (Suc n) rows"
  by (simp_all add: first_heads_def)

lemma seed_heads_rows:
  "seed_heads src (map (map Inr) rows) = Inr (first_heads src rows, map (map Inr) (map tl rows))"
proof (induction rows arbitrary: src)
  case (Cons r rows)
  then show ?case by (cases r) (auto simp: next_heads_def)
qed simp

lemma first_heads_mset:
  "image_mset head_row (mset (first_heads n rows)) + mset (concat (map tl rows)) = mset (concat rows)"
proof (induction rows arbitrary: n)
  case (Cons r rows)
  then show ?case by (cases r) (auto simp: next_heads_def head_row_def ac_simps)
qed simp

lemma first_heads_iff:
  "h \<in> set (first_heads 0 rows) \<longleftrightarrow>
     mh_src h < length rows \<and> rows ! mh_src h \<noteq> [] \<and> head_row h = hd (rows ! mh_src h)"
proof -
  have "set (enumerate 0 rows) = {(i, rows ! i) | i. i < length rows}"
    unfolding enumerate_eq_zip set_zip by (intro Collect_cong) (auto, force)
  then show ?thesis by (auto simp: first_heads_def next_heads_iff)
qed

lemma first_heads_distinct:
  "distinct (map mh_src (first_heads n rows)) \<and> (\<forall>h \<in> set (first_heads n rows). n \<le> mh_src h)"
proof (induction rows arbitrary: n)
  case (Cons r rows)
  then show ?case using Cons [of "Suc n"] by (cases r) (force simp: next_heads_def)+
qed simp

lemma kw_at_from_streams:
  assumes "\<forall>r \<in> set rows. sorted (map fst r)" "consistent (set (concat rows))"
  shows "\<exists>k :: 'e kway. from_streams (map (map Inr) rows) = Inr k \<and>
    kw_at k (map tl rows) (sort_key fst (remdups (concat rows)))"
proof -
  let ?hs = "first_heads 0 rows"
  let ?k = "\<lparr>kw_streams = map (map Inr) (map tl rows), kw_heap = ?hs, kw_last = None\<rparr> :: 'e kway"
  have "btree_ok (sort_key fst (remdups (concat rows)))"
    using assms(2) by (auto simp: btree_ok_def strict_sorted_iff distinct_map consistent_def)
  moreover have "mh_src h < length rows" "sorted_wrt (\<le>) (mh_key h # map fst (tl (rows ! mh_src h)))"
    if "h \<in> set ?hs" for h
  proof -
    note h = that [unfolded first_heads_iff]
    then have "sorted (map fst (rows ! mh_src h))" using assms(1) by simp
    with h show "sorted_wrt (\<le>) (mh_key h # map fst (tl (rows ! mh_src h)))"
      by (cases "rows ! mh_src h") (auto simp: head_row_def)
    show "mh_src h < length rows" using h by simp
  qed
  moreover have "i \<in> mh_src ` set ?hs" if "i < length rows" "tl (rows ! i) \<noteq> []" for i
  proof (rule image_eqI)
    let ?r = "hd (rows ! i)"
    show "\<lparr>mh_key = fst ?r, mh_value = snd ?r, mh_src = i\<rparr> \<in> set ?hs"
      unfolding first_heads_iff using that by (auto simp: head_row_def)
  qed simp
  moreover have "kw_held ?k (map tl rows) = set (concat rows)"
    using arg_cong [OF first_heads_mset [of 0 rows], of set_mset] by (simp add: kw_held_def)
  ultimately have "kw_at ?k (map tl rows) (sort_key fst (remdups (concat rows)))"
    using first_heads_distinct [of 0 rows] assms(2) by (auto simp: kw_at_def kw_shape_def)
  then show ?thesis by (simp add: from_streams_def seed_heads_rows)
qed

section \<open>The streaming collector\<close>

record 'e gc_merge =
  gm_merge :: "'e kway"
  gm_gc :: compact_gc_options
  gm_tombs :: "range_tombstone list"
  gm_run :: "entry list"
  gm_out :: "entry list"

definition gc_merge_new :: "'e kway \<Rightarrow> compact_gc_options \<Rightarrow> 'e gc_merge" where
  "gc_merge_new k gc = \<lparr>gm_merge = k, gm_gc = gc, gm_tombs = [], gm_run = [], gm_out = []\<rparr>"

fun keep_points :: "u64 \<Rightarrow> entry list \<Rightarrow> nat list \<Rightarrow> bool list \<Rightarrow> u64 option \<Rightarrow> bool list" where
  "keep_points oldest run [] keep newer_kept = keep"
| "keep_points oldest run (i # points) keep newer_kept =
     (if point_version_fate (sequence (fst (run ! i))) newer_kept oldest = Drop
      then keep_points oldest run points keep newer_kept
      else keep_points oldest run points (keep[i := True]) (Some (sequence (fst (run ! i)))))"

definition set_all :: "nat list \<Rightarrow> bool \<Rightarrow> bool list \<Rightarrow> bool list" where
  "set_all idx b keep = fold (\<lambda>i k. k[i := b]) idx keep"

definition run_keep :: "compact_gc_options \<Rightarrow> range_tombstone list \<Rightarrow> entry list \<Rightarrow> bool list" where
  "run_keep gc tombs run =
     (let user = user_key (fst (run ! 0));
          keep = replicate (length run) False;
          points = filter (\<lambda>i. kind (fst (run ! i)) \<noteq> RangeDeletion) [0..<length run]
      in case oldest_snapshot gc of
           Some oldest \<Rightarrow>
             let keep = keep_points oldest run points keep None;
                 kept = filter (\<lambda>i. keep ! i) points;
                 lone = length kept = 1 \<and> kind (fst (run ! (kept ! 0))) = Deletion
             in if lone_tombstone_fate (bottommost gc) lone = Drop then set_all kept False keep else keep
         | None \<Rightarrow>
             if keep_only_latest gc then
               case points of
                 [] \<Rightarrow> keep
               | i # _ \<Rightarrow>
                   keep[i := (case kind (fst (run ! i)) of
                        Value \<Rightarrow> get_live [Value] [range_deleted user (sequence (fst (run ! i))) tombs]
                      | Deletion \<Rightarrow> \<not> bottommost gc
                      | RangeDeletion \<Rightarrow> False)]
             else set_all points True keep)"

definition drop_tombs :: "compact_gc_options \<Rightarrow> bool" where
  "drop_tombs gc \<longleftrightarrow> oldest_snapshot gc = None \<and> keep_only_latest gc \<and> bottommost gc"

text \<open>\<open>close_run\<close> reads the first row of the run, so an empty run panics.\<close>

definition close_run :: "'e gc_merge \<Rightarrow> 'e gc_merge option" where
  "close_run g =
     (let run = gm_run g;
          tombs = gm_tombs g @ map to_tombstone (filter (\<lambda>x. kind (fst x) = RangeDeletion) run)
      in if run = [] then None
         else
           let keep = run_keep (gm_gc g) tombs run;
               kept = map fst (filter (\<lambda>(x, b). if kind (fst x) = RangeDeletion then \<not> drop_tombs (gm_gc g) else b)
                 (zip run keep))
           in Some (g\<lparr>gm_tombs := tombs, gm_run := [], gm_out := gm_out g @ kept\<rparr>))"

definition gm_measure :: "'e gc_merge \<Rightarrow> nat" where
  "gm_measure g = 2 * kw_measure (gm_merge g) + (if gm_run g = [] then 0 else 1)"

definition gm_push :: "'e gc_merge \<Rightarrow> entry \<Rightarrow> 'e gc_merge option" where
  "gm_push g x =
     map_option (\<lambda>g'. g'\<lparr>gm_run := gm_run g' @ [x]\<rparr>)
       (if gm_run g \<noteq> [] \<and> user_key (fst (last (gm_run g))) \<noteq> user_key (fst x)
        then close_run g else Some g)"

lemma close_run_merge: "close_run g = Some g' \<Longrightarrow> gm_merge g' = gm_merge g \<and> gm_run g' = []"
  by (auto simp: close_run_def Let_def split: if_splits)

lemma gm_push_merge: "gm_push g x = Some g' \<Longrightarrow> gm_merge g' = gm_merge g \<and> gm_run g' \<noteq> []"
  by (auto simp: gm_push_def dest: close_run_merge split: if_splits)

function gc_merge_next :: "'e gc_merge \<Rightarrow> (('e, entry option) result \<times> 'e gc_merge) option" where
  "gc_merge_next g =
     (case gm_out g of
        pair # rest \<Rightarrow> Some (Inr (Some pair), g\<lparr>gm_out := rest\<rparr>)
      | [] \<Rightarrow>
          (case kway_next (gm_merge g) of
             None \<Rightarrow> None
           | Some (Inl e, k) \<Rightarrow> Some (Inl e, g\<lparr>gm_merge := k\<rparr>)
           | Some (Inr (Some x), k) \<Rightarrow>
               if sequence (fst x) < min_sequence (gm_gc g) then gc_merge_next (g\<lparr>gm_merge := k\<rparr>)
               else (case gm_push (g\<lparr>gm_merge := k\<rparr>) x of
                       None \<Rightarrow> None
                     | Some g' \<Rightarrow> gc_merge_next g')
           | Some (Inr None, k) \<Rightarrow>
               if batch_is_empty (length (gm_run g)) then Some (Inr None, g\<lparr>gm_merge := k\<rparr>)
               else (case close_run (g\<lparr>gm_merge := k\<rparr>) of
                       None \<Rightarrow> None
                     | Some g' \<Rightarrow> gc_merge_next g')))"
  by pat_completeness auto
termination
  by (relation "measure gm_measure")
    (auto simp: gm_measure_def batch_is_empty_def dest!: kway_next_measure gm_push_merge close_run_merge)

declare gc_merge_next.simps [simp del]

section \<open>What the collector yields\<close>

text \<open>Calling \<open>next_entry\<close> until the end yields the rows.\<close>

inductive yields :: "'e gc_merge \<Rightarrow> entry list \<Rightarrow> bool" where
  yields_end: "gc_merge_next g = Some (Inr None, g') \<Longrightarrow> yields g []"
| yields_row: "gc_merge_next g = Some (Inr (Some x), g') \<Longrightarrow> yields g' xs \<Longrightarrow> yields g (x # xs)"

lemma yields_step:
  assumes "gc_merge_next g = gc_merge_next g'" "yields g' xs"
  shows "yields g xs"
  using assms(2)
proof cases
  case (yields_end h)
  with assms(1) show ?thesis using yields.yields_end [of g h] by simp
next
  case (yields_row x h ys)
  with assms(1) show ?thesis using yields.yields_row [of g x h ys] by simp
qed

lemma yields_pending:
  assumes "yields (g\<lparr>gm_out := []\<rparr>) xs"
  shows "yields g (gm_out g @ xs)"
proof -
  have "yields (g\<lparr>gm_out := ys\<rparr>) (ys @ xs)" for ys
    by (induction ys) (auto simp: assms gc_merge_next.simps intro: yields_row)
  from this [of "gm_out g"] show ?thesis by simp
qed

definition close_out :: "compact_gc_options \<Rightarrow> range_tombstone list \<Rightarrow> entry list \<Rightarrow> entry list" where
  "close_out gc tombs run =
     map fst (filter (\<lambda>(x, b). if kind (fst x) = RangeDeletion then \<not> drop_tombs gc else b)
       (zip run (run_keep gc tombs run)))"

definition run_tombs :: "entry list \<Rightarrow> range_tombstone list" where
  "run_tombs run = map to_tombstone (filter (\<lambda>x. kind (fst x) = RangeDeletion) run)"

fun close_all :: "compact_gc_options \<Rightarrow> range_tombstone list \<Rightarrow> entry list list \<Rightarrow> entry list" where
  "close_all gc tombs [] = []"
| "close_all gc tombs (r # rs) = close_out gc (tombs @ run_tombs r) r @ close_all gc (tombs @ run_tombs r) rs"

lemma close_run_eq:
  "gm_run g \<noteq> [] \<Longrightarrow> close_run g = Some (g\<lparr>gm_tombs := gm_tombs g @ run_tombs (gm_run g), gm_run := [],
     gm_out := gm_out g @ close_out (gm_gc g) (gm_tombs g @ run_tombs (gm_run g)) (gm_run g)\<rparr>)"
  by (simp add: close_run_def close_out_def run_tombs_def Let_def)

text \<open>The runs of a buffered run and the rows behind it.\<close>

definition one_user :: "entry list \<Rightarrow> bool" where
  "one_user r \<longleftrightarrow> (\<exists>u. \<forall>x \<in> set r. user_key (fst x) = u)"

lemma one_user_last:
  assumes "one_user r" "r \<noteq> []" "x \<in> set r"
  shows "user_key (fst x) = user_key (fst (last r))"
  using assms last_in_set [OF assms(2)] by (auto simp: one_user_def)

lemma one_user_snoc:
  assumes "one_user r" "r = [] \<or> user_key (fst (last r)) = user_key (fst x)"
  shows "one_user (r @ [x])"
  unfolding one_user_def
proof (intro exI ballI)
  fix y
  assume "y \<in> set (r @ [x])"
  then show "user_key (fst y) = user_key (fst x)" using one_user_last [OF assms(1), of y] assms(2) by (cases "r = []") auto
qed

lemma runs_append:
  assumes "one_user r" "r \<noteq> []" "xs \<noteq> [] \<Longrightarrow> user_key (fst (hd xs)) \<noteq> user_key (fst (last r))"
  shows "runs (r @ xs) = r # runs xs"
proof -
  obtain y r' where r: "r = y # r'" using assms(2) by (cases r) auto
  let ?same = "\<lambda>z. user_key (fst z) = user_key (fst y)"
  have all: "?same z" if "z \<in> set r'" for z
    using one_user_last [OF assms(1,2)] that r by (metis list.set_intros)
  have "?same (last r)" using one_user_last [OF assms(1,2)] r by (metis list.set_intros(1))
  with assms(3) have "takeWhile ?same xs = []" "dropWhile ?same xs = xs" by (cases xs; simp)+
  moreover have "takeWhile ?same (r' @ xs) = r' @ takeWhile ?same xs"
    by (rule takeWhile_append2) (rule all)
  moreover have "dropWhile ?same (r' @ xs) = dropWhile ?same xs"
    by (rule dropWhile_append2) (rule all)
  ultimately show ?thesis by (simp add: r)
qed

lemma gc_merge_yields_end:
  assumes "kw_at (gm_merge g) rows []" "one_user (gm_run g)"
  shows "yields g (gm_out g @ close_all (gm_gc g) (gm_tombs g) (runs (gm_run g)))"
proof -
  let ?g = "g\<lparr>gm_out := []\<rparr>"
  obtain k' rows' where k: "kway_next (gm_merge g) = Some (Inr None, k')" "kw_at k' rows' []"
    using kw_at_Nil [OF assms(1)] by blast
  have fin: "yields h []" if "gm_run h = []" "gm_out h = []" and at: "kw_at (gm_merge h) rows'' []" for h rows''
  proof -
    obtain k'' where "kway_next (gm_merge h) = Some (Inr None, k'')" using kw_at_Nil [OF at] by blast
    then show ?thesis using that by (intro yields_end [of _ "h\<lparr>gm_merge := k''\<rparr>"])
      (simp add: gc_merge_next.simps [of h] batch_is_empty_def)
  qed
  have "yields ?g (close_all (gm_gc g) (gm_tombs g) (runs (gm_run g)))"
  proof (cases "gm_run g = []")
    case True
    then show ?thesis using fin [of ?g rows] assms(1) by simp
  next
    case False
    let ?c = "?g\<lparr>gm_merge := k'\<rparr>"
    obtain h where h: "close_run ?c = Some h" "gm_run h = []" "gm_merge h = k'"
        "gm_out h = close_out (gm_gc g) (gm_tombs g @ run_tombs (gm_run g)) (gm_run g)"
      using close_run_eq [of ?c] False by simp
    have "yields h (gm_out h @ [])" by (rule yields_pending) (rule fin [of _ rows'], simp_all add: h k)
    moreover have "gc_merge_next ?g = gc_merge_next h"
      using False k(1) h(1) by (simp add: gc_merge_next.simps [of ?g] batch_is_empty_def)
    ultimately show ?thesis
      using yields_step [of ?g h] runs_append [OF assms(2) False, of "[]"] h(4) by simp
  qed
  then show ?thesis using yields_pending [of g] by simp
qed

lemma gc_merge_yields:
  assumes "kw_at (gm_merge g) rows xs" "one_user (gm_run g)"
  shows "yields g (gm_out g @ close_all (gm_gc g) (gm_tombs g)
    (runs (gm_run g @ filter (\<lambda>x. min_sequence (gm_gc g) \<le> sequence (fst x)) xs)))"
  using assms
proof (induction xs arbitrary: g rows)
  case Nil
  then show ?case using gc_merge_yields_end by simp
next
  case (Cons x xs)
  let ?g = "g\<lparr>gm_out := []\<rparr>"
  let ?ok = "\<lambda>x. min_sequence (gm_gc g) \<le> sequence (fst x)"
  obtain k' rows' where k: "kway_next (gm_merge g) = Some (Inr (Some x), k')" and at: "kw_at k' rows' xs"
    using kw_at_Cons [OF Cons(2)] by blast
  have "yields ?g (close_all (gm_gc g) (gm_tombs g) (runs (gm_run g @ filter ?ok (x # xs))))"
  proof (cases "?ok x")
    case False
    then have "gc_merge_next ?g = gc_merge_next (?g\<lparr>gm_merge := k'\<rparr>)"
      using k by (simp add: gc_merge_next.simps [of ?g] not_le)
    then show ?thesis using Cons(1) [of "?g\<lparr>gm_merge := k'\<rparr>"] at Cons(3) False
      by (auto intro: yields_step)
  next
    case True
    let ?close = "gm_run g \<noteq> [] \<and> user_key (fst (last (gm_run g))) \<noteq> user_key (fst x)"
    let ?tombs = "gm_tombs g @ (if ?close then run_tombs (gm_run g) else [])"
    let ?h = "?g\<lparr>gm_merge := k', gm_tombs := ?tombs,
      gm_run := (if ?close then [x] else gm_run g @ [x]),
      gm_out := (if ?close then close_out (gm_gc g) ?tombs (gm_run g) else [])\<rparr>"
    have push: "gm_push (?g\<lparr>gm_merge := k'\<rparr>) x = Some ?h"
      by (auto simp: gm_push_def close_run_eq)
    have next': "gc_merge_next ?g = gc_merge_next ?h"
      using True k push by (simp add: gc_merge_next.simps [of ?g] not_less [symmetric])
    have one: "one_user (gm_run ?h)" using one_user_snoc [OF Cons(3), of x] one_user_snoc [of "[]" x]
      by (auto simp: one_user_def [of "[]"])
    have "runs (gm_run g @ filter ?ok (x # xs)) =
        (if ?close then [gm_run g] else []) @ runs (gm_run ?h @ filter ?ok xs)"
      using runs_append [OF Cons(3), of "filter ?ok (x # xs)"] True by auto
    moreover have "yields ?h (gm_out ?h @ close_all (gm_gc g) ?tombs (runs (gm_run ?h @ filter ?ok xs)))"
      using Cons(1) [of ?h, OF _ one] at by simp
    ultimately show ?thesis using yields_step [OF next'] by auto
  qed
  then show ?case using yields_pending [of g] by simp
qed

section \<open>The rows of one run\<close>

text \<open>The decision on the point versions of one user key, newest first.\<close>

definition decide :: "compact_gc_options \<Rightarrow> range_tombstone list \<Rightarrow> entry list \<Rightarrow> entry list" where
  "decide gc tombs vs =
     (case oldest_snapshot gc of
        Some oldest \<Rightarrow> gc_snapshot_run oldest (bottommost gc) vs
      | None \<Rightarrow> if keep_only_latest gc then (case vs of [] \<Rightarrow> [] | x # _ \<Rightarrow> latest_keep (bottommost gc) tombs x)
               else vs)"

fun retained :: "u64 \<Rightarrow> u64 option \<Rightarrow> entry list \<Rightarrow> entry list" where
  "retained oldest newer [] = []"
| "retained oldest newer (x # vs) =
     (if point_version_fate (sequence (fst x)) newer oldest = Drop then retained oldest newer vs
      else x # retained oldest (Some (sequence (fst x))) vs)"

lemma snapshot_keep_retained:
  "snapshot_keep oldest keep vs =
     keep @ retained oldest (if keep = [] then None else Some (sequence (fst (last keep)))) vs"
  by (induction oldest keep vs rule: snapshot_keep.induct)
    (auto simp: batch_is_empty_def point_version_fate_def)

fun retained_idx :: "u64 \<Rightarrow> entry list \<Rightarrow> u64 option \<Rightarrow> nat list \<Rightarrow> nat list" where
  "retained_idx oldest run newer [] = []"
| "retained_idx oldest run newer (i # ps) =
     (if point_version_fate (sequence (fst (run ! i))) newer oldest = Drop then retained_idx oldest run newer ps
      else i # retained_idx oldest run (Some (sequence (fst (run ! i)))) ps)"

lemma retained_idx_map:
  "map ((!) run) (retained_idx oldest run newer ps) = retained oldest newer (map ((!) run) ps)"
  by (induction oldest run newer ps rule: retained_idx.induct) simp_all

lemma retained_idx_subset: "set (retained_idx oldest run newer ps) \<subseteq> set ps"
  by (induction oldest run newer ps rule: retained_idx.induct) auto

lemma retained_idx_filter:
  "distinct ps \<Longrightarrow> filter (\<lambda>i. i \<in> set (retained_idx oldest run newer ps)) ps = retained_idx oldest run newer ps"
proof (induction oldest run newer ps rule: retained_idx.induct)
  case (2 oldest run newer i ps)
  have "i \<notin> set (retained_idx oldest run n ps)" for n
    using 2(3) retained_idx_subset by fastforce
  moreover have "filter (\<lambda>j. j = i \<or> P j) ps = filter P ps" for P
    using 2(3) by (intro filter_cong) auto
  ultimately show ?case using 2 by auto
qed simp

lemma update_nth: "j < length keep \<Longrightarrow> keep[i := b] ! j = (if i = j then b else keep ! j)"
  by (cases "i = j") simp_all

lemma keep_points_nth:
  "length (keep_points oldest run ps keep newer) = length keep \<and>
   (\<forall>j < length keep. keep_points oldest run ps keep newer ! j \<longleftrightarrow>
      keep ! j \<or> j \<in> set (retained_idx oldest run newer ps))"
  by (induction oldest run ps keep newer rule: keep_points.induct) (auto simp: update_nth)

lemma set_all_nth:
  "length (set_all idx b keep) = length keep \<and>
   (\<forall>j < length keep. set_all idx b keep ! j = (if j \<in> set idx then b else keep ! j))"
  unfolding set_all_def by (induction idx arbitrary: keep) (auto simp: update_nth)

definition point_idx :: "entry list \<Rightarrow> nat list" where
  "point_idx run = filter (\<lambda>i. kind (fst (run ! i)) \<noteq> RangeDeletion) [0..<length run]"

lemma point_idx_map: "map ((!) run) (point_idx run) = filter (\<lambda>x. kind (fst x) \<noteq> RangeDeletion) run"
  unfolding point_idx_def by (subst (3) map_nth [of run, symmetric]) (simp add: filter_map comp_def)

lemma point_idx_set: "i \<in> set (point_idx run) \<longleftrightarrow> i < length run \<and> kind (fst (run ! i)) \<noteq> RangeDeletion"
  by (simp add: point_idx_def)

lemma run_keep_snapshot:
  assumes gc: "oldest_snapshot gc = Some oldest" and d: "distinct run"
  shows "length (run_keep gc tombs run) = length run \<and>
    (\<forall>i < length run. run_keep gc tombs run ! i \<longleftrightarrow>
      run ! i \<in> set (decide gc tombs (filter (\<lambda>x. kind (fst x) \<noteq> RangeDeletion) run)))"
proof -
  let ?ps = "point_idx run"
  let ?idx = "retained_idx oldest run None ?ps"
  let ?keep = "keep_points oldest run ?ps (replicate (length run) False) None"
  have keep: "length ?keep = length run" "\<And>j. j < length run \<Longrightarrow> ?keep ! j \<longleftrightarrow> j \<in> set ?idx"
    using keep_points_nth [of oldest run ?ps "replicate (length run) False" None] by auto
  have "filter (\<lambda>i. ?keep ! i) ?ps = filter (\<lambda>i. i \<in> set ?idx) ?ps"
    using keep by (intro filter_cong) (auto simp: point_idx_set)
  also have "\<dots> = ?idx" by (rule retained_idx_filter) (simp add: point_idx_def)
  finally have kept: "filter (\<lambda>i. ?keep ! i) ?ps = ?idx" .
  have rows: "map ((!) run) ?idx = snapshot_keep oldest [] (filter (\<lambda>x. kind (fst x) \<noteq> RangeDeletion) run)"
    by (simp add: retained_idx_map point_idx_map snapshot_keep_retained)
  let ?lone = "length ?idx = 1 \<and> kind (fst (run ! (?idx ! 0))) = Deletion"
  have lone: "?lone \<longleftrightarrow> length (map ((!) run) ?idx) = 1 \<and> kind (fst (hd (map ((!) run) ?idx))) = Deletion"
    by (cases ?idx) auto
  have k: "run_keep gc tombs run =
      (if lone_tombstone_fate (bottommost gc) ?lone = Drop then set_all ?idx False ?keep else ?keep)"
    by (simp add: run_keep_def gc Let_def point_idx_def [symmetric] kept)
  have d': "decide gc tombs (filter (\<lambda>x. kind (fst x) \<noteq> RangeDeletion) run) =
      (if lone_tombstone_fate (bottommost gc) ?lone = Drop then [] else map ((!) run) ?idx)"
    unfolding lone by (simp add: decide_def gc gc_snapshot_run_def Let_def rows)
  have mem: "i \<in> set ?idx \<longleftrightarrow> run ! i \<in> set (map ((!) run) ?idx)" if "i < length run" for i
    using that d retained_idx_subset [of oldest run None ?ps]
    by (auto simp: point_idx_set nth_eq_iff_index_eq)
  show ?thesis
    unfolding k d' using keep set_all_nth [of ?idx False ?keep] mem
    by (cases "lone_tombstone_fate (bottommost gc) ?lone = Drop") simp_all
qed

lemma run_keep_latest:
  assumes gc: "oldest_snapshot gc = None" and d: "distinct run" and u: "one_user run"
  shows "length (run_keep gc tombs run) = length run \<and>
    (\<forall>i < length run. kind (fst (run ! i)) \<noteq> RangeDeletion \<longrightarrow> run_keep gc tombs run ! i = (
      run ! i \<in> set (decide gc tombs (filter (\<lambda>x. kind (fst x) \<noteq> RangeDeletion) run))))"
proof (cases "point_idx run")
  case Nil
  then show ?thesis using point_idx_set [of _ run]
    by (auto simp: run_keep_def gc Let_def point_idx_def [symmetric] set_all_def)
next
  case (Cons j js)
  have j: "j < length run" "kind (fst (run ! j)) \<noteq> RangeDeletion" using point_idx_set [of j run] Cons by simp_all
  have P: "filter (\<lambda>x. kind (fst x) \<noteq> RangeDeletion) run = run ! j # map ((!) run) js"
    using point_idx_map [of run] Cons by simp
  have user: "user_key (fst (run ! 0)) = user_key (fst (run ! j))"
    using one_user_last [OF u] j(1) by (metis length_greater_0_conv nth_mem order.strict_trans1 zero_le list.size(3) not_less_zero)
  show ?thesis
  proof (cases "keep_only_latest gc")
    case True
    have "latest_keep (bottommost gc) tombs (run ! j) =
       (if (case kind (fst (run ! j)) of
          Value \<Rightarrow> get_live [Value] [range_deleted (user_key (fst (run ! 0))) (sequence (fst (run ! j))) tombs]
        | Deletion \<Rightarrow> \<not> bottommost gc | RangeDeletion \<Rightarrow> False) then [run ! j] else [])"
      unfolding user by (cases "run ! j") (simp split: value_type.split)
    then show ?thesis using d j(1)
      by (auto simp: run_keep_def gc Let_def point_idx_def [symmetric] Cons True decide_def P
          update_nth nth_eq_iff_index_eq)
  next
    case False
    then show ?thesis using set_all_nth [of "point_idx run" True "replicate (length run) False"]
      by (auto simp: run_keep_def gc Let_def point_idx_def [symmetric] decide_def point_idx_set)
  qed
qed

abbreviation points_of :: "entry list \<Rightarrow> entry list" where
  "points_of xs \<equiv> filter (\<lambda>x. kind (fst x) \<noteq> RangeDeletion) xs"

lemma in_zip_filter:
  assumes "length ks = length xs"
  shows "x \<in> set (map fst (filter P (zip xs ks))) \<longleftrightarrow> (\<exists>i < length xs. x = xs ! i \<and> P (xs ! i, ks ! i))"
proof -
  have "x \<in> set (map fst (filter P (zip xs ks))) \<longleftrightarrow> (\<exists>p \<in> set (zip xs ks). fst p = x \<and> P p)"
    unfolding set_map set_filter image_iff by blast
  also have "\<dots> \<longleftrightarrow> (\<exists>i < length xs. x = xs ! i \<and> P (xs ! i, ks ! i))"
    using assms by (auto simp: set_zip)
  finally show ?thesis .
qed

lemma close_out_rows:
  assumes "distinct run" "one_user run"
  shows "x \<in> set (close_out gc tombs run) \<longleftrightarrow> x \<in> set run \<and>
    (if kind (fst x) = RangeDeletion then \<not> drop_tombs gc else x \<in> set (decide gc tombs (points_of run)))"
proof -
  have keep: "length (run_keep gc tombs run) = length run"
      "i < length run \<Longrightarrow> kind (fst (run ! i)) \<noteq> RangeDeletion \<Longrightarrow>
        run_keep gc tombs run ! i \<longleftrightarrow> run ! i \<in> set (decide gc tombs (points_of run))" for i
    using run_keep_snapshot [OF _ assms(1)] run_keep_latest [OF _ assms]
    by (cases "oldest_snapshot gc"; simp)+
  have "x \<in> set (close_out gc tombs run) \<longleftrightarrow> (\<exists>i < length run. x = run ! i \<and>
      (if kind (fst x) = RangeDeletion then \<not> drop_tombs gc else run_keep gc tombs run ! i))"
    unfolding close_out_def in_zip_filter [OF keep(1)] by auto
  also have "\<dots> \<longleftrightarrow> x \<in> set run \<and>
      (if kind (fst x) = RangeDeletion then \<not> drop_tombs gc else x \<in> set (decide gc tombs (points_of run)))"
    using keep(2) by (auto simp: in_set_conv_nth)
  finally show ?thesis .
qed

lemma sorted_zip_filter:
  "sorted_wrt R xs \<Longrightarrow> sorted_wrt R (map fst (filter P (zip xs ks)))"
proof (induction xs arbitrary: ks)
  case (Cons x xs)
  then show ?case by (cases ks) (auto dest!: set_zip_leftD)
qed simp

lemma close_out_sorted: "btree_ok run \<Longrightarrow> btree_ok (close_out gc tombs run)"
  unfolding btree_ok_def close_out_def sorted_wrt_map [of _ fst run] sorted_wrt_map [of _ fst "map fst _"]
  by (rule sorted_zip_filter)

lemma btree_ok_appendD: "btree_ok (xs @ ys) \<Longrightarrow> btree_ok xs \<and> btree_ok ys"
  by (simp add: btree_ok_def sorted_wrt_append)

text \<open>Tombstones that start behind a key do not cover it.\<close>

lemma decide_tombs:
  assumes "\<And>x s. x \<in> set vs \<Longrightarrow> range_deleted (user_key (fst x)) s tombs = range_deleted (user_key (fst x)) s tombs'"
  shows "decide gc tombs vs = decide gc tombs' vs"
  using assms [of "hd vs"] by (cases vs) (auto simp: decide_def split: option.split value_type.split)

lemma range_deleted_append:
  "range_deleted u s (ts @ ts') \<longleftrightarrow> range_deleted u s ts \<or> range_deleted u s ts'"
  by (simp add: range_deleted_def)

lemma run_tombs_later:
  "\<forall>x \<in> set ys. u < user_key (fst x) \<Longrightarrow> \<not> range_deleted u s (run_tombs ys)"
  by (auto simp: range_deleted_def run_tombs_def list_ex_iff to_tombstone_def rt_covers_def
      range_tombstone_covers_def dest!: bspec)

lemma run_tombs_append: "run_tombs (xs @ ys) = run_tombs xs @ run_tombs ys"
  by (simp add: run_tombs_def)

definition kept_row :: "compact_gc_options \<Rightarrow> range_tombstone list \<Rightarrow> entry list \<Rightarrow> entry \<Rightarrow> bool" where
  "kept_row gc tombs ys x \<longleftrightarrow> x \<in> set ys \<and>
     (if kind (fst x) = RangeDeletion then \<not> drop_tombs gc
      else x \<in> set (decide gc tombs (filter (\<lambda>y. user_key (fst y) = user_key (fst x)) (points_of ys))))"

lemma close_run_rows:
  assumes r: "btree_ok r" "\<And>z. z \<in> set r \<Longrightarrow> user_key (fst z) = u"
    and rest: "\<And>z. z \<in> set rest \<Longrightarrow> u < user_key (fst z)"
    and IH: "\<And>ts. x \<in> set (close_all gc ts rs) \<longleftrightarrow> kept_row gc (ts @ run_tombs rest) rest x"
  shows "x \<in> set (close_all gc ts (r # rs)) \<longleftrightarrow> kept_row gc (ts @ run_tombs (r @ rest)) (r @ rest) x"
proof -
  have one: "distinct r" "one_user r"
    using r unfolding btree_ok_def strict_sorted_iff distinct_map one_user_def by blast+
  note out = close_out_rows [OF one, of x gc "ts @ run_tombs r"]
  show ?thesis
  proof (cases "user_key (fst x) = u")
    case True
    then have x: "x \<notin> set rest" using rest by blast
    have "filter (\<lambda>z. user_key (fst z) = u) (points_of r) = points_of r"
      using r(2) by (intro filter_True) simp
    moreover have "filter (\<lambda>z. user_key (fst z) = u) (points_of rest) = []"
      using rest by (intro filter_False) force
    moreover have "decide gc (ts @ run_tombs r) (points_of r) = decide gc (ts @ run_tombs (r @ rest)) (points_of r)"
      using r(2) run_tombs_later [of rest] rest
      by (intro decide_tombs) (simp add: range_deleted_append run_tombs_append)
    ultimately show ?thesis
      using out x IH [of "ts @ run_tombs r"] unfolding kept_row_def filter_append True by simp
  next
    case False
    then have x: "x \<notin> set r" using r(2) by blast
    have "filter (\<lambda>z. user_key (fst z) = user_key (fst x)) (points_of r) = []"
      using False r(2) by (intro filter_False) force
    then show ?thesis
      using out x IH [of "ts @ run_tombs r"] by (simp add: kept_row_def run_tombs_append)
  qed
qed

lemma close_all_rows:
  assumes "btree_ok ys"
  shows "x \<in> set (close_all gc ts (runs ys)) \<longleftrightarrow> kept_row gc (ts @ run_tombs ys) ys x"
  using assms
proof (induction ys arbitrary: ts rule: runs.induct)
  case (2 y zs)
  let ?same = "\<lambda>z. user_key (fst z) = user_key (fst y)"
  let ?r = "y # takeWhile ?same zs" and ?rest = "dropWhile ?same zs"
  have split: "y # zs = ?r @ ?rest" by simp
  have ok: "btree_ok ?r" "btree_ok ?rest" using 2(2) btree_ok_appendD [of ?r ?rest] by simp_all
  have later: "user_key (fst y) < user_key (fst z)" if "z \<in> set ?rest" for z
    using dropWhile_user [of "fst y" "snd y" zs] 2(2) that by auto
  have run: "user_key (fst z) = user_key (fst y)" if "z \<in> set ?r" for z
    using that by (auto dest: set_takeWhileD)
  show ?case
    unfolding runs.simps(2) using close_run_rows [OF ok(1) run later 2(1) [OF ok(2)]] by simp
qed (simp add: kept_row_def)

text \<open>Rows taken run by run from sorted rows stay sorted.\<close>

lemma runs_step:
  assumes "btree_ok (y # zs)"
  defines "r \<equiv> y # takeWhile (\<lambda>z. user_key (fst z) = user_key (fst y)) zs"
    and "rest \<equiv> dropWhile (\<lambda>z. user_key (fst z) = user_key (fst y)) zs"
  shows "btree_ok r" "btree_ok rest" "\<forall>a \<in> set r. \<forall>b \<in> set rest. fst a < fst b"
    "runs (y # zs) = r # runs rest"
proof -
  have "y # zs = r @ rest" by (simp add: r_def rest_def)
  then have "sorted_wrt (<) (map fst r @ map fst rest)" using assms(1) by (simp add: btree_ok_def)
  then show "btree_ok r" "btree_ok rest" "\<forall>a \<in> set r. \<forall>b \<in> set rest. fst a < fst b"
    by (auto simp: btree_ok_def sorted_wrt_append)
  show "runs (y # zs) = r # runs rest" by (simp add: r_def rest_def)
qed

lemma btree_ok_append:
  "\<lbrakk>btree_ok xs; btree_ok ys; \<forall>a \<in> A. \<forall>b \<in> B. fst a < fst b; set xs \<subseteq> A; set ys \<subseteq> B\<rbrakk> \<Longrightarrow> btree_ok (xs @ ys)"
  by (auto simp: btree_ok_def sorted_wrt_append)

lemma close_all_sorted: "btree_ok ys \<Longrightarrow> btree_ok (close_all gc ts (runs ys))"
proof (induction ys arbitrary: ts rule: runs.induct)
  case (2 y zs)
  note step = runs_step [OF 2(2)]
  have r: "set (close_out gc t r) \<subseteq> set r" for t r
    unfolding close_out_def by (auto dest: set_zip_leftD)
  have rest: "set (close_all gc t (runs zs)) \<subseteq> set zs" if "btree_ok zs" for t zs
    using close_all_rows [OF that] by (auto simp: kept_row_def)
  show ?case
    unfolding step(4) close_all.simps
    by (rule btree_ok_append [OF close_out_sorted [OF step(1)] 2(1) [OF step(2)] step(3) r rest [OF step(2)]])
qed (simp add: btree_ok_def)

lemma runs_concat:
  assumes "btree_ok ys" "\<And>r. btree_ok r \<Longrightarrow> btree_ok (f r)" "\<And>r. r \<noteq> [] \<Longrightarrow> set (f r) \<subseteq> set r"
  shows "btree_ok (concat (map f (runs ys))) \<and> set (concat (map f (runs ys))) \<subseteq> set ys"
  using assms(1)
proof (induction ys rule: runs.induct)
  case (2 y zs)
  note step = runs_step [OF 2(2)]
  note IH = 2(1) [OF step(2)]
  have "btree_ok (concat (map f (runs (y # zs))))"
    unfolding step(4) list.map concat.simps
    by (rule btree_ok_append [OF assms(2) [OF step(1)] conjunct1 [OF IH] step(3) assms(3) conjunct2 [OF IH]]) simp
  moreover have "set (concat (map f (runs (y # zs)))) \<subseteq> set (y # zs)"
    using IH assms(3) [of "y # takeWhile (\<lambda>z. user_key (fst z) = user_key (fst y)) zs"]
    by (auto dest: set_takeWhileD set_dropWhileD)
  ultimately show ?case ..
qed (simp add: btree_ok_def)

lemma retained_sorted: "btree_ok vs \<Longrightarrow> btree_ok (retained oldest newer vs) \<and> set (retained oldest newer vs) \<subseteq> set vs"
  by (induction oldest newer vs rule: retained.induct) (auto simp: btree_ok_def)

lemma gc_snapshot_run_sorted: "btree_ok vs \<Longrightarrow> btree_ok (gc_snapshot_run oldest bottom vs)"
  using retained_sorted [of vs oldest None]
  by (simp add: gc_snapshot_run_def Let_def snapshot_keep_retained btree_ok_def)

lemma latest_keep_sorted: "btree_ok (latest_keep bottom tombs x) \<and> set (latest_keep bottom tombs x) \<subseteq> {x}"
  by (cases x) (simp add: btree_ok_def split: value_type.split)

section \<open>The batch rewrite keeps the same rows\<close>

lemma latest_rows_decide:
  assumes "btree_ok m" "oldest_snapshot gc = None" "keep_only_latest gc"
  shows "run_head m x \<and> x \<in> set (latest_keep (bottommost gc) tombs x) \<longleftrightarrow>
    x \<in> set (decide gc tombs (filter (\<lambda>y. user_key (fst y) = user_key (fst x)) m))"
proof (cases "filter (\<lambda>y. user_key (fst y) = user_key (fst x)) m")
  case Nil
  then have "\<not> run_head m x" by (auto simp: run_head_def filter_empty_conv)
  with Nil assms show ?thesis by (simp add: decide_def)
next
  case (Cons h hs)
  have "sorted_wrt (<) (map fst (h # hs))"
    using assms(1) unfolding Cons [symmetric] by (simp add: btree_ok_def sorted_wrt_map sorted_wrt_filter)
  then have le: "fst h \<le> fst y" if "y \<in> set m" "user_key (fst y) = user_key (fst x)" for y
  proof -
    have "y \<in> set (h # hs)" using that unfolding Cons [symmetric] by simp
    with \<open>sorted_wrt (<) (map fst (h # hs))\<close> show ?thesis by auto
  qed
  have "h \<in> set (filter (\<lambda>y. user_key (fst y) = user_key (fst x)) m)" unfolding Cons by simp
  then have h: "h \<in> set m" "user_key (fst h) = user_key (fst x)" by simp_all
  have inj: "inj_on fst (set m)" using assms(1) by (simp add: btree_ok_def strict_sorted_iff distinct_map)
  have "run_head m x \<longleftrightarrow> x = h"
    using h le inj unfolding run_head_def by (metis antisym inj_onD)
  moreover have "x = h" if "x \<in> set (latest_keep (bottommost gc) tombs h)"
    using latest_keep_sorted [of "bottommost gc" tombs h] that by blast
  ultimately show ?thesis using assms by (auto simp: decide_def Cons)
qed

lemma gc_walk_rows:
  assumes ok: "btree_ok m" and g: "gc_gather (min_sequence gc) A ([], []) = (m, dels)"
  shows "\<exists>W. btree_ok W \<and> set W \<subseteq> set m \<and>
    (\<forall>x. x \<in> set W \<longleftrightarrow>
      x \<in> set (decide gc (map to_tombstone dels) (filter (\<lambda>y. user_key (fst y) = user_key (fst x)) m))) \<and>
    gc_compact_entries A gc = (if drop_tombs gc then W else sort_key fst (W @ dels))"
proof (cases "oldest_snapshot gc")
  case (Some oldest)
  let ?W = "gc_snapshot_walk oldest (bottommost gc) m []"
  have "btree_ok ?W \<and> set ?W \<subseteq> set m"
    unfolding gc_snapshot_walk_runs append_Nil
    by (rule runs_concat [OF ok gc_snapshot_run_sorted gc_snapshot_run_subset])
  then show ?thesis
    using gc_snapshot_rows [OF ok] Some g
    by (intro exI [of _ ?W]) (simp add: decide_def gc_compact_entries_def gc_snapshot_safe_def drop_tombs_def)
next
  case None
  let ?W = "if keep_only_latest gc then gc_latest_walk (bottommost gc) (map to_tombstone dels) m [] else m"
  have "set (latest_keep (bottommost gc) (map to_tombstone dels) (hd r)) \<subseteq> set r" if "r \<noteq> []" for r
    using latest_keep_sorted hd_in_set [OF that] by blast
  then have walk: "btree_ok (gc_latest_walk (bottommost gc) (map to_tombstone dels) m []) \<and>
      set (gc_latest_walk (bottommost gc) (map to_tombstone dels) m []) \<subseteq> set m"
    unfolding gc_latest_walk_runs append_Nil by (intro runs_concat [OF ok]) (simp_all add: latest_keep_sorted)
  have rows: "x \<in> set ?W \<longleftrightarrow>
      x \<in> set (decide gc (map to_tombstone dels) (filter (\<lambda>y. user_key (fst y) = user_key (fst x)) m))" for x
  proof (cases "keep_only_latest gc")
    case True
    then show ?thesis
      by (simp only: if_True gc_latest_rows [OF ok] latest_rows_decide [OF ok None True])
  qed (simp add: decide_def None)
  have "gc_compact_entries A gc = (if drop_tombs gc then ?W else sort_key fst (?W @ dels))"
    by (simp add: gc_compact_entries_def g None drop_tombs_def Let_def)
  moreover have "btree_ok ?W \<and> set ?W \<subseteq> set m" using walk ok by simp
  ultimately show ?thesis using rows by blast
qed

lemma remdups_adj_btree_ok:
  "sorted (map fst xs) \<Longrightarrow> consistent (set xs) \<Longrightarrow> btree_ok (remdups_adj xs)"
proof (induction xs rule: remdups_adj.induct)
  case (3 x y xs)
  have con: "consistent (set (y # xs))" using 3(4) by (simp add: consistent_def)
  show ?case
  proof (cases "x = y")
    case True
    then show ?thesis using 3 con by simp
  next
    case False
    then have "fst x \<noteq> fst y" using 3(4) by (auto simp: consistent_def)
    then have "\<forall>z \<in> set (y # xs). fst x < fst z" using 3(3) by fastforce
    moreover have "btree_ok (remdups_adj (y # xs))" using 3 con False by simp
    ultimately show ?thesis using False unfolding btree_ok_def by simp
  qed
qed (simp_all add: btree_ok_def)

lemma gc_compact_rows:
  assumes con: "consistent (set A)"
  defines "ys gc \<equiv> filter (\<lambda>x. min_sequence gc \<le> sequence (fst x)) (sort_key fst (remdups A))"
  shows "btree_ok (ys gc) \<and> btree_ok (remdups_adj (gc_compact_entries A gc)) \<and>
    (\<forall>x. x \<in> set (gc_compact_entries A gc) \<longleftrightarrow> kept_row gc (run_tombs (ys gc)) (ys gc) x) \<and>
    (distinct (filter (\<lambda>x. kind (fst x) = RangeDeletion) A) \<longrightarrow> distinct (gc_compact_entries A gc))"
proof -
  obtain m dels where g: "gc_gather (min_sequence gc) A ([], []) = (m, dels)" by fastforce
  note rows = gc_rows [OF con g]
  have "btree_ok (sort_key fst (remdups A))"
    using con by (auto simp: btree_ok_def strict_sorted_iff distinct_map consistent_def)
  then have ys: "btree_ok (ys gc)" "btree_ok (points_of (ys gc))"
    by (simp_all add: ys_def btree_ok_def sorted_wrt_map sorted_wrt_filter)
  have "set m = set (points_of (ys gc))" using rows by (auto simp: ys_def)
  with rows ys(2) have m: "m = points_of (ys gc)" using btree_ok_unique by blast
  have dels: "set dels = {x \<in> set (ys gc). kind (fst x) = RangeDeletion}" using rows by (auto simp: ys_def)
  have tombs: "decide gc (map to_tombstone dels) vs = decide gc (run_tombs (ys gc)) vs" for vs
    using dels by (intro decide_tombs) (simp add: range_deleted_def run_tombs_def list_ex_iff)
  obtain W where W: "btree_ok W" "set W \<subseteq> set m"
      "\<And>x. x \<in> set W \<longleftrightarrow> x \<in> set (decide gc (run_tombs (ys gc)) (filter (\<lambda>y. user_key (fst y) = user_key (fst x)) m))"
      "gc_compact_entries A gc = (if drop_tombs gc then W else sort_key fst (W @ dels))"
    using gc_walk_rows [OF conjunct1 [OF rows] g] unfolding tombs by blast
  have out: "set (gc_compact_entries A gc) = set W \<union> (if drop_tombs gc then {} else set dels)"
    by (simp add: W(4))
  have "set W \<union> set dels \<subseteq> set A" using W(2) rows by auto
  then have "consistent (set (gc_compact_entries A gc))"
    using inj_on_subset [OF con [unfolded consistent_def], of "set W \<union> set dels"]
    unfolding out consistent_def by (auto intro: inj_on_subset)
  moreover have "sorted (map fst (gc_compact_entries A gc))" using W(1,4) by (simp add: btree_ok_def strict_sorted_iff)
  ultimately have "btree_ok (remdups_adj (gc_compact_entries A gc))" by (rule remdups_adj_btree_ok [rotated])
  moreover have "x \<in> set (gc_compact_entries A gc) \<longleftrightarrow> kept_row gc (run_tombs (ys gc)) (ys gc) x" for x
  proof -
    have "x \<in> set W \<Longrightarrow> x \<in> set (ys gc) \<and> kind (fst x) \<noteq> RangeDeletion" using W(2) m by auto
    then show ?thesis unfolding kept_row_def out m [symmetric] W(3) [symmetric] dels by auto
  qed
  moreover have "distinct (gc_compact_entries A gc)" if d: "distinct (filter (\<lambda>x. kind (fst x) = RangeDeletion) A)"
  proof -
    have "dels = filter (\<lambda>x. min_sequence gc \<le> sequence (fst x)) (filter (\<lambda>x. kind (fst x) = RangeDeletion) A)"
      using rows by (simp add: conj_commute)
    then have "distinct dels" using d by (metis distinct_filter)
    moreover have "distinct W" using W(1) by (simp add: btree_ok_def strict_sorted_iff distinct_map)
    moreover have "set W \<inter> set dels = {}" using W(2) dels m by auto
    ultimately show ?thesis unfolding W(4) by simp
  qed
  ultimately show ?thesis using ys(1) by blast
qed


definition sample_copies :: "entry list list" where
  "sample_copies =
     [[(InternalKey [1] 4 RangeDeletion, [2]), (InternalKey [1] 2 Value, [8]), (InternalKey [2] 3 Value, [9])],
      [(InternalKey [1] 4 RangeDeletion, [2]), (InternalKey [2] 3 Value, [9]), (InternalKey [3] 5 Deletion, [])]]"


end
