(* ===== verification/Stream_Heap.thy ===== *)
theory Stream_Heap
  imports Visibility Batch "HOL-Library.Multiset"
begin

text \<open>
  The binary heap of stream indices in \<open>StreamingVisibleIter\<close> (\<open>merge_kernel.rs\<close>): the sift
  decision, sift-down, push, pop and bottom-up heapify over an order of the indices.  The
  locale \<open>index_order\<close> is what the heap needs of that order; the order by head rows provides it.
\<close>

section \<open>Operations\<close>

datatype sift_step = Stay | SwapLeft | SwapRight

definition sift_decide :: "bool \<Rightarrow> bool \<Rightarrow> bool \<Rightarrow> sift_step" where
  "sift_decide r_exists r_lt_l best_lt_hole =
     (if \<not> best_lt_hole then Stay
      else if r_exists \<and> r_lt_l then SwapRight
      else SwapLeft)"

definition swap_at :: "'a list \<Rightarrow> nat \<Rightarrow> nat \<Rightarrow> 'a list" where
  "swap_at xs i j = xs[i := xs ! j, j := xs ! i]"

lemma length_swap_at [simp]: "length (swap_at xs i j) = length xs"
  by (simp add: swap_at_def)

definition sift_choice :: "('a \<Rightarrow> 'a \<Rightarrow> bool) \<Rightarrow> 'a list \<Rightarrow> nat \<Rightarrow> sift_step" where
  "sift_choice lt heap hole =
     (let l = 2 * hole + 1; r = l + 1;
          r_in = r < length heap;
          r_lt_l = r_in \<and> lt (heap ! r) (heap ! l);
          best = if r_lt_l then r else l;
          best_lt_hole = lt (heap ! best) (heap ! hole)
      in sift_decide r_in r_lt_l best_lt_hole)"

function sift_down :: "('a \<Rightarrow> 'a \<Rightarrow> bool) \<Rightarrow> 'a list \<Rightarrow> nat \<Rightarrow> 'a list" where
  "sift_down lt heap hole =
     (if length heap \<le> 2 * hole + 1 then heap
      else case sift_choice lt heap hole of
          Stay \<Rightarrow> heap
        | SwapLeft \<Rightarrow> sift_down lt (swap_at heap (2 * hole + 1) hole) (2 * hole + 1)
        | SwapRight \<Rightarrow> sift_down lt (swap_at heap (2 * hole + 2) hole) (2 * hole + 2))"
  by pat_completeness auto
termination by (relation "measure (\<lambda>(lt, heap, hole). length heap - hole)") auto

declare sift_down.simps [simp del]

function sift_up :: "('a \<Rightarrow> 'a \<Rightarrow> bool) \<Rightarrow> 'a list \<Rightarrow> nat \<Rightarrow> 'a list" where
  "sift_up lt heap hole =
     (if 0 < hole then
        let parent = (hole - 1) div 2
        in if lt (heap ! hole) (heap ! parent) then sift_up lt (swap_at heap hole parent) parent else heap
      else heap)"
  by pat_completeness auto
termination by (relation "measure (\<lambda>(lt, heap, hole). hole)") auto

declare sift_up.simps [simp del]

definition heap_push :: "('a \<Rightarrow> 'a \<Rightarrow> bool) \<Rightarrow> 'a list \<Rightarrow> 'a \<Rightarrow> 'a list" where
  "heap_push lt heap i = sift_up lt (heap @ [i]) (length heap)"

definition heap_pop :: "('a \<Rightarrow> 'a \<Rightarrow> bool) \<Rightarrow> 'a list \<Rightarrow> ('a \<times> 'a list) option" where
  "heap_pop lt heap =
     (case heap of
        [] \<Rightarrow> None
      | tip # _ \<Rightarrow>
          let popped = last heap; rest = butlast heap
          in if \<not> batch_is_empty (length rest) then Some (tip, sift_down lt (rest[0 := popped]) 0)
             else Some (tip, rest))"

definition heapify :: "('a \<Rightarrow> 'a \<Rightarrow> bool) \<Rightarrow> 'a list \<Rightarrow> 'a list" where
  "heapify lt heap = fold (\<lambda>start h. sift_down lt h start) (rev [0..<length heap div 2]) heap"

section \<open>Elements are kept\<close>

lemma nth_swap_at:
  "k < length xs \<Longrightarrow> i < length xs \<Longrightarrow> j < length xs \<Longrightarrow>
     swap_at xs i j ! k = (if k = j then xs ! i else if k = i then xs ! j else xs ! k)"
  by (simp add: swap_at_def nth_list_update)

lemma mset_swap_at: "i < length xs \<Longrightarrow> j < length xs \<Longrightarrow> mset (swap_at xs i j) = mset xs"
  unfolding swap_at_def by (rule mset_swap)

lemma sift_choice_right: "sift_choice lt heap hole = SwapRight \<Longrightarrow> 2 * hole + 2 < length heap"
  by (auto simp: sift_choice_def sift_decide_def Let_def split: if_splits)

lemma sift_down_mset: "mset (sift_down lt heap hole) = mset heap"
proof (induction lt heap hole rule: sift_down.induct)
  case (1 lt heap hole)
  then show ?case
    using sift_choice_right [of lt heap hole]
    by (cases "sift_choice lt heap hole") (auto simp: sift_down.simps [of lt heap hole] mset_swap_at)
qed

lemma sift_up_mset: "hole < length heap \<Longrightarrow> mset (sift_up lt heap hole) = mset heap"
proof (induction lt heap hole rule: sift_up.induct)
  case (1 lt heap hole)
  then show ?case by (auto simp: sift_up.simps [of lt heap hole] Let_def mset_swap_at)
qed

lemma heap_push_mset: "mset (heap_push lt heap i) = add_mset i (mset heap)"
  by (simp add: heap_push_def sift_up_mset)

lemma heapify_mset: "mset (heapify lt heap) = mset heap"
proof -
  have "mset (fold (\<lambda>start h. sift_down lt h start) js h) = mset h" for js h
    by (induction js arbitrary: h) (simp_all add: sift_down_mset)
  then show ?thesis by (simp add: heapify_def)
qed

lemma heap_pop_mset: "heap_pop lt heap = Some (tip, rest) \<Longrightarrow> mset heap = add_mset tip (mset rest)"
proof (cases heap)
  case (Cons x xs)
  assume "heap_pop lt heap = Some (tip, rest)"
  with Cons show ?thesis
    by (cases xs rule: rev_cases)
      (auto simp: heap_pop_def Let_def batch_is_empty_def sift_down_mset butlast_append split: if_splits)
qed (simp add: heap_pop_def)

lemma heap_pop_None [simp]: "heap_pop lt heap = None \<longleftrightarrow> heap = []"
  by (cases heap) (simp_all add: heap_pop_def Let_def)

section \<open>The heap property\<close>

locale index_order =
  fixes lt :: "'a \<Rightarrow> 'a \<Rightarrow> bool"
  assumes lt_asym: "lt a b \<Longrightarrow> \<not> lt b a"
    and lt_neg_trans: "\<not> lt b a \<Longrightarrow> \<not> lt c b \<Longrightarrow> \<not> lt c a"
begin

definition le :: "'a \<Rightarrow> 'a \<Rightarrow> bool" where
  "le a b \<longleftrightarrow> \<not> lt b a"

lemma le_refl [simp]: "le a a"
  using lt_asym by (auto simp: le_def)

lemma le_trans: "le a b \<Longrightarrow> le b c \<Longrightarrow> le a c"
  using lt_neg_trans by (auto simp: le_def)

lemma lt_le: "lt a b \<Longrightarrow> le a b"
  using lt_asym by (auto simp: le_def)

definition heap_from :: "nat \<Rightarrow> 'a list \<Rightarrow> bool" where
  "heap_from m h \<longleftrightarrow> (\<forall>i < length h. 0 < i \<and> m \<le> (i - 1) div 2 \<longrightarrow> le (h ! ((i - 1) div 2)) (h ! i))"

definition hole_down :: "nat \<Rightarrow> 'a list \<Rightarrow> nat \<Rightarrow> bool" where
  "hole_down m h hole \<longleftrightarrow>
     (\<forall>i < length h. 0 < i \<and> m \<le> (i - 1) div 2 \<and> (i - 1) div 2 \<noteq> hole \<longrightarrow> le (h ! ((i - 1) div 2)) (h ! i)) \<and>
     (\<forall>i < length h. 0 < i \<and> (i - 1) div 2 = hole \<and> 0 < hole \<and> m \<le> (hole - 1) div 2 \<longrightarrow>
        le (h ! ((hole - 1) div 2)) (h ! i))"

text \<open>A swap of the hole with its smallest child moves the violation to the child.\<close>

lemma hole_down_swap:
  assumes hd: "hole_down m h hole" and m: "m \<le> hole"
    and b: "b < length h" "0 < b" "(b - 1) div 2 = hole" "lt (h ! b) (h ! hole)"
    and least: "\<And>c. c < length h \<Longrightarrow> 0 < c \<Longrightarrow> (c - 1) div 2 = hole \<Longrightarrow> le (h ! b) (h ! c)"
  shows "hole_down m (swap_at h b hole) b"
proof -
  have hole: "hole < b" using b(2,3) by auto
  have nth: "swap_at h b hole ! k = (if k = hole then h ! b else if k = b then h ! hole else h ! k)"
    if "k < length h" for k
    using that b(1) hole by (auto simp: nth_swap_at)
  have par: "(i - 1) div 2 < i" if "0 < i" for i :: nat using that by linarith
  have "le (swap_at h b hole ! ((i - 1) div 2)) (swap_at h b hole ! i)"
    if i: "i < length h" "0 < i" "m \<le> (i - 1) div 2" "(i - 1) div 2 \<noteq> b" for i
  proof -
    have p: "(i - 1) div 2 < length h" using par [OF i(2)] i(1) by linarith
    consider "i = b" | "i = hole" | "i \<noteq> b" "i \<noteq> hole" "(i - 1) div 2 = hole" | "i \<noteq> b" "i \<noteq> hole" "(i - 1) div 2 \<noteq> hole" by blast
    then show ?thesis
    proof cases
      case 1
      then show ?thesis using nth [OF p] nth [OF i(1)] b hole lt_le by simp
    next
      case 2
      have "le (h ! ((hole - 1) div 2)) (h ! b)" using hd b i 2 by (simp add: hole_down_def)
      then show ?thesis using 2 nth [OF p] nth [OF i(1)] i par [OF i(2)] by simp
    next
      case 3
      then show ?thesis using nth [OF p] nth [OF i(1)] least [OF i(1,2)] by simp
    next
      case 4
      then show ?thesis using nth [OF p] nth [OF i(1)] i hd by (simp add: hole_down_def)
    qed
  qed
  moreover have "le (swap_at h b hole ! ((b - 1) div 2)) (swap_at h b hole ! i)"
    if i: "i < length h" "0 < i" "(i - 1) div 2 = b" for i
  proof -
    have "b < i" "m \<le> (i - 1) div 2" "(i - 1) div 2 \<noteq> hole" using par [OF i(2)] i(3) m hole by simp_all
    then have "le (h ! b) (h ! i)" using hd i unfolding hole_down_def by blast
    then show ?thesis using i b hole \<open>b < i\<close> nth [OF i(1)] nth [of hole] by simp
  qed
  ultimately show ?thesis by (simp add: hole_down_def)
qed

lemma hole_down_leaf: "hole_down m h hole \<Longrightarrow> length h \<le> 2 * hole + 1 \<Longrightarrow> heap_from m h"
  by (auto simp: hole_down_def heap_from_def)

lemma hole_down_stay:
  assumes "hole_down m h hole"
    and "\<And>c. c < length h \<Longrightarrow> 0 < c \<Longrightarrow> (c - 1) div 2 = hole \<Longrightarrow> le (h ! hole) (h ! c)"
  shows "heap_from m h"
  using assms unfolding hole_down_def heap_from_def by blast

lemma sift_choice_meets:
  assumes "2 * hole + 1 < length h"
  shows "case sift_choice lt h hole of
      Stay \<Rightarrow> (\<forall>c < length h. 0 < c \<and> (c - 1) div 2 = hole \<longrightarrow> le (h ! hole) (h ! c))
    | SwapLeft \<Rightarrow> lt (h ! (2 * hole + 1)) (h ! hole) \<and>
        (\<forall>c < length h. 0 < c \<and> (c - 1) div 2 = hole \<longrightarrow> le (h ! (2 * hole + 1)) (h ! c))
    | SwapRight \<Rightarrow> 2 * hole + 2 < length h \<and> lt (h ! (2 * hole + 2)) (h ! hole) \<and>
        (\<forall>c < length h. 0 < c \<and> (c - 1) div 2 = hole \<longrightarrow> le (h ! (2 * hole + 2)) (h ! c))"
proof -
  let ?l = "2 * hole + 1" and ?r = "2 * hole + 2"
  have child: "0 < c \<and> (c - 1) div 2 = hole \<longleftrightarrow> c = ?l \<or> c = ?r" for c by auto
  have order: "?r < length h \<and> lt (h ! ?r) (h ! ?l) \<Longrightarrow> le (h ! ?r) (h ! ?l)"
      "\<not> (?r < length h \<and> lt (h ! ?r) (h ! ?l)) \<Longrightarrow> ?r < length h \<Longrightarrow> le (h ! ?l) (h ! ?r)"
    using lt_le by (auto simp: le_def)
  note trans = le_trans [of "h ! hole" "h ! ?r" "h ! ?l"] le_trans [of "h ! hole" "h ! ?l" "h ! ?r"]
  show ?thesis
  proof (cases "?r < length h \<and> lt (h ! ?r) (h ! ?l)")
    case True
    then have "sift_choice lt h hole = (if lt (h ! ?r) (h ! hole) then SwapRight else Stay)"
      by (simp add: sift_choice_def sift_decide_def Let_def)
    then show ?thesis using True order(1) trans(1) unfolding child by (auto simp: le_def [of "h ! hole"])
  next
    case False
    then have "sift_choice lt h hole = (if lt (h ! ?l) (h ! hole) then SwapLeft else Stay)"
      by (auto simp: sift_choice_def sift_decide_def Let_def)
    then show ?thesis using order(2) [OF False] trans(2) unfolding child by (auto simp: le_def [of "h ! hole"])
  qed
qed

lemma sift_down_heap:
  assumes "hole_down m h hole" "m \<le> hole"
  shows "heap_from m (sift_down lt h hole)"
  using assms
proof (induction "length h - hole" arbitrary: h hole rule: less_induct)
  case less
  show ?case
  proof (cases "length h \<le> 2 * hole + 1")
    case True
    then show ?thesis using hole_down_leaf [OF less(2)] by (simp add: sift_down.simps)
  next
    case False
    then have n: "2 * hole + 1 < length h" by simp
    have step: "heap_from m (sift_down lt (swap_at h b hole) b)"
      if "b = 2 * hole + 1 \<or> b = 2 * hole + 2" "b < length h" "lt (h ! b) (h ! hole)"
        "\<forall>c < length h. 0 < c \<and> (c - 1) div 2 = hole \<longrightarrow> le (h ! b) (h ! c)" for b
    proof (rule less(1))
      show "length (swap_at h b hole) - b < length h - hole" "m \<le> b" using that(1,2) less(3) by auto
      show "hole_down m (swap_at h b hole) b"
        using that by (intro hole_down_swap [OF less(2,3)]) auto
    qed
    show ?thesis
      using sift_choice_meets [OF n] step [of "2 * hole + 1"] step [of "2 * hole + 2"] hole_down_stay [OF less(2)] n
      by (cases "sift_choice lt h hole") (simp_all add: sift_down.simps [of lt h hole])
  qed
qed

definition hole_up :: "'a list \<Rightarrow> nat \<Rightarrow> bool" where
  "hole_up h hole \<longleftrightarrow>
     (\<forall>i < length h. 0 < i \<and> i \<noteq> hole \<longrightarrow> le (h ! ((i - 1) div 2)) (h ! i)) \<and>
     (\<forall>i < length h. 0 < i \<and> (i - 1) div 2 = hole \<and> 0 < hole \<longrightarrow> le (h ! ((hole - 1) div 2)) (h ! i))"

lemma hole_up_swap:
  assumes hu: "hole_up h hole" and hole: "0 < hole" "hole < length h"
    and lt: "lt (h ! hole) (h ! ((hole - 1) div 2))"
  shows "hole_up (swap_at h hole ((hole - 1) div 2)) ((hole - 1) div 2)"
proof -
  let ?p = "(hole - 1) div 2"
  have p: "?p < hole" using hole by linarith
  have par: "(i - 1) div 2 < i" if "0 < i" for i :: nat using that by linarith
  have nth: "swap_at h hole ?p ! k = (if k = ?p then h ! hole else if k = hole then h ! ?p else h ! k)"
    if "k < length h" for k
    using that hole p by (simp add: nth_swap_at)
  have up: "le (h ! ((i - 1) div 2)) (h ! i)" if "i < length h" "0 < i" "i \<noteq> hole" for i
    using hu that unfolding hole_up_def by blast
  have "le (swap_at h hole ?p ! ((i - 1) div 2)) (swap_at h hole ?p ! i)"
    if i: "i < length h" "0 < i" "i \<noteq> ?p" for i
  proof -
    have q: "(i - 1) div 2 < length h" using par [OF i(2)] i(1) by linarith
    consider "i = hole" | "i \<noteq> hole" "(i - 1) div 2 = ?p" | "i \<noteq> hole" "(i - 1) div 2 = hole"
      | "i \<noteq> hole" "(i - 1) div 2 \<noteq> ?p" "(i - 1) div 2 \<noteq> hole" by blast
    then show ?thesis
    proof cases
      case 1
      then show ?thesis using nth [OF q] nth [OF i(1)] lt_le [OF lt] i by simp
    next
      case 2
      then show ?thesis using nth [OF q] nth [OF i(1)] le_trans [OF lt_le [OF lt]] up [OF i(1,2)] i by simp
    next
      case 3
      have "le (h ! ?p) (h ! i)" using hu i hole 3 unfolding hole_up_def by blast
      then show ?thesis using 3 nth [OF q] nth [OF i(1)] i p by simp
    next
      case 4
      then show ?thesis using nth [OF q] nth [OF i(1)] up [OF i(1,2)] i by simp
    qed
  qed
  moreover have "le (swap_at h hole ?p ! ((?p - 1) div 2)) (swap_at h hole ?p ! i)"
    if i: "i < length h" "0 < i" "(i - 1) div 2 = ?p" "0 < ?p" for i
  proof -
    have lp: "?p < length h" using p hole by simp
    have pp: "(?p - 1) div 2 < ?p" using par [OF i(4)] .
    have a: "le (h ! ((?p - 1) div 2)) (h ! ?p)" using up [OF lp i(4)] p by simp
    have "le (h ! ?p) (h ! i)" if "i \<noteq> hole" using up [OF i(1,2) that] i(3) by simp
    then show ?thesis using le_trans [OF a] a nth [OF i(1)] nth [of "(?p - 1) div 2"] pp lp p i by auto
  qed
  ultimately show ?thesis by (simp add: hole_up_def)
qed

lemma sift_up_heap: "hole_up h hole \<Longrightarrow> hole < length h \<Longrightarrow> heap_from 0 (sift_up lt h hole)"
proof (induction hole arbitrary: h rule: less_induct)
  case (less hole)
  show ?case
  proof (cases "0 < hole \<and> lt (h ! hole) (h ! ((hole - 1) div 2))")
    case True
    then have step: "sift_up lt h hole = sift_up lt (swap_at h hole ((hole - 1) div 2)) ((hole - 1) div 2)"
      by (simp add: sift_up.simps [of lt h hole] Let_def)
    have p: "(hole - 1) div 2 < hole" using True by linarith
    show ?thesis
      unfolding step using less(1) [OF p hole_up_swap [OF less(2)]] True less(3) p by simp
  next
    case False
    then have "sift_up lt h hole = h" by (auto simp: sift_up.simps [of lt h hole] Let_def)
    moreover have "le (h ! ((hole - 1) div 2)) (h ! hole)" if "0 < hole" using False that by (simp add: le_def)
    ultimately show ?thesis using less(2) unfolding hole_up_def heap_from_def by auto
  qed
qed

lemma heap_push_heap: "heap_from 0 h \<Longrightarrow> heap_from 0 (heap_push lt h i)"
  unfolding heap_push_def
proof (rule sift_up_heap)
  assume h: "heap_from 0 h"
  have "(j - 1) div 2 < length h" if "j < length h" for j using that by linarith
  moreover have "(j - 1) div 2 \<noteq> length h" if "j < Suc (length h)" "0 < j" for j using that by linarith
  ultimately show "hole_up (h @ [i]) (length h)"
    using h by (auto simp: hole_up_def heap_from_def nth_append less_Suc_eq)
qed simp

lemma heap_from_hole: "heap_from (Suc m) h \<Longrightarrow> hole_down m h m"
  by (auto simp: heap_from_def hole_down_def le_Suc_eq)

lemma heapify_heap: "heap_from 0 (heapify lt h)"
proof -
  have "heap_from 0 (fold (\<lambda>start h. sift_down lt h start) (rev [0..<m]) h)" if "heap_from m h" for m h
    using that
  proof (induction m arbitrary: h)
    case (Suc m)
    then show ?case using sift_down_heap [OF heap_from_hole] by simp
  qed simp
  moreover have "heap_from (length h div 2) h" by (auto simp: heap_from_def)
  ultimately show ?thesis by (simp add: heapify_def)
qed

lemma heap_pop_heap:
  assumes "heap_from 0 h" "heap_pop lt h = Some (tip, rest)"
  shows "heap_from 0 rest"
proof (cases "length h \<le> 1")
  case True
  then have "rest = []" using assms(2) by (cases h) (auto simp: heap_pop_def Let_def batch_is_empty_def)
  then show ?thesis by (simp add: heap_from_def)
next
  case False
  then have rest: "rest = sift_down lt ((butlast h)[0 := last h]) 0"
    using assms(2) by (cases h) (auto simp: heap_pop_def Let_def batch_is_empty_def split: if_splits)
  have p: "(i - 1) div 2 < length h - 1" if "i < length h - 1" for i using that by linarith
  have "hole_down 0 ((butlast h)[0 := last h]) 0"
    using assms(1) p by (auto simp: hole_down_def heap_from_def nth_list_update nth_butlast)
  then show ?thesis unfolding rest by (rule sift_down_heap) simp
qed

lemma heap_tip_least: "heap_from 0 h \<Longrightarrow> i < length h \<Longrightarrow> le (h ! 0) (h ! i)"
proof (induction i rule: less_induct)
  case (less i)
  show ?case
  proof (cases "i = 0")
    case False
    then have "(i - 1) div 2 < i" by linarith
    with less False show ?thesis
      using le_trans [of "h ! 0" "h ! ((i - 1) div 2)" "h ! i"] by (auto simp: heap_from_def)
  qed simp
qed

lemma heap_pop_least:
  assumes "heap_from 0 h" "heap_pop lt h = Some (tip, rest)" "j \<in> set h"
  shows "le tip j"
proof -
  obtain i where "i < length h" "j = h ! i" using assms(3) by (auto simp: in_set_conv_nth)
  moreover have "tip = h ! 0" using assms(2) by (cases h) (auto simp: heap_pop_def Let_def split: if_splits)
  ultimately show ?thesis using heap_tip_least [OF assms(1)] by simp
qed

end

end
