(* ===== verification/Streaming.thy ===== *)
theory Streaming
  imports Stream_Heap
begin

text \<open>
  The streaming visible iterator of \<open>merge_kernel.rs\<close>: sorted point streams merged through
  the heap of their head rows, one window row per user key, filtered by liveness and cut by
  a limit.  Collecting the iterator is shown to end, not to panic, and to give exactly the
  rows of the batch read \<open>visible_range_limited\<close>.
\<close>

section \<open>State and operations\<close>

fun head_before :: "entry option \<Rightarrow> entry option \<Rightarrow> bool" where
  "head_before (Some (ka, _)) (Some (kb, _)) = (ikey_cmp ka kb = Less)"
| "head_before (Some _) None = True"
| "head_before None _ = False"

definition head_lt :: "entry option list \<Rightarrow> nat \<Rightarrow> nat \<Rightarrow> bool" where
  "head_lt heads a b = head_before (heads ! a) (heads ! b)"

record window_kv =
  wk_key :: bytes
  wk_value :: bytes
  wk_live :: bool

record visible_iter =
  vi_heap :: "nat list"
  vi_heads :: "entry option list"
  vi_streams :: "entry list list"
  vi_snapshot :: u64
  vi_range_dels :: "range_tombstone list"
  vi_start :: key_bound
  vi_end :: key_bound
  vi_limit :: "nat option"
  vi_emitted :: nat
  vi_skip_user :: "bytes option"

text \<open>A stream is the list of rows it still yields.\<close>

definition stream_head :: "entry list \<Rightarrow> entry option" where
  "stream_head s = (case s of [] \<Rightarrow> None | x # _ \<Rightarrow> Some x)"

definition first_head :: "key_bound \<Rightarrow> entry list \<Rightarrow> entry option" where
  "first_head end' s =
     (case stream_head s of
        None \<Rightarrow> None
      | Some (k, v) \<Rightarrow> if past_end (user_key k) end' then None else Some (k, v))"

definition from_point_streams ::
  "entry list list \<Rightarrow> range_tombstone list \<Rightarrow> u64 \<Rightarrow> key_bound \<Rightarrow> key_bound \<Rightarrow> nat option \<Rightarrow> visible_iter" where
  "from_point_streams streams range_dels snapshot start end' limit =
     (let heads = map (first_head end') streams;
          heap = filter (\<lambda>i. heads ! i \<noteq> None) [0..<length streams]
      in \<lparr>vi_heap = heapify (head_lt heads) heap, vi_heads = heads, vi_streams = map tl streams,
          vi_snapshot = snapshot, vi_range_dels = range_dels, vi_start = start, vi_end = end',
          vi_limit = limit, vi_emitted = 0, vi_skip_user = None\<rparr>)"

text \<open>The constructor splits each stream into its range tombstones and its point rows.\<close>

definition point_rows :: "u64 \<Rightarrow> entry list \<Rightarrow> entry list" where
  "point_rows snapshot s = filter (\<lambda>x. \<not> snapshot < sequence (fst x) \<and> kind (fst x) \<noteq> RangeDeletion) s"

definition visible_iter_new ::
  "entry list list \<Rightarrow> u64 \<Rightarrow> key_bound \<Rightarrow> key_bound \<Rightarrow> nat option \<Rightarrow> visible_iter" where
  "visible_iter_new streams snapshot start end' limit =
     from_point_streams (map (point_rows snapshot) streams)
       (concat (map (\<lambda>s. collect_range_tombstones s snapshot) streams)) snapshot start end' limit"

definition in_range :: "visible_iter \<Rightarrow> bytes \<Rightarrow> bool" where
  "in_range it u = user_key_in_range u (vi_start it) (vi_end it)"

definition beyond_end :: "visible_iter \<Rightarrow> bytes \<Rightarrow> bool" where
  "beyond_end it u = past_end u (vi_end it)"

definition skips_user :: "visible_iter \<Rightarrow> bytes \<Rightarrow> bool" where
  "skips_user it u = (case vi_skip_user it of Some s \<Rightarrow> u = s | None \<Rightarrow> False)"

definition emit :: "visible_iter \<Rightarrow> entry \<Rightarrow> window_kv \<times> visible_iter" where
  "emit it x =
     (let (ikey, v) = x;
          range_hidden = range_deleted (user_key ikey) (sequence ikey) (vi_range_dels it)
      in (\<lparr>wk_key = user_key ikey, wk_value = v, wk_live = get_live [kind ikey] [range_hidden]\<rparr>,
          it\<lparr>vi_skip_user := Some (user_key ikey)\<rparr>))"

text \<open>Pull the successor of a stream and take its head row.  An index out of range panics.\<close>

definition pull :: "visible_iter \<Rightarrow> nat \<Rightarrow> (entry option \<times> entry option \<times> visible_iter) option" where
  "pull it si =
     (if si < length (vi_streams it) \<and> si < length (vi_heads it) then
        Some (stream_head (vi_streams it ! si), vi_heads it ! si,
          it\<lparr>vi_streams := (vi_streams it)[si := tl (vi_streams it ! si)],
             vi_heads := (vi_heads it)[si := None]\<rparr>)
      else None)"

definition single_measure :: "visible_iter \<Rightarrow> nat \<Rightarrow> nat" where
  "single_measure it si = length (vi_streams it ! si) + (if vi_heads it ! si = None then 0 else 1)"

text \<open>The fast path: one live stream, no heap work.\<close>

definition single_refill :: "visible_iter \<Rightarrow> nat \<Rightarrow> entry option \<Rightarrow> visible_iter" where
  "single_refill it si head =
     (if head = None then it\<lparr>vi_heap := []\<rparr> else it\<lparr>vi_heads := (vi_heads it)[si := head]\<rparr>)"

lemma single_pull_measure:
  assumes "pull it si = Some (head, Some x, it')"
  shows "single_measure (single_refill it' si head) si < single_measure it si"
  using assms
  by (cases "vi_streams it ! si")
    (auto simp: pull_def single_refill_def single_measure_def stream_head_def split: if_splits)

function single_loop :: "visible_iter \<Rightarrow> nat \<Rightarrow> (window_kv option \<times> visible_iter) option" where
  "single_loop it si =
     (case pull it si of
        None \<Rightarrow> None
      | Some (head, cur, it1) \<Rightarrow>
          let it2 = single_refill it1 si head
          in case cur of
               None \<Rightarrow> Some (None, it2)
             | Some x \<Rightarrow>
                 if vi_snapshot it2 < sequence (fst x) then single_loop it2 si
                 else if skips_user it2 (user_key (fst x)) then single_loop it2 si
                 else if \<not> in_range it2 (user_key (fst x)) then
                   if beyond_end it2 (user_key (fst x))
                   then Some (None, it2\<lparr>vi_heap := [], vi_heads := (vi_heads it2)[si := None]\<rparr>)
                   else single_loop it2 si
                 else let (row, it3) = emit it2 x in Some (Some row, it3))"
  by pat_completeness auto
termination
  by (relation "measure (\<lambda>(it, si). single_measure it si)") (auto dest: single_pull_measure)

declare single_loop.simps [simp del]

definition heap_refill :: "visible_iter \<Rightarrow> nat \<Rightarrow> entry option \<Rightarrow> entry option \<Rightarrow> visible_iter" where
  "heap_refill it si head cur =
     (let beyond = (\<lambda>row. case row of Some (k, _) \<Rightarrow> beyond_end it (user_key k) | None \<Rightarrow> False)
      in if beyond cur then it
         else if beyond head then it
         else
           let it' = it\<lparr>vi_heads := (vi_heads it)[si := head]\<rparr>
           in if head \<noteq> None then it'\<lparr>vi_heap := heap_push (head_lt (vi_heads it')) (vi_heap it') si\<rparr> else it')"

definition iter_measure :: "visible_iter \<Rightarrow> nat" where
  "iter_measure it = sum_list (map length (vi_streams it)) + length (vi_heap it)"

lemma pull_measure:
  assumes "pull it si = Some (head, cur, it')"
  shows "iter_measure (heap_refill it' si head cur) \<le> iter_measure it"
    and "vi_heap it' = vi_heap it"
proof -
  have si: "si < length (vi_streams it)" using assms by (auto simp: pull_def split: if_splits)
  have len: "length (heap_push lt h i) = Suc (length h)" for lt h and i :: nat
    using heap_push_mset [of lt h i] by (metis size_add_mset size_mset)
  show "iter_measure (heap_refill it' si head cur) \<le> iter_measure it"
    using assms sum_length_update [OF si, of "tl (vi_streams it ! si)"]
    by (cases "vi_streams it ! si")
      (auto simp: pull_def iter_measure_def heap_refill_def stream_head_def len Let_def split: if_splits)
  show "vi_heap it' = vi_heap it" using assms by (auto simp: pull_def split: if_splits)
qed

lemma pop_pull_measure:
  assumes "heap_pop lt (vi_heap it) = Some (si, rest)" "pull (it\<lparr>vi_heap := rest\<rparr>) si = Some (head, cur, it')"
  shows "iter_measure (heap_refill it' si head cur) < iter_measure it"
proof -
  have "length (vi_heap it) = Suc (length rest)"
    using heap_pop_mset [OF assms(1)] by (metis size_add_mset size_mset)
  then show ?thesis using pull_measure(1) [OF assms(2)] by (simp add: iter_measure_def)
qed

function heap_loop :: "visible_iter \<Rightarrow> (window_kv option \<times> visible_iter) option" where
  "heap_loop it =
     (case heap_pop (head_lt (vi_heads it)) (vi_heap it) of
        None \<Rightarrow> Some (None, it)
      | Some (si, rest) \<Rightarrow>
          (case pull (it\<lparr>vi_heap := rest\<rparr>) si of
             None \<Rightarrow> None
           | Some (head, cur, it1) \<Rightarrow>
               let it2 = heap_refill it1 si head cur
               in case cur of
                    None \<Rightarrow> heap_loop it2
                  | Some x \<Rightarrow>
                      if vi_snapshot it2 < sequence (fst x) then heap_loop it2
                      else if skips_user it2 (user_key (fst x)) then heap_loop it2
                      else if \<not> in_range it2 (user_key (fst x)) then heap_loop it2
                      else let (row, it3) = emit it2 x in Some (Some row, it3)))"
  by pat_completeness auto
termination by (relation "measure iter_measure") (auto dest: pop_pull_measure)

declare heap_loop.simps [simp del]

definition next_window_kv :: "visible_iter \<Rightarrow> (window_kv option \<times> visible_iter) option" where
  "next_window_kv it =
     (if length (vi_heap it) = 1 then single_loop it (vi_heap it ! 0) else heap_loop it)"

text \<open>A window row consumes a row of the streams.\<close>

lemma pull_refill:
  assumes "pull it si = Some (head, cur, it')"
  shows "head = stream_head (vi_streams it ! si)" "cur = vi_heads it ! si"
    "si < length (vi_streams it)" "si < length (vi_heads it)"
    "it' = it\<lparr>vi_streams := (vi_streams it)[si := tl (vi_streams it ! si)], vi_heads := (vi_heads it)[si := None]\<rparr>"
  using assms by (auto simp: pull_def split: if_splits)

lemma single_loop_idle: "vi_heads it ! si = None \<Longrightarrow> single_loop it si \<noteq> Some (Some row, it')"
  by (simp add: single_loop.simps [of it si] pull_def Let_def)

lemma iter_measure_emit: "iter_measure (snd (emit it x)) = iter_measure it"
  by (simp add: emit_def iter_measure_def split: prod.split)

lemma single_refill_measure:
  assumes "pull it si = Some (head, cur, it1)" "vi_heap it \<noteq> []"
  shows "iter_measure (single_refill it1 si head) < iter_measure it"
    and "head \<noteq> None \<Longrightarrow> vi_heap (single_refill it1 si head) = vi_heap it"
    and "head = None \<Longrightarrow> vi_heads (single_refill it1 si head) ! si = None"
  using pull_refill [OF assms(1)] assms(2) sum_length_update [of si "vi_streams it" "tl (vi_streams it ! si)"]
  by (cases "vi_streams it ! si"; auto simp: single_refill_def iter_measure_def stream_head_def)+

lemma single_loop_cases:
  assumes "pull it si = Some (head, Some x, it1)"
  defines "it2 \<equiv> single_refill it1 si head"
  shows "single_loop it si =
    (if vi_snapshot it2 < sequence (fst x) \<or> skips_user it2 (user_key (fst x)) \<or>
        \<not> in_range it2 (user_key (fst x)) \<and> \<not> beyond_end it2 (user_key (fst x))
     then single_loop it2 si
     else if \<not> in_range it2 (user_key (fst x))
     then Some (None, it2\<lparr>vi_heap := [], vi_heads := (vi_heads it2)[si := None]\<rparr>)
     else Some (Some (fst (emit it2 x)), snd (emit it2 x)))"
  using assms(1) by (simp add: single_loop.simps [of it si] it2_def Let_def case_prod_unfold)

lemma single_loop_measure:
  "single_loop it si = Some (Some row, it') \<Longrightarrow> vi_heap it \<noteq> [] \<Longrightarrow> iter_measure it' < iter_measure it"
proof (induction "single_measure it si" arbitrary: it rule: less_induct)
  case less
  obtain head x it1 where p: "pull it si = Some (head, Some x, it1)"
    using less(2) by (auto simp: single_loop.simps [of it si] Let_def split: option.splits)
  let ?it2 = "single_refill it1 si head"
  note m = single_refill_measure [OF p less(3)]
  consider "single_loop ?it2 si = Some (Some row, it')" | "it' = snd (emit ?it2 x)"
    using less(2) unfolding single_loop_cases [OF p] by (auto split: if_splits)
  then show ?case
  proof cases
    case 1
    then have "head \<noteq> None" using m(3) single_loop_idle by blast
    then show ?thesis using less(1) [OF single_pull_measure [OF p] 1] m(1,2) less(3) by simp
  next
    case 2
    then show ?thesis using m(1) by (simp add: iter_measure_emit)
  qed
qed

lemma heap_loop_cases:
  assumes "heap_pop (head_lt (vi_heads it)) (vi_heap it) = Some (si, rest)"
    and "pull (it\<lparr>vi_heap := rest\<rparr>) si = Some (head, Some x, it1)"
  defines "it2 \<equiv> heap_refill it1 si head (Some x)"
  shows "heap_loop it =
    (if vi_snapshot it2 < sequence (fst x) \<or> skips_user it2 (user_key (fst x)) \<or> \<not> in_range it2 (user_key (fst x))
     then heap_loop it2 else Some (Some (fst (emit it2 x)), snd (emit it2 x)))"
  using assms(1,2) by (simp add: heap_loop.simps [of it] it2_def Let_def case_prod_unfold)

lemma heap_loop_measure:
  "heap_loop it = Some (Some row, it') \<Longrightarrow> iter_measure it' < iter_measure it"
proof (induction "iter_measure it" arbitrary: it rule: less_induct)
  case less
  obtain si rest where pop: "heap_pop (head_lt (vi_heads it)) (vi_heap it) = Some (si, rest)"
    using less(2) by (auto simp: heap_loop.simps [of it] split: option.splits)
  obtain head cur it1 where p: "pull (it\<lparr>vi_heap := rest\<rparr>) si = Some (head, cur, it1)"
    using less(2) pop by (auto simp: heap_loop.simps [of it] split: option.splits)
  let ?it2 = "heap_refill it1 si head cur"
  note m = pop_pull_measure [OF pop p]
  consider "heap_loop ?it2 = Some (Some row, it')" | x where "it' = snd (emit ?it2 x)"
    using less(2) pop p
    by (auto simp: heap_loop.simps [of it] Let_def case_prod_unfold split: option.splits if_splits)
  then show ?case
  proof cases
    case 1
    then show ?thesis using less(1) [OF m 1] m by simp
  next
    case 2
    then show ?thesis using m by (simp add: iter_measure_emit)
  qed
qed

lemma next_window_measure:
  "next_window_kv it = Some (Some row, it') \<Longrightarrow> iter_measure it' < iter_measure it"
  by (auto simp: next_window_kv_def dest: single_loop_measure heap_loop_measure split: if_splits)

function next_loop :: "visible_iter \<Rightarrow> (visible_kv option \<times> visible_iter) option" where
  "next_loop it =
     (case next_window_kv it of
        None \<Rightarrow> None
      | Some (None, it') \<Rightarrow> Some (None, it')
      | Some (Some row, it') \<Rightarrow>
          if iter_window_keep (wk_live row) then
            Some (Some \<lparr>vk_key = wk_key row, vk_value = wk_value row\<rparr>,
              it'\<lparr>vi_emitted := min (vi_emitted it' + 1) (usize_bound - 1)\<rparr>)
          else next_loop it')"
  by pat_completeness auto
termination by (relation "measure iter_measure") (auto dest: next_window_measure)

declare next_loop.simps [simp del]

definition visible_next :: "visible_iter \<Rightarrow> (visible_kv option \<times> visible_iter) option" where
  "visible_next it =
     (if (case vi_limit it of Some m \<Rightarrow> m \<le> vi_emitted it | None \<Rightarrow> False) then Some (None, it)
      else next_loop it)"

lemma next_loop_measure:
  "next_loop it = Some (Some kv, it') \<Longrightarrow> iter_measure it' < iter_measure it"
proof (induction "iter_measure it" arbitrary: it rule: less_induct)
  case less
  obtain row it1 where w: "next_window_kv it = Some (Some row, it1)"
    using less(2) by (auto simp: next_loop.simps [of it] split: option.splits)
  note m = next_window_measure [OF w]
  show ?case
  proof (cases "iter_window_keep (wk_live row)")
    case True
    then show ?thesis using less(2) w m by (auto simp: next_loop.simps [of it] iter_measure_def)
  next
    case False
    then have "next_loop it1 = Some (Some kv, it')" using less(2) w by (simp add: next_loop.simps [of it])
    then show ?thesis using less(1) [OF m] m by simp
  qed
qed

text \<open>Calling \<open>next\<close> until the iterator is exhausted.\<close>

function visible_collect :: "visible_iter \<Rightarrow> visible_kv list option" where
  "visible_collect it =
     (case visible_next it of
        None \<Rightarrow> None
      | Some (None, _) \<Rightarrow> Some []
      | Some (Some kv, it') \<Rightarrow> map_option ((#) kv) (visible_collect it'))"
  by pat_completeness auto
termination
  by (relation "measure iter_measure") (auto simp: visible_next_def dest: next_loop_measure split: if_splits)

declare visible_collect.simps [simp del]

section \<open>The rows still to come\<close>

interpretation hl: index_order "head_lt heads" for heads
proof
  have less: "head_before a b \<longleftrightarrow> a \<noteq> None \<and> (b = None \<or> fst (the a) < fst (the b))" for a b
    by (induction a b rule: head_before.induct) (auto simp: less_internal_key_def)
  fix a b c
  show "head_lt heads a b \<Longrightarrow> \<not> head_lt heads b a" by (auto simp: head_lt_def less)
  show "\<not> head_lt heads b a \<Longrightarrow> \<not> head_lt heads c b \<Longrightarrow> \<not> head_lt heads c a"
    by (auto simp: head_lt_def less)
qed

definition stream_rows :: "visible_iter \<Rightarrow> nat \<Rightarrow> entry set" where
  "stream_rows it i = set_option (vi_heads it ! i) \<union> set (vi_streams it ! i)"

definition rem_rows :: "visible_iter \<Rightarrow> entry set" where
  "rem_rows it = (\<Union>i \<in> set (vi_heap it). stream_rows it i)"

definition wanted :: "visible_iter \<Rightarrow> entry \<Rightarrow> bool" where
  "wanted it x \<longleftrightarrow> sequence (fst x) \<le> vi_snapshot it \<and> in_range it (user_key (fst x)) \<and>
     \<not> skips_user it (user_key (fst x))"

definition vi_ok :: "visible_iter \<Rightarrow> bool" where
  "vi_ok it \<longleftrightarrow>
     length (vi_heads it) = length (vi_streams it) \<and> distinct (vi_heap it) \<and>
     (\<forall>i \<in> set (vi_heap it). i < length (vi_streams it) \<and>
        (\<exists>h. vi_heads it ! i = Some h \<and> sorted (map fst (h # vi_streams it ! i)))) \<and>
     index_order.heap_from (head_lt (vi_heads it)) 0 (vi_heap it) \<and>
     (\<forall>s. vi_skip_user it = Some s \<longrightarrow> (\<forall>x \<in> rem_rows it. s \<le> user_key (fst x)))"

definition same_query :: "visible_iter \<Rightarrow> visible_iter \<Rightarrow> bool" where
  "same_query it it' \<longleftrightarrow>
     vi_snapshot it' = vi_snapshot it \<and> vi_range_dels it' = vi_range_dels it \<and>
     vi_start it' = vi_start it \<and> vi_end it' = vi_end it \<and>
     vi_limit it' = vi_limit it \<and> vi_emitted it' = vi_emitted it"

text \<open>One pull removes the least row \<open>h\<close>, and perhaps rows past the end of the range.\<close>

definition pulled :: "visible_iter \<Rightarrow> entry \<Rightarrow> visible_iter \<Rightarrow> bool" where
  "pulled it h it' \<longleftrightarrow>
     vi_ok it' \<and> same_query it it' \<and> vi_skip_user it' = vi_skip_user it \<and>
     h \<in> rem_rows it \<and> rem_rows it' \<subseteq> rem_rows it \<and>
     (\<forall>x \<in> rem_rows it. x = h \<or> x \<in> rem_rows it' \<or> beyond_end it (user_key (fst x))) \<and>
     (\<forall>x \<in> rem_rows it. fst h \<le> fst x)"

lemma heap_from_heads:
  assumes "\<And>i. i \<in> set h \<Longrightarrow> heads ! i = heads' ! i"
  shows "index_order.heap_from (head_lt heads) m h \<longleftrightarrow> index_order.heap_from (head_lt heads') m h"
proof -
  have "(i - 1) div 2 < length h" if "i < length h" for i using that by linarith
  then show ?thesis using assms by (auto simp: hl.heap_from_def hl.le_def head_lt_def)
qed

text \<open>What the heap knows when stream \<open>si\<close> with head \<open>h\<close> leaves it.\<close>

definition popped :: "visible_iter \<Rightarrow> nat \<Rightarrow> nat list \<Rightarrow> entry \<Rightarrow> bool" where
  "popped it si rest h \<longleftrightarrow>
     vi_ok it \<and> set (vi_heap it) = insert si (set rest) \<and> si \<notin> set rest \<and> distinct rest \<and>
     vi_heads it ! si = Some h \<and> index_order.heap_from (head_lt (vi_heads it)) 0 rest \<and>
     (\<forall>x \<in> rem_rows it. fst h \<le> fst x)"

lemma popped_facts:
  assumes "popped it si rest h"
  shows "si < length (vi_streams it)" "si < length (vi_heads it)"
    "h \<in> rem_rows it" "rem_rows it = {h} \<union> set (vi_streams it ! si) \<union> (\<Union>i \<in> set rest. stream_rows it i)"
    "sorted (map fst (h # vi_streams it ! si))"
  using assms by (auto simp: popped_def vi_ok_def rem_rows_def stream_rows_def)

lemma popped_rest:
  assumes "popped it si rest h" "i \<in> set rest"
  shows "si \<noteq> i" "i < length (vi_streams it)"
    "\<exists>g. vi_heads it ! i = Some g \<and> sorted (map fst (g # vi_streams it ! i))"
  using assms by (auto simp: popped_def vi_ok_def)

lemma popped_skip:
  assumes "popped it si rest h" "R \<subseteq> rem_rows it"
  shows "\<forall>s. vi_skip_user it = Some s \<longrightarrow> (\<forall>x \<in> R. s \<le> user_key (fst x))"
  using assms unfolding popped_def vi_ok_def by blast

lemma pulled_drop:
  assumes p: "popped it si rest h"
    and it': "vi_heap it' = rest" "vi_heads it' = (vi_heads it)[si := None]"
      "vi_streams it' = (vi_streams it)[si := tl (vi_streams it ! si)]"
      "same_query it it'" "vi_skip_user it' = vi_skip_user it"
    and gone: "\<And>x. x \<in> set (vi_streams it ! si) \<Longrightarrow> beyond_end it (user_key (fst x))"
  shows "pulled it h it'"
proof -
  note f = popped_facts [OF p] and r = popped_rest [OF p]
  have rows: "stream_rows it' i = stream_rows it i" if "i \<in> set rest" for i
    using r(1) [OF that] it' by (simp add: stream_rows_def)
  have rem: "rem_rows it' = (\<Union>i \<in> set rest. stream_rows it i)" using rows it'(1) by (simp add: rem_rows_def)
  have heap: "index_order.heap_from (head_lt (vi_heads it')) 0 rest"
    using p r(1) it'(2) heap_from_heads [of rest "vi_heads it'" "vi_heads it"] by (auto simp: popped_def)
  have len: "length (vi_heads it') = length (vi_streams it')" using p it' by (simp add: popped_def vi_ok_def)
  have sub: "rem_rows it' \<subseteq> rem_rows it" using rem f(4) by auto
  have "i < length (vi_streams it') \<and> (\<exists>g. vi_heads it' ! i = Some g \<and> sorted (map fst (g # vi_streams it' ! i)))"
    if "i \<in> set (vi_heap it')" for i
    using that r [of i] it' by simp
  moreover have "distinct (vi_heap it')" using p it' by (simp add: popped_def)
  ultimately have "vi_ok it'"
    using heap len popped_skip [OF p sub] it'(1,5) unfolding vi_ok_def by simp
  then show ?thesis using it'(4,5) f rem gone p sub by (auto simp: pulled_def popped_def)
qed

lemma pulled_keep:
  assumes p: "popped it si rest h" and s: "vi_streams it ! si = y # s'"
    and it': "set (vi_heap it') = insert si (set rest)" "distinct (vi_heap it')"
      "index_order.heap_from (head_lt (vi_heads it')) 0 (vi_heap it')"
      "vi_heads it' = (vi_heads it)[si := Some y]" "vi_streams it' = (vi_streams it)[si := s']"
      "same_query it it'" "vi_skip_user it' = vi_skip_user it"
  shows "pulled it h it'"
proof -
  note f = popped_facts [OF p] and r = popped_rest [OF p]
  have rows: "stream_rows it' i = stream_rows it i" if "i \<in> set rest" for i
    using r(1) [OF that] it' by (simp add: stream_rows_def)
  have rem: "rem_rows it' = insert y (set s') \<union> (\<Union>i \<in> set rest. stream_rows it i)"
    using rows it'(1,4,5) f(1,2) by (simp add: rem_rows_def) (simp add: stream_rows_def)
  have len: "length (vi_heads it') = length (vi_streams it')" using p it' by (simp add: popped_def vi_ok_def)
  have sub: "rem_rows it' \<subseteq> rem_rows it" using rem f(4) s by auto
  have "i < length (vi_streams it') \<and> (\<exists>g. vi_heads it' ! i = Some g \<and> sorted (map fst (g # vi_streams it' ! i)))"
    if "i \<in> set (vi_heap it')" for i
  proof (cases "i = si")
    case True
    then show ?thesis using it' f s by simp
  next
    case False
    then have "i \<in> set rest" using that it'(1) by simp
    then show ?thesis using r [of i] it' by simp
  qed
  then have "vi_ok it'"
    using len popped_skip [OF p sub] it'(2,3,7) unfolding vi_ok_def by simp
  then show ?thesis using it'(6,7) f rem p sub s by (auto simp: pulled_def popped_def)
qed

lemma heap_popped:
  assumes ok: "vi_ok it" and pop: "heap_pop (head_lt (vi_heads it)) (vi_heap it) = Some (si, rest)"
  shows "\<exists>h. popped it si rest h"
proof -
  note m = heap_pop_mset [OF pop]
  then have s: "set (vi_heap it) = insert si (set rest)" by (metis set_mset_add_mset_insert set_mset_mset)
  have "distinct (vi_heap it) \<longleftrightarrow> distinct (si # rest)"
    using m by (intro mset_eq_imp_distinct_iff) simp
  then have d: "si \<notin> set rest" "distinct rest" using ok by (auto simp: vi_ok_def)
  obtain h where h: "vi_heads it ! si = Some h" using ok s by (auto simp: vi_ok_def)
  have heap: "index_order.heap_from (head_lt (vi_heads it)) 0 (vi_heap it)" using ok by (simp add: vi_ok_def)
  have "fst h \<le> fst x" if "x \<in> rem_rows it" for x
  proof -
    obtain i where i: "i \<in> set (vi_heap it)" "x \<in> stream_rows it i" using \<open>x \<in> rem_rows it\<close> by (auto simp: rem_rows_def)
    obtain g where g: "vi_heads it ! i = Some g" "sorted (map fst (g # vi_streams it ! i))"
      using ok i(1) by (auto simp: vi_ok_def)
    have "\<not> head_lt (vi_heads it) i si" using hl.heap_pop_least [OF heap pop i(1)] by (simp add: hl.le_def)
    then have "fst h \<le> fst g"
      using g(1) h by (cases g; cases h) (auto simp: head_lt_def less_internal_key_def [symmetric])
    also have "fst g \<le> fst x" using i(2) g by (auto simp: stream_rows_def)
    finally show ?thesis .
  qed
  then have "popped it si rest h"
    using ok s d h hl.heap_pop_heap [OF heap pop] by (simp add: popped_def)
  then show ?thesis ..
qed

lemma heap_refill_keep:
  assumes p: "popped it si rest h" and s: "vi_streams it ! si = y # s'"
  defines "heads \<equiv> (vi_heads it)[si := Some y]"
  shows "pulled it h (it\<lparr>vi_heap := heap_push (head_lt heads) rest si, vi_streams := (vi_streams it)[si := s'],
    vi_heads := heads\<rparr>)"
proof -
  have m: "mset (heap_push (head_lt heads) rest si) = mset (si # rest)" by (simp add: heap_push_mset)
  have "index_order.heap_from (head_lt heads) 0 rest"
    using p popped_rest(1) [OF p] heap_from_heads [of rest heads "vi_heads it"] by (simp add: popped_def heads_def)
  then have "index_order.heap_from (head_lt heads) 0 (heap_push (head_lt heads) rest si)"
    by (rule hl.heap_push_heap)
  moreover have "set (heap_push (head_lt heads) rest si) = insert si (set rest)"
    using mset_eq_setD [OF m] by simp
  moreover have "distinct (heap_push (head_lt heads) rest si)"
    using mset_eq_imp_distinct_iff [OF m] p by (simp add: popped_def)
  ultimately show ?thesis
    by (intro pulled_keep [OF p s]) (simp_all add: same_query_def heads_def)
qed

lemma heap_step:
  assumes p: "popped it si rest h"
  shows "\<exists>head it1. pull (it\<lparr>vi_heap := rest\<rparr>) si = Some (head, Some h, it1) \<and>
    pulled it h (heap_refill it1 si head (Some h))"
proof -
  note f = popped_facts [OF p] and r = popped_rest [OF p]
  let ?it = "it\<lparr>vi_heap := rest\<rparr>"
  let ?s = "vi_streams it ! si"
  let ?it1 = "?it\<lparr>vi_streams := (vi_streams it)[si := tl ?s], vi_heads := (vi_heads it)[si := None]\<rparr>"
  have pull: "pull ?it si = Some (stream_head ?s, Some h, ?it1)"
    using f(1,2) p by (simp add: pull_def popped_def)
  have query: "same_query it ?it1" by (simp add: same_query_def)
  have later: "beyond_end it (user_key (fst x))"
    if "beyond_end it (user_key (fst y))" "fst y \<le> fst x" for x y :: entry
    using that past_end_mono ikey_le_user_key unfolding beyond_end_def by blast
  have "pulled it h (heap_refill ?it1 si (stream_head ?s) (Some h))"
  proof (cases "beyond_end it (user_key (fst h)) \<or> ?s = [] \<or> beyond_end it (user_key (fst (hd ?s)))")
    case True
    have "heap_refill ?it1 si (stream_head ?s) (Some h) = ?it1"
      using True by (cases ?s; cases h)
        (auto simp: heap_refill_def beyond_end_def Let_def stream_head_def case_prod_unfold)
    moreover have "pulled it h ?it1"
    proof (rule pulled_drop [OF p])
      show "beyond_end it (user_key (fst x))" if "x \<in> set ?s" for x
        using True that f(5) later [of h x] later [of "hd ?s" x] by (cases ?s) auto
    qed (simp_all add: query)
    ultimately show ?thesis by simp
  next
    case False
    then obtain y s' where s: "?s = y # s'" by (cases ?s) auto
    then have "heap_refill ?it1 si (stream_head ?s) (Some h) =
        it\<lparr>vi_heap := heap_push (head_lt ((vi_heads it)[si := Some y])) rest si,
          vi_streams := (vi_streams it)[si := s'], vi_heads := (vi_heads it)[si := Some y]\<rparr>"
      using False by (cases y; cases h) (simp add: heap_refill_def beyond_end_def Let_def stream_head_def)
    then show ?thesis using heap_refill_keep [OF p s] by simp
  qed
  with pull show ?thesis by blast
qed

lemma single_popped:
  assumes "vi_ok it" "vi_heap it = [si]"
  shows "\<exists>h. popped it si [] h"
proof -
  obtain h where h: "vi_heads it ! si = Some h" "sorted (map fst (h # vi_streams it ! si))"
    using assms by (auto simp: vi_ok_def)
  have "popped it si [] h"
    using assms h by (auto simp: popped_def hl.heap_from_def rem_rows_def stream_rows_def)
  then show ?thesis ..
qed

lemma single_step:
  assumes p: "popped it si [] h" and heap: "vi_heap it = [si]"
  shows "\<exists>head it1. pull it si = Some (head, Some h, it1) \<and> pulled it h (single_refill it1 si head) \<and>
    (if head = None then vi_heap (single_refill it1 si head) = [] \<and> vi_heads (single_refill it1 si head) ! si = None
     else vi_heap (single_refill it1 si head) = [si])"
proof -
  note f = popped_facts [OF p]
  let ?s = "vi_streams it ! si"
  let ?it1 = "it\<lparr>vi_streams := (vi_streams it)[si := tl ?s], vi_heads := (vi_heads it)[si := None]\<rparr>"
  have pull: "pull it si = Some (stream_head ?s, Some h, ?it1)"
    using f(1,2) p by (simp add: pull_def popped_def)
  have "pulled it h (single_refill ?it1 si (stream_head ?s))"
  proof (cases ?s)
    case Nil
    then show ?thesis
      by (intro pulled_drop [OF p]) (simp_all add: single_refill_def stream_head_def same_query_def)
  next
    case (Cons y s')
    then show ?thesis
      using heap by (intro pulled_keep [OF p Cons])
        (simp_all add: single_refill_def stream_head_def same_query_def hl.heap_from_def)
  qed
  then show ?thesis using pull heap f(2)
    by (intro exI [of _ "stream_head ?s"] exI [of _ ?it1]) (auto simp: single_refill_def)
qed

definition coming :: "visible_iter \<Rightarrow> entry set" where
  "coming it = {x \<in> rem_rows it. wanted it x}"

lemma beyond_not_wanted: "beyond_end it (user_key (fst x)) \<Longrightarrow> \<not> wanted it x"
  using past_end_not_in_range by (auto simp: beyond_end_def wanted_def in_range_def)

lemma pulled_wanted: "pulled it h it' \<Longrightarrow> wanted it' x = wanted it x"
  by (simp add: pulled_def same_query_def wanted_def in_range_def skips_user_def)

lemma pulled_skip:
  assumes "pulled it h it'" "\<not> wanted it h"
  shows "coming it' = coming it"
proof (rule set_eqI)
  fix x
  have "x \<in> rem_rows it' \<longrightarrow> x \<in> rem_rows it"
      "x \<in> rem_rows it \<longrightarrow> x = h \<or> x \<in> rem_rows it' \<or> beyond_end it (user_key (fst x))"
    using assms(1) unfolding pulled_def by blast+
  then show "x \<in> coming it' \<longleftrightarrow> x \<in> coming it"
    using assms(2) beyond_not_wanted [of it x] unfolding coming_def mem_Collect_eq pulled_wanted [OF assms(1)]
    by blast
qed

lemma pulled_beyond:
  assumes "pulled it h it'" "beyond_end it (user_key (fst h))"
  shows "coming it = {}"
proof -
  have "beyond_end it (user_key (fst x))" if "x \<in> rem_rows it" for x
    using assms that past_end_mono ikey_le_user_key unfolding pulled_def beyond_end_def by blast
  then show ?thesis using beyond_not_wanted unfolding coming_def by blast
qed

lemma pulled_emit:
  assumes ok: "vi_ok it" and p: "pulled it h it'" and w: "wanted it h"
  shows "vi_ok (snd (emit it' h)) \<and> same_query it (snd (emit it' h)) \<and> h \<in> coming it \<and>
    (\<forall>x \<in> coming it. fst h \<le> fst x) \<and>
    coming (snd (emit it' h)) = {x \<in> coming it. user_key (fst h) < user_key (fst x)}"
proof -
  let ?it = "it'\<lparr>vi_skip_user := Some (user_key (fst h))\<rparr>"
  have e: "snd (emit it' h) = ?it" by (simp add: emit_def case_prod_unfold)
  have rem: "rem_rows ?it = rem_rows it'" by (simp add: rem_rows_def stream_rows_def)
  have sub: "rem_rows it' \<subseteq> rem_rows it" and least: "\<forall>x \<in> rem_rows it. fst h \<le> fst x"
    and h: "h \<in> rem_rows it" and q: "same_query it it'" and ok': "vi_ok it'"
    using p by (simp_all add: pulled_def)
  have le: "user_key (fst h) \<le> user_key (fst x)" if "x \<in> rem_rows it" for x
    using least that ikey_le_user_key by blast
  have "\<forall>x \<in> rem_rows it'. user_key (fst h) \<le> user_key (fst x)" using le sub by blast
  then have "vi_ok ?it" using ok' unfolding vi_ok_def rem by simp
  moreover have "same_query it ?it" using q by (simp add: same_query_def)
  moreover have "wanted ?it x \<longleftrightarrow> wanted it x \<and> user_key (fst h) < user_key (fst x)" if "x \<in> rem_rows it" for x
  proof -
    have "\<not> skips_user it (user_key (fst x))" if "user_key (fst h) < user_key (fst x)"
    proof -
      have "s \<le> user_key (fst h)" if "vi_skip_user it = Some s" for s
        using ok h that unfolding vi_ok_def by blast
      then show ?thesis using that by (force simp: skips_user_def split: option.splits)
    qed
    moreover have "user_key (fst h) < user_key (fst x) \<longleftrightarrow> user_key (fst x) \<noteq> user_key (fst h)"
      using le [OF that] by auto
    ultimately show ?thesis
      using q by (auto simp: wanted_def same_query_def in_range_def skips_user_def [of ?it])
  qed
  moreover have "x \<in> rem_rows it'" if "x \<in> rem_rows it" "wanted it x" "user_key (fst h) < user_key (fst x)" for x
  proof -
    have "x \<noteq> h" using that(3) by blast
    then show ?thesis using p that(1,2) beyond_not_wanted unfolding pulled_def by blast
  qed
  ultimately show ?thesis
    unfolding e coming_def rem using w h sub least by blast
qed

section \<open>Window rows\<close>

text \<open>The iterator stands before the sorted rows \<open>L\<close>.\<close>

definition vi_at :: "visible_iter \<Rightarrow> entry list \<Rightarrow> bool" where
  "vi_at it L \<longleftrightarrow> vi_ok it \<and> btree_ok L \<and> set L = coming it"

definition window_row :: "visible_iter \<Rightarrow> entry \<Rightarrow> window_kv" where
  "window_row it x = \<lparr>wk_key = user_key (fst x), wk_value = snd x, wk_live = row_live (vi_range_dels it) (fst x)\<rparr>"

definition window_post :: "visible_iter \<Rightarrow> entry list \<Rightarrow> window_kv option \<Rightarrow> visible_iter \<Rightarrow> bool" where
  "window_post it L r it' \<longleftrightarrow> same_query it it' \<and>
     (case L of
        [] \<Rightarrow> r = None \<and> vi_at it' []
      | x # xs \<Rightarrow> r = Some (window_row it x) \<and>
          vi_at it' (dropWhile (\<lambda>y. user_key (fst y) = user_key (fst x)) xs))"

lemma same_query_trans: "same_query a b \<Longrightarrow> same_query b c \<Longrightarrow> same_query a c"
  by (simp add: same_query_def)

lemma window_post_query: "same_query it it1 \<Longrightarrow> window_post it1 L r it' \<Longrightarrow> window_post it L r it'"
  by (auto simp: window_post_def same_query_def window_row_def split: list.splits)

lemma at_skip:
  assumes "vi_at it L" "pulled it h it'" "\<not> wanted it h"
  shows "vi_at it' L"
  using assms pulled_skip [OF assms(2,3)] by (simp add: vi_at_def pulled_def)

lemma at_emit:
  assumes at: "vi_at it L" and p: "pulled it h it'" and w: "wanted it h"
  shows "window_post it L (Some (fst (emit it' h))) (snd (emit it' h))"
proof -
  have ok: "vi_ok it" and L: "btree_ok L" "set L = coming it" using at by (simp_all add: vi_at_def)
  note e = pulled_emit [OF ok p w]
  then have h: "h \<in> set L" "\<forall>x \<in> set L. fst h \<le> fst x" using L(2) by simp_all
  then obtain x xs where xs: "L = x # xs" by (cases L) auto
  have "x = h"
  proof (rule ccontr)
    assume "x \<noteq> h"
    then have "fst x < fst h" using h(1) L(1) xs by (auto simp: btree_ok_def)
    then show False using h(2) xs by auto
  qed
  note d = dropWhile_user [of "fst h" "snd h" xs]
  have emit: "fst (emit it' h) = window_row it h"
    using p by (simp add: emit_def window_row_def row_live_def pulled_def same_query_def case_prod_unfold)
  have "set (dropWhile (\<lambda>y. user_key (fst y) = user_key (fst h)) xs) = coming (snd (emit it' h))"
    using d L xs \<open>x = h\<close> e by auto
  then show ?thesis using d L(1) xs \<open>x = h\<close> e emit by (simp add: window_post_def vi_at_def)
qed

lemma at_beyond:
  assumes "vi_at it L" "pulled it h it'" "beyond_end it (user_key (fst h))"
  shows "L = []"
  using assms pulled_beyond [OF assms(2,3)] by (simp add: vi_at_def)

lemma at_empty_heap: "vi_heap it = [] \<Longrightarrow> vi_at it L \<Longrightarrow> L = []"
  by (simp add: vi_at_def coming_def rem_rows_def)

lemma pulled_conditions:
  assumes "pulled it h it'"
  shows "wanted it h \<longleftrightarrow> \<not> (vi_snapshot it' < sequence (fst h) \<or> skips_user it' (user_key (fst h)) \<or>
      \<not> in_range it' (user_key (fst h)))"
    and "beyond_end it' u = beyond_end it u"
  using assms by (auto simp: pulled_def same_query_def wanted_def in_range_def skips_user_def beyond_end_def not_less)

lemma heap_loop_window:
  assumes "vi_at it L"
  shows "\<exists>r it'. heap_loop it = Some (r, it') \<and> window_post it L r it'"
  using assms
proof (induction "iter_measure it" arbitrary: it rule: less_induct)
  case less
  show ?case
  proof (cases "heap_pop (head_lt (vi_heads it)) (vi_heap it)")
    case None
    then have "L = []" using at_empty_heap less(2) by simp
    moreover have "heap_loop it = Some (None, it)" by (simp only: heap_loop.simps [of it] None option.case)
    ultimately show ?thesis using less(2) by (simp add: window_post_def same_query_def)
  next
    case (Some q)
    then obtain si rest where pop: "heap_pop (head_lt (vi_heads it)) (vi_heap it) = Some (si, rest)" by (cases q) auto
    obtain h where "popped it si rest h" using heap_popped [OF _ pop] less(2) by (auto simp: vi_at_def)
    from heap_step [OF this] obtain head it1 where
      pull: "pull (it\<lparr>vi_heap := rest\<rparr>) si = Some (head, Some h, it1)"
      and p: "pulled it h (heap_refill it1 si head (Some h))" by blast
    let ?it2 = "heap_refill it1 si head (Some h)"
    note loop = heap_loop_cases [OF pop pull]
    show ?thesis
    proof (cases "wanted it h")
      case True
      then have "heap_loop it = Some (Some (fst (emit ?it2 h)), snd (emit ?it2 h))"
        using pulled_conditions(1) [OF p] loop by simp
      then show ?thesis using at_emit [OF less(2) p True] by blast
    next
      case False
      then have "heap_loop it = heap_loop ?it2" using pulled_conditions(1) [OF p] loop by simp
      moreover have "same_query it ?it2" using p by (simp add: pulled_def)
      ultimately show ?thesis
        using less(1) [OF pop_pull_measure [OF pop pull] at_skip [OF less(2) p False]] window_post_query by metis
    qed
  qed
qed

lemma at_nothing:
  assumes "vi_heap it = []" "length (vi_heads it) = length (vi_streams it)"
  shows "vi_at it []"
  using assms by (simp add: vi_at_def vi_ok_def coming_def rem_rows_def btree_ok_def hl.heap_from_def)

lemma single_loop_end:
  assumes "vi_at it L" "vi_heap it = []" "vi_heads it ! si = None" "si < length (vi_heads it)"
  shows "\<exists>r it'. single_loop it si = Some (r, it') \<and> window_post it L r it'"
proof -
  have L: "L = []" and len: "length (vi_heads it) = length (vi_streams it)"
    using assms at_empty_heap by (auto simp: vi_at_def vi_ok_def)
  obtain head it1 where pull: "pull it si = Some (head, None, it1)" and q: "same_query it (single_refill it1 si head)"
    and e: "vi_heap (single_refill it1 si head) = []"
      "length (vi_heads (single_refill it1 si head)) = length (vi_streams (single_refill it1 si head))"
    using assms(2-4) len by (simp add: pull_def single_refill_def same_query_def)
  have "single_loop it si = Some (None, single_refill it1 si head)"
    by (simp add: single_loop.simps [of it si] pull Let_def)
  then show ?thesis using at_nothing [OF e] q L by (simp add: window_post_def)
qed

lemma single_loop_window:
  assumes "vi_at it L" "vi_heap it = [si]"
  shows "\<exists>r it'. single_loop it si = Some (r, it') \<and> window_post it L r it'"
  using assms
proof (induction "single_measure it si" arbitrary: it rule: less_induct)
  case less
  have "vi_ok it" using less(2) by (simp add: vi_at_def)
  from single_popped [OF this less(3)] obtain h where po: "popped it si [] h" by blast
  from single_step [OF po less(3)] obtain head it1 where
    pull: "pull it si = Some (head, Some h, it1)" and p: "pulled it h (single_refill it1 si head)"
    and heap: "if head = None then vi_heap (single_refill it1 si head) = [] \<and> vi_heads (single_refill it1 si head) ! si = None
      else vi_heap (single_refill it1 si head) = [si]" by blast
  let ?it2 = "single_refill it1 si head"
  note cond = pulled_conditions [OF p] and loop = single_loop_cases [OF pull]
  consider "wanted it h" | "\<not> wanted it h" "single_loop it si = single_loop ?it2 si"
    | "beyond_end it (user_key (fst h))"
      "single_loop it si = Some (None, ?it2\<lparr>vi_heap := [], vi_heads := (vi_heads ?it2)[si := None]\<rparr>)"
    using cond loop by (auto split: if_splits)
  then show ?case
  proof cases
    case 1
    then show ?thesis using at_emit [OF less(2) p] cond loop by auto
  next
    case 2
    have at: "vi_at ?it2 L" by (rule at_skip [OF less(2) p 2(1)])
    have "\<exists>r it'. single_loop ?it2 si = Some (r, it') \<and> window_post ?it2 L r it'"
    proof (cases "head = None")
      case True
      have "si < length (vi_heads ?it2)" using pull_refill [OF pull] True by (simp add: single_refill_def)
      then show ?thesis using single_loop_end [OF at] heap True by simp
    next
      case False
      then show ?thesis using less(1) [OF single_pull_measure [OF pull] at] heap by simp
    qed
    then show ?thesis using 2(2) window_post_query p unfolding pulled_def by metis
  next
    case 3
    have "L = []" by (rule at_beyond [OF less(2) p 3(1)])
    moreover have "vi_at (?it2\<lparr>vi_heap := [], vi_heads := (vi_heads ?it2)[si := None]\<rparr>) []"
      using p by (intro at_nothing) (simp_all add: pulled_def vi_ok_def)
    ultimately show ?thesis using 3(2) p by (simp add: window_post_def pulled_def same_query_def)
  qed
qed

lemma next_window:
  assumes "vi_at it L"
  shows "\<exists>r it'. next_window_kv it = Some (r, it') \<and> window_post it L r it'"
proof (cases "length (vi_heap it) = 1")
  case True
  then obtain si where "vi_heap it = [si]" by (auto simp: length_Suc_conv)
  then show ?thesis using single_loop_window [OF assms] by (simp add: next_window_kv_def)
next
  case False
  then show ?thesis using heap_loop_window [OF assms] by (simp add: next_window_kv_def)
qed

section \<open>Collecting the iterator\<close>

definition next_post :: "visible_iter \<Rightarrow> entry list \<Rightarrow> visible_kv option \<Rightarrow> visible_iter \<Rightarrow> bool" where
  "next_post it L r it' \<longleftrightarrow>
     (case emitted_rows (vi_range_dels it) L of
        [] \<Rightarrow> r = None
      | x # xs \<Rightarrow> r = Some (row_kv x) \<and> vi_limit it' = vi_limit it \<and>
          vi_range_dels it' = vi_range_dels it \<and>
          vi_emitted it' = min (vi_emitted it + 1) (usize_bound - 1) \<and>
          (\<exists>L'. vi_at it' L' \<and> emitted_rows (vi_range_dels it) L' = xs))"

lemma vi_at_emitted: "vi_at (it\<lparr>vi_emitted := n\<rparr>) L \<longleftrightarrow> vi_at it L"
  by (simp add: vi_at_def vi_ok_def coming_def rem_rows_def stream_rows_def wanted_def in_range_def skips_user_def)

lemma next_loop_row:
  assumes "vi_at it L"
  shows "\<exists>r it'. next_loop it = Some (r, it') \<and> next_post it L r it'"
  using assms
proof (induction "vi_range_dels it" L arbitrary: it rule: emitted_rows.induct)
  case 1
  from next_window [OF 1] obtain it' where "next_window_kv it = Some (None, it')"
    by (auto simp: window_post_def)
  then show ?case by (simp add: next_loop.simps [of it] next_post_def)
next
  case (2 x xs)
  let ?rest = "dropWhile (\<lambda>y. user_key (fst y) = user_key (fst x)) xs"
  from next_window [OF 2(2)] obtain it' where w: "next_window_kv it = Some (Some (window_row it x), it')"
    and q: "same_query it it'" and at: "vi_at it' ?rest" by (auto simp: window_post_def)
  show ?case
  proof (cases "row_live (vi_range_dels it) (fst x)")
    case True
    then show ?thesis using w q at
      by (auto simp: next_loop.simps [of it] next_post_def iter_window_keep_def window_row_def row_kv_def
          same_query_def vi_at_emitted)
  next
    case False
    have dels: "vi_range_dels it = vi_range_dels it'" using q by (simp add: same_query_def)
    from 2(1) [OF dels at] obtain r it'' where "next_loop it' = Some (r, it'')" "next_post it' ?rest r it''" by blast
    then show ?thesis using w q False
      by (simp add: next_loop.simps [of it] iter_window_keep_def window_row_def next_post_def same_query_def
          split: list.splits)
  qed
qed

lemma visible_collect_rows:
  assumes "vi_at it L" "\<And>m. vi_limit it = Some m \<Longrightarrow> m < usize_bound"
  shows "visible_collect it = Some (map row_kv
    (case vi_limit it of
       None \<Rightarrow> emitted_rows (vi_range_dels it) L
     | Some m \<Rightarrow> take (m - vi_emitted it) (emitted_rows (vi_range_dels it) L)))"
  using assms
proof (induction "emitted_rows (vi_range_dels it) L" arbitrary: it L)
  case Nil
  then show ?case using next_loop_row [OF Nil(2)]
    by (auto simp: visible_collect.simps [of it] visible_next_def next_post_def split: option.splits)
next
  case (Cons x xs)
  show ?case
  proof (cases "\<exists>m. vi_limit it = Some m \<and> m \<le> vi_emitted it")
    case True
    then show ?thesis by (auto simp: visible_collect.simps [of it] visible_next_def)
  next
    case False
    obtain it' L' where n: "next_loop it = Some (Some (row_kv x), it')"
      and it': "vi_limit it' = vi_limit it" "vi_range_dels it' = vi_range_dels it"
        "vi_emitted it' = min (vi_emitted it + 1) (usize_bound - 1)" "vi_at it' L'"
        "xs = emitted_rows (vi_range_dels it') L'"
      using next_loop_row [OF Cons(3)] Cons(2) [symmetric] by (auto simp: next_post_def)
    have "visible_next it = Some (Some (row_kv x), it')"
      using n False by (auto simp: visible_next_def split: option.splits)
    moreover have "take (m - vi_emitted it) (x # xs) = x # take (m - vi_emitted it') xs" if "vi_limit it = Some m" for m
    proof -
      have "m - vi_emitted it = Suc (m - vi_emitted it')" using that False it'(3) Cons(4) [OF that] by auto
      then show ?thesis by simp
    qed
    ultimately show ?thesis
      using Cons(1) [OF it'(5,4)] Cons(4) Cons(2) [symmetric] it'(1,2,5) 
      by (simp add: visible_collect.simps [of it] split: option.splits)
  qed
qed

lemma first_head_Some: "first_head e s = Some x \<longleftrightarrow> \<not> past_end (user_key (fst x)) e \<and> s \<noteq> [] \<and> hd s = x"
  by (cases s) (auto simp: first_head_def stream_head_def split: if_splits)

lemma first_head_None: "first_head e s = None \<longleftrightarrow> s = [] \<or> past_end (user_key (fst (hd s))) e"
  by (cases s) (auto simp: first_head_def stream_head_def split: if_splits)

lemma from_point_streams_at:
  assumes sort: "\<forall>s \<in> set streams. sorted (map fst s)" and ok: "btree_ok m"
    and m: "set m = {x \<in> set (concat streams). sequence (fst x) \<le> snapshot \<and> user_key_in_range (user_key (fst x)) start end'}"
  shows "vi_at (from_point_streams streams dels snapshot start end' limit) m"
proof -
  let ?it = "from_point_streams streams dels snapshot start end' limit"
  let ?heads = "map (first_head end') streams"
  let ?heap = "filter (\<lambda>i. ?heads ! i \<noteq> None) [0..<length streams]"
  have it: "vi_heap ?it = heapify (head_lt ?heads) ?heap" "vi_heads ?it = ?heads" "vi_streams ?it = map tl streams"
    "vi_skip_user ?it = None" "vi_snapshot ?it = snapshot" "vi_start ?it = start" "vi_end ?it = end'"
    by (simp_all add: from_point_streams_def Let_def)
  have set: "set (vi_heap ?it) = {i. i < length streams \<and> first_head end' (streams ! i) \<noteq> None}"
    using mset_eq_setD [OF heapify_mset, of "head_lt ?heads" ?heap] it(1) by auto
  have dist: "distinct (vi_heap ?it)"
    using mset_eq_imp_distinct_iff [OF heapify_mset, of "head_lt ?heads" ?heap] it(1) by simp
  have rows: "stream_rows ?it i = set (streams ! i)" if "i \<in> set (vi_heap ?it)" for i
    using that it(2,3) unfolding set by (cases "streams ! i") (auto simp: stream_rows_def first_head_Some)
  have head: "\<exists>h. vi_heads ?it ! i = Some h \<and> sorted (map fst (h # vi_streams ?it ! i))"
    if "i \<in> set (vi_heap ?it)" for i
    using that it(2,3) sort unfolding set by (cases "streams ! i") (auto simp: first_head_Some dest!: nth_mem)
  have "vi_ok ?it"
    unfolding vi_ok_def using dist head set it hl.heapify_heap [of ?heads ?heap] by simp
  moreover have "coming ?it = set m"
  proof (rule set_eqI)
    fix x
    have "x \<in> coming ?it \<longleftrightarrow> x \<in> rem_rows ?it \<and> sequence (fst x) \<le> snapshot \<and> user_key_in_range (user_key (fst x)) start end'"
      by (simp add: coming_def wanted_def in_range_def skips_user_def it)
    moreover have "i \<in> set (vi_heap ?it)"
      if "i < length streams" "x \<in> set (streams ! i)" "user_key_in_range (user_key (fst x)) start end'" for i
    proof -
      have "sorted (map fst (streams ! i))" using sort that(1) by simp
      then have "fst (hd (streams ! i)) \<le> fst x" using that(2) by (cases "streams ! i") auto
      then have "\<not> past_end (user_key (fst (hd (streams ! i)))) end'"
        using that(3) past_end_not_in_range past_end_mono ikey_le_user_key by blast
      then show ?thesis using that(1,2) unfolding set mem_Collect_eq first_head_None by auto
    qed
    moreover have "x \<in> set (concat streams) \<longleftrightarrow> (\<exists>i < length streams. x \<in> set (streams ! i))"
      by (auto simp: set_conv_nth [of streams])
    moreover have "x \<in> rem_rows ?it \<longleftrightarrow> (\<exists>i \<in> set (vi_heap ?it). x \<in> set (streams ! i))"
      using rows by (simp add: rem_rows_def)
    moreover have "i < length streams" if "i \<in> set (vi_heap ?it)" for i using that unfolding set by simp
    ultimately show "x \<in> coming ?it \<longleftrightarrow> x \<in> set m" unfolding m by blast
  qed
  ultimately show ?thesis using ok by (simp add: vi_at_def)
qed

lemma collect_range_tombstones_append:
  "collect_range_tombstones (xs @ ys) snapshot =
     collect_range_tombstones xs snapshot @ collect_range_tombstones ys snapshot"
  by (induction xs snapshot rule: collect_range_tombstones.induct) simp_all

lemma collect_range_tombstones_concat:
  "concat (map (\<lambda>s. collect_range_tombstones s snapshot) streams) =
     collect_range_tombstones (concat streams) snapshot"
  by (induction streams) (simp_all add: collect_range_tombstones_append)

lemma visible_iter_new_at:
  assumes sort: "\<forall>s \<in> set streams. sorted (map fst s)" and ok: "btree_ok m"
    and m: "set m = {x \<in> set (concat streams). relevant snapshot start end' x}"
  shows "vi_at (visible_iter_new streams snapshot start end' limit) m"
  unfolding visible_iter_new_def
proof (rule from_point_streams_at [OF _ ok])
  show "\<forall>s \<in> set (map (point_rows snapshot) streams). sorted (map fst s)"
    using sort by (auto simp: point_rows_def intro: sorted_filter)
  show "set m = {x \<in> set (concat (map (point_rows snapshot) streams)).
      sequence (fst x) \<le> snapshot \<and> user_key_in_range (user_key (fst x)) start end'}"
    unfolding m by (auto simp: point_rows_def relevant_def)
qed

text \<open>C6. Collecting the streaming iterator over sorted streams ends without a panic and gives
  exactly the rows of the batch read over all the streams' entries: whatever way the rows are
  distributed over the streams, with the heap, the one-stream fast path, the streams dropped
  at the end of the range, and the limit.\<close>

theorem streaming_equals_batch:
  assumes "\<forall>s \<in> set streams. sorted (map fst s)" "consistent (set (concat streams))"
    and "\<forall>m. limit = Some m \<longrightarrow> m < usize_bound"
  shows "visible_collect (visible_iter_new streams snapshot start end' limit) =
    Some (visible_range_limited (concat streams) snapshot start end' limit)"
proof -
  let ?it = "visible_iter_new streams snapshot start end' limit"
  let ?es = "concat streams"
  obtain m dels where g: "visible_gather snapshot start end' ?es ([], []) = (m, dels)" by fastforce
  have "btree_ok m" and "set m = {x \<in> set ?es. relevant snapshot start end' x}"
    using visible_gather_rows [OF assms(2) g] by simp_all
  then have "vi_at ?it m" using visible_iter_new_at [OF assms(1)] by blast
  moreover have it: "vi_limit ?it = limit" "vi_emitted ?it = 0" "vi_range_dels ?it = dels"
    using g collect_range_tombstones_concat
    by (simp_all add: visible_iter_new_def from_point_streams_def visible_gather_eq Let_def)
  ultimately have "visible_collect ?it = Some (map row_kv
      (case limit of None \<Rightarrow> emitted_rows dels m | Some n \<Rightarrow> take n (emitted_rows dels m)))"
    using visible_collect_rows [of ?it m, unfolded it diff_zero] assms(3) by simp
  then show ?thesis
    unfolding visible_range_limited_def g prod.case visible_walk_emitted list.size diff_zero by simp
qed

definition sample_streams :: "entry list list" where
  "sample_streams =
     [[(InternalKey [1] 2 Value, [8]), (InternalKey [2] 3 Value, [9]), (InternalKey [5] 1 Value, [5])],
      [], [(InternalKey [1] 4 RangeDeletion, [2]), (InternalKey [2] 1 Value, [7]), (InternalKey [3] 5 Value, [6])]]"

lemma streaming_equals_batch_witness:
  "list_all (\<lambda>s. sorted (map fst s)) sample_streams \<and> consistent (set (concat sample_streams)) \<and>
   visible_collect (visible_iter_new sample_streams 9 Unbounded (Excluded [5]) (Some 3)) =
     Some [\<lparr>vk_key = [2], vk_value = [9]\<rparr>, \<lparr>vk_key = [3], vk_value = [6]\<rparr>]"
proof -
  have s: "list_all (\<lambda>s. sorted (map fst s)) sample_streams" by code_simp
  have c: "consistent (set (concat sample_streams))" by (simp add: consistent_def sample_streams_def)
  have "visible_range_limited (concat sample_streams) 9 Unbounded (Excluded [5]) (Some 3) =
      [\<lparr>vk_key = [2], vk_value = [9]\<rparr>, \<lparr>vk_key = [3], vk_value = [6]\<rparr>]" by code_simp
  moreover have "\<forall>m. Some (3 :: nat) = Some m \<longrightarrow> m < usize_bound" by (simp add: usize_bound_def)
  ultimately show ?thesis
    using streaming_equals_batch [of sample_streams "Some 3" 9 Unbounded "Excluded [5]"] s c
    by (simp add: list_all_iff)
qed

end
