(* ===== verification/Spec2Isabelle.thy ===== *)
theory Spec2Isabelle
  imports Codec Wal_File Compact_Merge Streaming
begin

text \<open>
  PedraDB is an embedded LSM key-value store in Rust.  Writes become logical records
  (operations with sequence numbers), which a write-ahead log frames into checksummed
  fragments; a memtable indexes them by internal key; flushes and compactions merge sorted
  runs of internal keys and drop versions no snapshot can see; reads merge the layers at a
  snapshot.  This development covers the path of a write through the log and back through
  recovery, and the meaning of versions: what a snapshot reads, and that compaction does not
  change it.  Paths below are relative to \<open>src/crates/pedradb-core/src\<close>.

  \<^bold>\<open>Vocabulary.\<close>  \<open>Prelude\<close> has bytes (\<open>8 word\<close>), machine integers, checked and saturating
  arithmetic, little- and big-endian images, results (\<open>Inl\<close> is the error) and shared list
  lemmas.  \<open>usize\<close> values are naturals below \<open>usize_bound\<close>; sequence numbers are \<open>64 word\<close>.

  \<^bold>\<open>Keys, cursors, records.\<close>  \<open>Keys\<close> is \<open>key_kernel.rs\<close>: value types, the packed sequence
  word, internal keys with their byte image and their order (user key up, sequence down, kind
  down), which is an instance of \<open>linorder\<close>.  \<open>Codec\<close> is \<open>codec_kernel.rs\<close>: the bounds-checked
  cursor; no read leaves the buffer or moves back.  \<open>Batch\<close> is \<open>batch_kernel.rs\<close> with the
  admission checks of \<open>write_admission_kernel.rs\<close> it uses: the two record versions, shared
  values, encoder and decoder; the encoder fills exactly the buffer it sizes, decoding returns
  the operations, and no proper prefix of a record decodes.

  \<^bold>\<open>The write-ahead log.\<close>  \<open>Wal_Format\<close> has the constants, header fields, checksum and recovery
  decisions of \<open>wal/format_kernel.rs\<close>, \<open>wal/crc_kernel.rs\<close> and \<open>wal/recover_kernel.rs\<close>;
  \<open>Wal_Seal\<close> is \<open>wal_segment_seal_kernel.rs\<close>.  \<open>Wal_Frame\<close> and \<open>Wal_Source\<close> are the framing half
  of \<open>wal/writer_kernel.rs\<close>: fragmentation of a byte slice, of a batch straight from its
  operations, and of records encoded outside the lock; the locale \<open>record_source\<close> is the trait
  of the same name and is interpreted on both sources, and all three produce the same bytes.
  \<open>Wal_Reader\<close> is \<open>wal/reader_kernel.rs\<close>; its loops are total functions whose measure is the
  unread part of the file, so no fuel is needed.  \<open>Wal_Roundtrip\<close> and \<open>Wal_Recovery\<close> compose
  writer and reader: a framed log is recovered completely with the right append point, on any
  bytes only checksum-valid records come back, a damaged record stops recovery behind the
  intact prefix, and one alignment is shown at which an undamaged log is refused.
  \<open>Wal_Writer\<close> is the stateful writer (tickets of reserved spans, staging, commits in any
  order) with \<open>wal_ticket_kernel.rs\<close> and \<open>wal_buffer_kernel.rs\<close>: an inductive relation runs
  reservations, writes, failures and commits in any order, and the watermark is always the end
  of the committed prefix, which recovery returns.  \<open>Wal_File\<close> is the \<open>Wal\<close> facade of
  \<open>wal/mod_kernel.rs\<close>: appends, group frames, off-lock jobs, space reservation, barriers and
  reopening; after a successful barrier recovery returns exactly the records appended.

  \<^bold>\<open>Versions.\<close>  \<open>Visibility\<close> is the batch part of \<open>merge_kernel.rs\<close>: range tombstones,
  liveness and the snapshot range read, shown to compute the declarative \<open>visible_spec\<close>.
  \<open>Compaction\<close> is \<open>compact_kernel.rs\<close> and the batch rewrite \<open>gc_compact_entries\<close>: neither the
  snapshot-safe nor the latest-only rewrite changes any read.  \<open>Compact_Merge\<close> is the streaming
  form: the k-way merge of sorted sources (errors included) and the collector that decides one
  user key's run at a time; drained, it yields exactly the batch rewrite.  \<open>Stream_Heap\<close> and
  \<open>Streaming\<close> are the streaming range read \<open>StreamingVisibleIter\<close>: its index heap, proved over
  the locale \<open>index_order\<close> and interpreted on the order of the head rows, the one-stream fast path
  and the limit; collecting it ends and gives exactly the rows of the batch read.

  \<^bold>\<open>Parameters and hypotheses.\<close>  The CRC-32C routine of the \<open>crc32c\<close> crate is the parameter
  \<open>app :: crc_append\<close>; nothing is assumed of it beyond being a function.  The file under the log is the parameter \<open>sink_env\<close> /
  \<open>wal_env\<close>: \<open>honest_sink\<close> says that a write that reports success overlays its bytes and a
  failed one touches only its own span; \<open>healthy\<close> says that writes succeed; the witnesses
  instantiate them with an in-memory file.  \<open>log_ok\<close> asks of a log that no stored
  checksum equals the magic number of a seal and that no non-empty record starts with exactly
  one header's worth of space left in its block (the latter is the subject of its own theorem).  \<open>consistent\<close> says that equal internal keys carry equal values.  A Rust
  \<open>BTreeMap\<close> is its sorted list of pairs, a \<open>BinaryHeap\<close> a list from which the greatest
  element is removed, a \<open>HashMap\<close> an association list.  Panics are the value \<open>None\<close>.

  \<^bold>\<open>Not modelled.\<close>  The lock-free ring buffer of the writer and the byte-level staging in
  front of it; the memtable, SST tables, manifest, value log,
  transactions, group commit and the database facade that wires them; io\_uring and POSIX
  environments; caches, governors and the stand-alone research kernels; the RocksDB-compatible
  API, tools, simulation and benchmarks.  The \<open>_as_is\<close> functions of the kernels are oracles of
  their own tests.  Concurrency is modelled as interleavings of whole operations.
\<close>

end
